theory Spec2Isabelle
  imports Main "HOL-Library.Sublist"
begin

section \<open>JavaScript strings\<close>

text \<open>
  A JavaScript string is modelled as a \<open>string\<close>, one \<open>char\<close> per code unit, so the
  model covers the code units below 256.  \<open>isWhiteSpace\<close> is the set that both
  \<^verbatim>\<open>String.prototype.trim\<close> and the regular-expression class \<^verbatim>\<open>\s\<close> use, cut to that
  range: tab, line feed, vertical tab, form feed, carriage return, space and the
  no-break space.
\<close>

definition isWhiteSpace :: "char \<Rightarrow> bool" where
  "isWhiteSpace c =
     (c = CHR 0x09 \<or> c = CHR 0x0A \<or> c = CHR 0x0B \<or> c = CHR 0x0C \<or> c = CHR 0x0D \<or>
      c = CHR 0x20 \<or> c = CHR 0xA0)"

definition trim :: "string \<Rightarrow> string" where
  "trim s = rev (dropWhile isWhiteSpace (rev (dropWhile isWhiteSpace s)))"

text \<open>The characters of a string that are not white space, in order.\<close>

definition nonWs :: "string \<Rightarrow> string" where
  "nonWs s = filter (\<lambda>c. \<not> isWhiteSpace c) s"

text \<open>\<^verbatim>\<open>xs.join(sep)\<close> on an array of strings.\<close>

fun join :: "string \<Rightarrow> string list \<Rightarrow> string" where
  "join sep [] = []"
| "join sep [x] = x"
| "join sep (x # y # ys) = x @ sep @ join sep (y # ys)"

text \<open>\<^verbatim>\<open>s.substring(i, j)\<close> for \<open>i \<le> j\<close>, both clamped to the length by \<open>take\<close> and \<open>drop\<close>.\<close>

definition substring :: "string \<Rightarrow> nat \<Rightarrow> nat \<Rightarrow> string" where
  "substring s i j = take (j - i) (drop i s)"

section \<open>Blocks, rich text and the provider's listing call\<close>

record link_obj =
  url :: string

record text_obj =
  content :: string
  link :: "link_obj option"

record rich_text_item =
  rt_type :: string
  rt_text :: "text_obj option"
  plain_text :: "string option"
  href :: "string option"

text \<open>
  A block as the provider returns it.  The payload \<^verbatim>\<open>block[block.type]\<close> is flattened
  into the optional fields \<open>rich_text\<close>, \<open>color\<close>, \<open>checked\<close>, \<open>language\<close> and \<open>cells\<close>;
  \<open>None\<close> stands for a field that is \<^verbatim>\<open>undefined\<close>.
\<close>

record block =
  bid :: nat
  btype :: string
  has_children :: bool
  rich_text :: "rich_text_item list option"
  color :: "string option"
  checked :: "bool option"
  language :: "string option"
  cells :: "rich_text_item list list option"

record response =
  results :: "block list"
  has_more :: bool
  next_cursor :: "nat option"

text \<open>
  \<^verbatim>\<open>notion.blocks.children.list({block_id, start_cursor, page_size: 100})\<close>: the provider
  answers with a response or throws an error carrying a message.
\<close>

type_synonym lister = "nat \<Rightarrow> nat option \<Rightarrow> string + response"

section \<open>Block tree fetcher\<close>

text \<open>
  \<^verbatim>\<open>getAllBlocksFromPage\<close> (copy-content-to-blogs.js, tts-cloudflare-workflow.js).  The
  \<^verbatim>\<open>while (hasMore)\<close> loop is \<open>fetchLoop\<close>, the \<^verbatim>\<open>for\<close> loop over one response is
  \<open>fetchResults\<close>; both thread the array \<open>blocks\<close>.  A thrown listing error leaves the
  loop by \<^verbatim>\<open>break\<close> and the blocks collected so far are returned.  The first argument
  is fuel: every listing call uses one unit and \<open>None\<close> means that the walk has not
  returned within the fuel given.
\<close>

definition descends :: "block \<Rightarrow> bool" where
  "descends b =
     (has_children b \<and> btype b \<noteq> ''child_page'' \<and> btype b \<noteq> ''child_database'')"

fun fetchLoop :: "nat \<Rightarrow> lister \<Rightarrow> nat \<Rightarrow> block list \<Rightarrow> nat option \<Rightarrow> block list option"
  and fetchResults :: "nat \<Rightarrow> lister \<Rightarrow> block list \<Rightarrow> block list \<Rightarrow> block list option"
where
  "fetchLoop 0 lst pageId blocks cursor = None"
| "fetchLoop (Suc n) lst pageId blocks cursor =
     (case lst pageId cursor of
        Inl err \<Rightarrow> Some blocks
      | Inr resp \<Rightarrow>
          (case fetchResults n lst (results resp) blocks of
             None \<Rightarrow> None
           | Some blocks' \<Rightarrow>
               if has_more resp then fetchLoop n lst pageId blocks' (next_cursor resp)
               else Some blocks'))"
| "fetchResults n lst [] blocks = Some blocks"
| "fetchResults n lst (b # bs) blocks =
     (if descends b then
        (case fetchLoop n lst (bid b) [] None of
           None \<Rightarrow> None
         | Some childBlocks \<Rightarrow> fetchResults n lst bs (blocks @ [b] @ childBlocks))
      else fetchResults n lst bs (blocks @ [b]))"

definition getAllBlocksFromPage :: "nat \<Rightarrow> lister \<Rightarrow> nat \<Rightarrow> block list option" where
  "getAllBlocksFromPage n lst pageId = fetchLoop n lst pageId [] None"

section \<open>Text extraction for the blog content field\<close>

text \<open>\<^verbatim>\<open>extractTextFromRichText\<close> and \<^verbatim>\<open>extractTextFromBlock\<close> of copy-content-to-blogs.js.\<close>

definition extractTextFromRichText :: "rich_text_item list \<Rightarrow> string" where
  "extractTextFromRichText richTextArray =
     concat (map (\<lambda>richText. case plain_text richText of None \<Rightarrow> [] | Some t \<Rightarrow> t)
       richTextArray)"

definition extractTextFromBlock :: "block \<Rightarrow> string" where
  "extractTextFromBlock b =
     (if btype b \<in> {''paragraph'', ''heading_1'', ''heading_2'', ''heading_3'',
          ''bulleted_list_item'', ''numbered_list_item'', ''to_do'', ''quote'', ''callout''}
      then extractTextFromRichText (case rich_text b of None \<Rightarrow> [] | Some r \<Rightarrow> r)
      else if btype b = ''code''
      then (case rich_text b of None \<Rightarrow> []
            | Some r \<Rightarrow> concat (map (\<lambda>rt. case plain_text rt of None \<Rightarrow> [] | Some t \<Rightarrow> t) r))
      else if btype b = ''table'' then []
      else if btype b = ''divider'' then [CHR 0x0A]
      else [])"

text \<open>
  The three global regular-expression replacements of \<^verbatim>\<open>extractPageContent\<close>, each
  scanning from left to right and resuming after a match.

  \<^verbatim>\<open>/\s+/g\<close> with \<^verbatim>\<open>' '\<close>: a maximal run of white space becomes one space.
\<close>

function collapseWhitespace :: "string \<Rightarrow> string" where
  "collapseWhitespace [] = []"
| "collapseWhitespace (c # cs) =
     (if isWhiteSpace c then CHR '' '' # collapseWhitespace (dropWhile isWhiteSpace cs)
      else c # collapseWhitespace cs)"
  by pat_completeness auto
termination
  by (relation "measure length") (auto simp: length_dropWhile_le less_Suc_eq_le)

definition isSentenceEnd :: "char \<Rightarrow> bool" where
  "isSentenceEnd c = (c = CHR ''.'' \<or> c = CHR ''!'' \<or> c = CHR ''?'')"

definition isUpperAZ :: "char \<Rightarrow> bool" where
  "isUpperAZ c = (65 \<le> (of_char c :: nat) \<and> (of_char c :: nat) \<le> 90)"

definition isPunct :: "char \<Rightarrow> bool" where
  "isPunct c =
     (c = CHR ''.'' \<or> c = CHR '','' \<or> c = CHR '';'' \<or> c = CHR '':'' \<or> c = CHR ''!'' \<or>
      c = CHR ''?'')"

text \<open>
  \<^verbatim>\<open>/([.!?])\s*([A-Z])/g\<close> with \<^verbatim>\<open>'$1 $2'\<close>: at a sentence end, the greedy \<^verbatim>\<open>\s*\<close> takes
  the whole run of white space, and the match succeeds when an upper-case letter
  follows the run (no shorter run can be followed by one).
\<close>

function spaceAfterSentence :: "string \<Rightarrow> string" where
  "spaceAfterSentence [] = []"
| "spaceAfterSentence (c # cs) =
     (if isSentenceEnd c then
        (case dropWhile isWhiteSpace cs of
           [] \<Rightarrow> c # spaceAfterSentence cs
         | u # rest \<Rightarrow>
             if isUpperAZ u then c # CHR '' '' # u # spaceAfterSentence rest
             else c # spaceAfterSentence cs)
      else c # spaceAfterSentence cs)"
  by pat_completeness auto
termination
proof (relation "measure length")
  fix c :: char and cs :: string and u rest
  assume "dropWhile isWhiteSpace cs = u # rest"
  then have "length (u # rest) \<le> length cs"
    by (metis length_dropWhile_le)
  then show "(rest, c # cs) \<in> measure length" by simp
qed auto

text \<open>
  \<^verbatim>\<open>/\s+([.,;:!?])/g\<close> with \<^verbatim>\<open>'$1'\<close>: a run of white space that starts here and is
  followed by a punctuation mark is dropped; otherwise the scan moves on by one
  character.
\<close>

function stripSpaceBeforePunct :: "string \<Rightarrow> string" where
  "stripSpaceBeforePunct [] = []"
| "stripSpaceBeforePunct (c # cs) =
     (if isWhiteSpace c then
        (case dropWhile isWhiteSpace cs of
           [] \<Rightarrow> c # stripSpaceBeforePunct cs
         | p # rest \<Rightarrow>
             if isPunct p then p # stripSpaceBeforePunct rest
             else c # stripSpaceBeforePunct cs)
      else c # stripSpaceBeforePunct cs)"
  by pat_completeness auto
termination
proof (relation "measure length")
  fix c :: char and cs :: string and p rest
  assume "dropWhile isWhiteSpace cs = p # rest"
  then have "length (p # rest) \<le> length cs"
    by (metis length_dropWhile_le)
  then show "(rest, c # cs) \<in> measure length" by simp
qed auto

definition normalizeContent :: "string \<Rightarrow> string" where
  "normalizeContent s =
     trim (stripSpaceBeforePunct (spaceAfterSentence (collapseWhitespace s)))"

text \<open>
  The loop of \<^verbatim>\<open>extractPageContent\<close> keeps \<^verbatim>\<open>text.trim()\<close> of every block whose text is
  not empty after trimming.
\<close>

fun contentParts :: "block list \<Rightarrow> string list" where
  "contentParts [] = []"
| "contentParts (b # bs) =
     (let t = extractTextFromBlock b
      in if t \<noteq> [] \<and> trim t \<noteq> [] then trim t # contentParts bs else contentParts bs)"

definition extractPageContent :: "nat \<Rightarrow> lister \<Rightarrow> nat \<Rightarrow> string option" where
  "extractPageContent n lst pageId =
     (case getAllBlocksFromPage n lst pageId of
        None \<Rightarrow> None
      | Some blocks \<Rightarrow> Some (normalizeContent (join '' '' (contentParts blocks))))"

text \<open>
  The scenario page: container 0 holds a heading_1 block with the plain text
  \<open>Intro\<close> followed by a paragraph block with the plain text \<open>Hello world.\<close>, served
  in one response.
\<close>

definition textSpan :: "string \<Rightarrow> rich_text_item" where
  "textSpan s = \<lparr>rt_type = ''text'', rt_text = Some \<lparr>content = s, link = None\<rparr>,
     plain_text = Some s, href = None\<rparr>"

definition textBlock :: "nat \<Rightarrow> string \<Rightarrow> string list \<Rightarrow> block" where
  "textBlock i ty spans = \<lparr>bid = i, btype = ty, has_children = False,
     rich_text = Some (map textSpan spans), color = Some ''default'', checked = None,
     language = None, cells = None\<rparr>"

definition introPage :: lister where
  "introPage pageId cursor =
     (if pageId = 0 \<and> cursor = None
      then Inr \<lparr>results = [textBlock 1 ''heading_1'' [''Intro''],
                            textBlock 2 ''paragraph'' [''Hello world.'']],
                 has_more = False, next_cursor = None\<rparr>
      else Inl ''object_not_found'')"

text \<open>\<open>adjacent P Q s\<close>: somewhere in \<open>s\<close> a character with \<open>P\<close> is directly followed by one with \<open>Q\<close>.\<close>

fun adjacent :: "(char \<Rightarrow> bool) \<Rightarrow> (char \<Rightarrow> bool) \<Rightarrow> string \<Rightarrow> bool" where
  "adjacent P Q (a # b # cs) = (P a \<and> Q b \<or> adjacent P Q (b # cs))"
| "adjacent P Q cs = False"

text \<open>
  The form the normalisation is to reach: no two white-space characters side by side
  and no white space other than the space, no sentence end directly before an
  upper-case letter, no white space directly before a punctuation mark, and no white
  space at either end.
\<close>

definition normalized :: "string \<Rightarrow> bool" where
  "normalized s =
     (\<not> adjacent isWhiteSpace isWhiteSpace s \<and>
      list_all (\<lambda>c. \<not> isWhiteSpace c \<or> c = CHR '' '') s \<and>
      \<not> adjacent isSentenceEnd isUpperAZ s \<and>
      \<not> adjacent isWhiteSpace isPunct s \<and>
      trim s = s)"

text \<open>
  A page on which each step of the normalisation has something to do: a heading
  \<open>Intro\<close>, a paragraph with a run of spaces, a space before its full stop and no
  space behind it, and a paragraph that ends in a line feed.
\<close>

definition messyPage :: lister where
  "messyPage pageId cursor =
     (if pageId = 0 \<and> cursor = None
      then Inr \<lparr>results = [textBlock 1 ''heading_1'' [''Intro''],
                            textBlock 2 ''paragraph'' [''Hello   world .Next'', '' one''],
                            textBlock 3 ''paragraph'' [''is last !'', [CHR 0x0A]]],
                 has_more = False, next_cursor = None\<rparr>
      else Inl ''object_not_found'')"

section \<open>Chunking: the sentence-boundary splitter and the fixed-size slicing\<close>

text \<open>
  \<^verbatim>\<open>splitTextIntoChunks\<close> (lines 438-507 of the chunked text-to-speech converter).
  \<open>charAt\<close> is \<^verbatim>\<open>text[i]\<close>, \<open>None\<close> for \<^verbatim>\<open>undefined\<close> beyond the end.
\<close>

definition charAt :: "string \<Rightarrow> nat \<Rightarrow> char option" where
  "charAt s i = (if i < length s then Some (s ! i) else None)"

definition isBreakSpace :: "char option \<Rightarrow> bool" where
  "isBreakSpace c = (c = Some (CHR '' '') \<or> c = Some (CHR 0x0A) \<or> c = Some (CHR 0x0D))"

definition sentenceEndAt :: "string \<Rightarrow> nat \<Rightarrow> bool" where
  "sentenceEndAt s i =
     ((charAt s i = Some (CHR ''.'') \<or> charAt s i = Some (CHR ''!'') \<or>
       charAt s i = Some (CHR ''?'')) \<and>
      (i + 1 = length s \<or> isBreakSpace (charAt s (i + 1))))"

text \<open>
  The backward search \<^verbatim>\<open>for (let i = chunkEnd - 1; i > searchStart; i--)\<close>, started at
  \<open>i\<close>; it yields the new value of \<^verbatim>\<open>bestSentenceEnd\<close>, \<open>None\<close> when the loop ends
  without assigning it.
\<close>

fun searchSentenceEnd :: "string \<Rightarrow> nat \<Rightarrow> nat \<Rightarrow> nat option" where
  "searchSentenceEnd s 0 searchStart = None"
| "searchSentenceEnd s (Suc j) searchStart =
     (if Suc j > searchStart then
        if sentenceEndAt s (Suc j) then Some (Suc j + 1)
        else searchSentenceEnd s j searchStart
      else None)"

text \<open>\<^verbatim>\<open>text.lastIndexOf(c, from)\<close>, \<open>None\<close> for \<open>-1\<close>.\<close>

fun lastIndexOf :: "string \<Rightarrow> char \<Rightarrow> nat \<Rightarrow> nat option" where
  "lastIndexOf s c 0 = (if charAt s 0 = Some c then Some 0 else None)"
| "lastIndexOf s c (Suc j) =
     (if charAt s (Suc j) = Some c then Some (Suc j) else lastIndexOf s c j)"

text \<open>\<^verbatim>\<open>bestSentenceEnd > currentPosition\<close>, where \<open>None\<close> is the initial \<open>-1\<close>.\<close>

fun exceeds :: "nat option \<Rightarrow> nat \<Rightarrow> bool" where
  "exceeds None cur = False"
| "exceeds (Some b) cur = (b > cur)"

text \<open>The value of \<^verbatim>\<open>chunkEnd\<close> when the chunk is cut, for the position \<open>cur\<close>.\<close>

definition chunkEndFor :: "string \<Rightarrow> nat \<Rightarrow> nat \<Rightarrow> nat" where
  "chunkEndFor s maxLength cur =
     (let chunkEnd = min (cur + maxLength) (length s) in
      if chunkEnd < length s then
        (let best1 = searchSentenceEnd s (chunkEnd - 1) (max cur (chunkEnd - 1000)) in
         if exceeds best1 cur then the best1
         else
           (let best2 = (case searchSentenceEnd s (chunkEnd - 1) (max cur (chunkEnd - 2000)) of
                           None \<Rightarrow> best1 | Some b \<Rightarrow> Some b) in
            if exceeds best2 cur then the best2
            else
              (let lastSpace = lastIndexOf s (CHR '' '') chunkEnd in
               if exceeds lastSpace cur then the lastSpace else chunkEnd)))
      else chunkEnd)"

text \<open>
  The inner \<^verbatim>\<open>while\<close> loop that skips spaces, line feeds and carriage returns from
  \<open>pos\<close> on.
\<close>

definition isSkipped :: "char \<Rightarrow> bool" where
  "isSkipped c = (c = CHR '' '' \<or> c = CHR 0x0A \<or> c = CHR 0x0D)"

definition skipSpaces :: "string \<Rightarrow> nat \<Rightarrow> nat" where
  "skipSpaces s pos = pos + length (takeWhile isSkipped (drop pos s))"

text \<open>
  The outer \<^verbatim>\<open>while (currentPosition < text.length)\<close> loop.  Its state is the position
  and the array \<open>chunks\<close>.  An iteration that does not advance the position cuts an
  empty chunk and leaves the state as it was, so the loop then runs forever: the model
  returns \<open>None\<close> for it.
\<close>

function splitLoop :: "string \<Rightarrow> nat \<Rightarrow> nat \<Rightarrow> string list \<Rightarrow> string list option" where
  "splitLoop s maxLength cur chunks =
     (if cur < length s then
        (let chunkEnd = chunkEndFor s maxLength cur;
             chunk = trim (substring s cur chunkEnd);
             chunks' = (if chunk \<noteq> [] then chunks @ [chunk] else chunks);
             cur' = skipSpaces s chunkEnd
         in if cur' \<le> cur then None else splitLoop s maxLength cur' chunks')
      else Some chunks)"
  by pat_completeness auto
termination
  by (relation "measure (\<lambda>(s, maxLength, cur, chunks). length s - cur)") auto

declare splitLoop.simps [simp del]

definition splitTextIntoChunks :: "string \<Rightarrow> nat \<Rightarrow> string list option" where
  "splitTextIntoChunks s maxLength =
     (if length s \<le> maxLength then Some [s] else splitLoop s maxLength 0 [])"







section \<open>The tree a provider serves\<close>

text \<open>
  What the fetcher is specified against: a block together with the pages in which
  the provider lists its children, each child again such a tree.  \<open>preorder\<close> is the
  walk the specification describes: the block itself, then, when the block reports
  children and is neither a child_page nor a child_database, the walks of its children
  in the provider's order.
\<close>

datatype served = Served (root: block) (pages: "served list list")

fun preorder :: "served \<Rightarrow> block list" where
  "preorder (Served b pgs) =
     b # (if descends b then concat (map preorder (concat pgs)) else [])"

text \<open>
  \<open>servesFrom lst pageId cursor pgs\<close>: asked for the children of \<open>pageId\<close> from
  \<open>cursor\<close> on, the provider answers without error with exactly the pages \<open>pgs\<close>,
  \<^verbatim>\<open>has_more\<close> set on all but the last and each cursor leading to the next page.
\<close>

fun servesFrom :: "lister \<Rightarrow> nat \<Rightarrow> nat option \<Rightarrow> served list list \<Rightarrow> bool" where
  "servesFrom lst pageId cursor [] = False"
| "servesFrom lst pageId cursor [pg] =
     (case lst pageId cursor of
        Inl err \<Rightarrow> False
      | Inr resp \<Rightarrow> results resp = map root pg \<and> \<not> has_more resp)"
| "servesFrom lst pageId cursor (pg # pgs) =
     (case lst pageId cursor of
        Inl err \<Rightarrow> False
      | Inr resp \<Rightarrow> results resp = map root pg \<and> has_more resp \<and>
          servesFrom lst pageId (next_cursor resp) pgs)"

fun servesTree :: "lister \<Rightarrow> served \<Rightarrow> bool" where
  "servesTree lst (Served b pgs) =
     (if descends b
      then servesFrom lst (bid b) None pgs \<and> list_all (list_all (servesTree lst)) pgs
      else True)"

definition wellServed :: "lister \<Rightarrow> nat \<Rightarrow> served list list \<Rightarrow> bool" where
  "wellServed lst pageId pgs =
     (servesFrom lst pageId None pgs \<and> list_all (list_all (servesTree lst)) pgs)"

text \<open>
  A small workspace: page 0 lists a toggle (block 1) on its first page and a
  child_page (block 2) on its second; the toggle has one paragraph child (block 3); the
  child page has content of its own (block 4).
\<close>

definition plainBlock :: "nat \<Rightarrow> string \<Rightarrow> bool \<Rightarrow> block" where
  "plainBlock i ty kids = \<lparr>bid = i, btype = ty, has_children = kids,
     rich_text = Some [], color = Some ''default'', checked = None, language = None,
     cells = None\<rparr>"

definition demoLister :: lister where
  "demoLister pageId cursor =
     (if pageId = 0 \<and> cursor = None then
        Inr \<lparr>results = [plainBlock 1 ''toggle'' True], has_more = True, next_cursor = Some 2\<rparr>
      else if pageId = 0 \<and> cursor = Some 2 then
        Inr \<lparr>results = [plainBlock 2 ''child_page'' True], has_more = False, next_cursor = None\<rparr>
      else if pageId = 1 \<and> cursor = None then
        Inr \<lparr>results = [plainBlock 3 ''paragraph'' False], has_more = False, next_cursor = None\<rparr>
      else if pageId = 2 \<and> cursor = None then
        Inr \<lparr>results = [plainBlock 4 ''paragraph'' False], has_more = False, next_cursor = None\<rparr>
      else Inl ''object_not_found'')"

definition demoPages :: "served list list" where
  "demoPages =
     [[Served (plainBlock 1 ''toggle'' True) [[Served (plainBlock 3 ''paragraph'' False) []]]],
      [Served (plainBlock 2 ''child_page'' True) [[Served (plainBlock 4 ''paragraph'' False) []]]]]"

section \<open>Text substitution in rich text\<close>

text \<open>
  \<^verbatim>\<open>escapeRegExp\<close> puts a backslash before each character of the class
  \<^verbatim>\<open>[.*+?^${}()|[\]\\]\<close>.
\<close>

definition isRegExpSpecial :: "char \<Rightarrow> bool" where
  "isRegExpSpecial c = (c \<in> set ''.*+?^${}()|[]'' \<or> c = CHR 0x5C)"

fun escapeRegExp :: "string \<Rightarrow> string" where
  "escapeRegExp [] = []"
| "escapeRegExp (c # cs) =
     (if isRegExpSpecial c then CHR 0x5C # c # escapeRegExp cs else c # escapeRegExp cs)"

text \<open>
  \<^verbatim>\<open>new RegExp(pattern, 'g')\<close>.  The syntax characters of a pattern are, by the language
  standard, \<^verbatim>\<open>^ $ \ . * + ? ( ) [ ] { } |\<close>.  A pattern in which no syntax character
  stands unescaped, and in which a backslash only ever escapes a syntax character, is a
  sequence of pattern characters and identity escapes and matches exactly one string,
  which \<open>patternLiteral\<close> reads from it.  Any other pattern has an operator, a class, a
  group, an assertion or another escape in it, or is rejected with a syntax error; the
  embedding does not interpret those, and \<open>patternLiteral\<close> is \<open>None\<close> for them.
\<close>

definition isSyntaxCharacter :: "char \<Rightarrow> bool" where
  "isSyntaxCharacter c = (c \<in> set ''^$'' \<or> c = CHR 0x5C \<or> c \<in> set ''.*+?()[]{}|'')"

fun patternLiteral :: "string \<Rightarrow> string option" where
  "patternLiteral [] = Some []"
| "patternLiteral [c] = (if isSyntaxCharacter c then None else Some [c])"
| "patternLiteral (c # d # cs) =
     (if c = CHR 0x5C then
        (if isSyntaxCharacter d then map_option ((#) d) (patternLiteral cs) else None)
      else if isSyntaxCharacter c then None
      else map_option ((#) c) (patternLiteral (d # cs)))"

text \<open>
  The expansion of the replacement text for one match (GetSubstitution of the language
  standard) when the pattern has no capture groups: \<^verbatim>\<open>$$\<close> is a dollar sign, \<^verbatim>\<open>$&\<close> the
  matched text, \<^verbatim>\<open>$`\<close> the text before the match, \<^verbatim>\<open>$'\<close> the text after it; every
  other character, a dollar sign before a digit included, stands for itself.
\<close>

fun getSubstitution :: "string \<Rightarrow> string \<Rightarrow> string \<Rightarrow> string \<Rightarrow> string" where
  "getSubstitution matched pre post [] = []"
| "getSubstitution matched pre post [c] = [c]"
| "getSubstitution matched pre post (c # d # r) =
     (if c = CHR ''$'' then
        if d = CHR ''$'' then CHR ''$'' # getSubstitution matched pre post r
        else if d = CHR ''&'' then matched @ getSubstitution matched pre post r
        else if d = CHR 0x60 then pre @ getSubstitution matched pre post r
        else if d = CHR 0x27 then post @ getSubstitution matched pre post r
        else c # getSubstitution matched pre post (d # r)
      else c # getSubstitution matched pre post (d # r))"

text \<open>
  \<^verbatim>\<open>str.replace(regexp, replaceText)\<close> for a global pattern that matches the literal
  \<open>lit\<close>: the scan goes from left to right over \<open>rest\<close>, with \<open>pre\<close> the part of the
  string already passed; after a match it resumes behind the match.  The empty pattern
  matches before every character and at the end.
\<close>

function replaceScan :: "string \<Rightarrow> string \<Rightarrow> string \<Rightarrow> string \<Rightarrow> string" where
  "replaceScan lit rep pre [] =
     (if lit = [] then getSubstitution [] pre [] rep else [])"
| "replaceScan lit rep pre (c # cs) =
     (if lit = [] then
        getSubstitution [] pre (c # cs) rep @ c # replaceScan lit rep (pre @ [c]) cs
      else if prefix lit (c # cs) then
        getSubstitution lit pre (drop (length lit) (c # cs)) rep @
          replaceScan lit rep (pre @ lit) (drop (length lit) (c # cs))
      else c # replaceScan lit rep (pre @ [c]) cs)"
  by pat_completeness auto
termination
  by (relation "measure (\<lambda>(lit, rep, pre, rest). length rest)") auto

text \<open>
  \<^verbatim>\<open>s.replace(new RegExp(escapeRegExp(searchText), 'g'), replaceText)\<close>; \<open>None\<close> when the
  pattern built is not one the embedding interprets.
\<close>

definition regexReplaceAll :: "string \<Rightarrow> string \<Rightarrow> string \<Rightarrow> string option" where
  "regexReplaceAll searchText replaceText s =
     map_option (\<lambda>lit. replaceScan lit replaceText [] s)
       (patternLiteral (escapeRegExp searchText))"

text \<open>
  \<^verbatim>\<open>searchAndReplaceInRichText\<close>: \<open>replaceItem\<close> is the body of the \<^verbatim>\<open>map\<close> callback, its
  three \<^verbatim>\<open>if\<close> blocks being \<open>replaceContent\<close>, \<open>replaceLinkUrl\<close> and \<open>replaceHref\<close>; each
  takes the original item, the last two also \<^verbatim>\<open>updatedItem\<close> so far, and returns the new
  \<^verbatim>\<open>updatedItem\<close> with the flag saying whether it set \<^verbatim>\<open>modified\<close>.  A JavaScript string
  is truthy when it is not empty.
\<close>

definition replaceContent ::
  "string \<Rightarrow> string \<Rightarrow> rich_text_item \<Rightarrow> (bool \<times> rich_text_item) option" where
  "replaceContent searchText replaceText item =
     (case rt_text item of
        Some t \<Rightarrow>
          if rt_type item = ''text'' \<and> content t \<noteq> [] then
            (case regexReplaceAll searchText replaceText (content t) of
               None \<Rightarrow> None
             | Some newContent \<Rightarrow>
                 Some (if content t \<noteq> newContent
                       then (True, item\<lparr>rt_text := Some (t\<lparr>content := newContent\<rparr>)\<rparr>)
                       else (False, item)))
          else Some (False, item)
      | None \<Rightarrow> Some (False, item))"

definition replaceLinkUrl ::
  "string \<Rightarrow> string \<Rightarrow> rich_text_item \<Rightarrow> rich_text_item \<Rightarrow> (bool \<times> rich_text_item) option" where
  "replaceLinkUrl searchText replaceText item updatedItem =
     (case rt_text item of
        Some t \<Rightarrow>
          (case link t of
             Some l \<Rightarrow>
               if rt_type item = ''text'' \<and> url l \<noteq> [] then
                 (case regexReplaceAll searchText replaceText (url l) of
                    None \<Rightarrow> None
                  | Some newUrl \<Rightarrow>
                      Some (if url l \<noteq> newUrl
                            then (True, updatedItem\<lparr>rt_text :=
                                   map_option (\<lambda>t1. t1\<lparr>link := Some (l\<lparr>url := newUrl\<rparr>)\<rparr>)
                                     (rt_text updatedItem)\<rparr>)
                            else (False, updatedItem)))
               else Some (False, updatedItem)
           | None \<Rightarrow> Some (False, updatedItem))
      | None \<Rightarrow> Some (False, updatedItem))"

definition replaceHref ::
  "string \<Rightarrow> string \<Rightarrow> rich_text_item \<Rightarrow> rich_text_item \<Rightarrow> (bool \<times> rich_text_item) option" where
  "replaceHref searchText replaceText item updatedItem =
     (case href item of
        Some h \<Rightarrow>
          if h \<noteq> [] then
            (case regexReplaceAll searchText replaceText h of
               None \<Rightarrow> None
             | Some newHref \<Rightarrow>
                 Some (if h \<noteq> newHref then (True, updatedItem\<lparr>href := Some newHref\<rparr>)
                       else (False, updatedItem)))
          else Some (False, updatedItem)
      | None \<Rightarrow> Some (False, updatedItem))"

definition replaceItem ::
  "string \<Rightarrow> string \<Rightarrow> rich_text_item \<Rightarrow> (bool \<times> rich_text_item) option" where
  "replaceItem searchText replaceText item =
     (case replaceContent searchText replaceText item of
        None \<Rightarrow> None
      | Some (m1, item1) \<Rightarrow>
          (case replaceLinkUrl searchText replaceText item item1 of
             None \<Rightarrow> None
           | Some (m2, item2) \<Rightarrow>
               (case replaceHref searchText replaceText item item2 of
                  None \<Rightarrow> None
                | Some (m3, item3) \<Rightarrow> Some (m1 \<or> m2 \<or> m3, item3))))"

definition searchAndReplaceInRichText ::
  "rich_text_item list \<Rightarrow> string \<Rightarrow> string \<Rightarrow> (bool \<times> rich_text_item list) option" where
  "searchAndReplaceInRichText richTextArray searchText replaceText =
     map_option (\<lambda>items. (list_ex fst items, map snd items))
       (those (map (replaceItem searchText replaceText) richTextArray))"

text \<open>\<^verbatim>\<open>extractTextFromBlock\<close> of the text processor: the spans of a block, flattened.\<close>

definition richTextTypes :: "string set" where
  "richTextTypes = {''paragraph'', ''heading_1'', ''heading_2'', ''heading_3'',
     ''bulleted_list_item'', ''numbered_list_item'', ''toggle'', ''quote'', ''callout''}"

definition extractSpansFromBlock :: "block \<Rightarrow> rich_text_item list" where
  "extractSpansFromBlock b =
     (if btype b \<in> richTextTypes then (case rich_text b of Some r \<Rightarrow> r | None \<Rightarrow> [])
      else if btype b = ''to_do'' then (case rich_text b of Some r \<Rightarrow> r | None \<Rightarrow> [])
      else if btype b = ''code'' then (case rich_text b of Some r \<Rightarrow> r | None \<Rightarrow> [])
      else if btype b = ''table_row'' then (case cells b of Some cs \<Rightarrow> concat cs | None \<Rightarrow> [])
      else [])"

text \<open>
  The argument of \<^verbatim>\<open>notion.blocks.update\<close>: the block, the payload key and the payload.
  \<open>updateDataFor\<close> is the second \<^verbatim>\<open>switch\<close> of \<^verbatim>\<open>processBlock\<close>; \<open>None\<close> is the empty
  \<^verbatim>\<open>updateData\<close>.
\<close>

record update_request =
  req_block_id :: nat
  req_key :: string
  req_rich_text :: "rich_text_item list"
  req_checked :: "bool option"
  req_language :: "string option"

definition updateDataFor :: "block \<Rightarrow> rich_text_item list \<Rightarrow> update_request option" where
  "updateDataFor b updatedRichText =
     (if btype b \<in> richTextTypes then
        Some \<lparr>req_block_id = bid b, req_key = btype b, req_rich_text = updatedRichText,
              req_checked = None, req_language = None\<rparr>
      else if btype b = ''to_do'' then
        Some \<lparr>req_block_id = bid b, req_key = ''to_do'', req_rich_text = updatedRichText,
              req_checked = checked b, req_language = None\<rparr>
      else if btype b = ''code'' then
        Some \<lparr>req_block_id = bid b, req_key = ''code'', req_rich_text = updatedRichText,
              req_checked = None, req_language = language b\<rparr>
      else None)"

text \<open>
  \<^verbatim>\<open>processBlock\<close>.  \<open>blocks_update\<close> is the provider's update call: \<open>Some msg\<close> when it
  throws, which \<^verbatim>\<open>processBlock\<close> lets through to its caller (\<open>Inl\<close>).  The result carries
  \<^verbatim>\<open>modified\<close> and \<^verbatim>\<open>blockId\<close>, and with it the list of update requests sent.  The whole
  is \<open>None\<close> when a pattern is not one the embedding interprets.
\<close>

definition processBlock ::
  "(update_request \<Rightarrow> string option) \<Rightarrow> block \<Rightarrow> string \<Rightarrow> string \<Rightarrow>
     ((string + bool \<times> nat option) \<times> update_request list) option" where
  "processBlock blocks_update b searchText replaceText =
     (let textArray = extractSpansFromBlock b in
      if textArray = [] then Some (Inr (False, None), [])
      else
        (case searchAndReplaceInRichText textArray searchText replaceText of
           None \<Rightarrow> None
         | Some (modified, updatedRichText) \<Rightarrow>
             if \<not> modified then Some (Inr (False, None), [])
             else
               (case updateDataFor b updatedRichText of
                  None \<Rightarrow> Some (Inr (False, None), [])
                | Some req \<Rightarrow>
                    (case blocks_update req of
                       Some err \<Rightarrow> Some (Inl err, [req])
                     | None \<Rightarrow> Some (Inr (True, Some (bid b)), [req])))))"

text \<open>
  The provider's side of an accepted update (section 6 of the specification, "update
  block B's typed payload"): the span list of the block becomes the one sent, a
  checked state or language sent along is stored, everything else stays.
\<close>

definition applyUpdate :: "block \<Rightarrow> update_request \<Rightarrow> block" where
  "applyUpdate b req =
     (if req_block_id req = bid b then
        b\<lparr>rich_text := Some (req_rich_text req),
          checked := (case req_checked req of None \<Rightarrow> checked b | Some c \<Rightarrow> Some c),
          language := (case req_language req of None \<Rightarrow> language b | Some l \<Rightarrow> Some l)\<rparr>
      else b)"

text \<open>
  The substitution as the specification words it.  \<open>replaceEvery\<close> goes through the
  text from the left and puts the replacement text, as it is, in the place of every
  occurrence of the search text it meets, resuming behind the occurrence.  In a text
  span the content and the link URL are replaced, in every span the href.
\<close>

function replaceEvery :: "string \<Rightarrow> string \<Rightarrow> string \<Rightarrow> string" where
  "replaceEvery searchText replaceText [] = []"
| "replaceEvery searchText replaceText (c # cs) =
     (if searchText \<noteq> [] \<and> prefix searchText (c # cs) then
        replaceText @ replaceEvery searchText replaceText (drop (length searchText) (c # cs))
      else c # replaceEvery searchText replaceText cs)"
  by pat_completeness auto
termination
  by (relation "measure (\<lambda>(searchText, replaceText, rest). length rest)") auto

definition mapSpanTexts :: "(string \<Rightarrow> string) \<Rightarrow> rich_text_item \<Rightarrow> rich_text_item" where
  "mapSpanTexts f item =
     item\<lparr>rt_text :=
            (if rt_type item = ''text'' then
               map_option
                 (\<lambda>t. t\<lparr>content := f (content t),
                         link := map_option (\<lambda>l. l\<lparr>url := f (url l)\<rparr>) (link t)\<rparr>)
                 (rt_text item)
             else rt_text item),
          href := map_option f (href item)\<rparr>"

definition replaceInSpan :: "string \<Rightarrow> string \<Rightarrow> rich_text_item \<Rightarrow> rich_text_item" where
  "replaceInSpan searchText replaceText = mapSpanTexts (replaceEvery searchText replaceText)"

section \<open>Writing the audio payload into the Content64 fields\<close>
















section \<open>The workspace as the provider holds it\<close>

text \<open>
  The converters change the workspace while they walk it, so the provider's state is
  explicit: the block trees of the top-level pages and the next unused identifier.  A
  block's children are the children of its node; the \<^verbatim>\<open>has_children\<close> flag of a listed
  block is computed from them.  A page is a block of type child_page whose children are
  the page's content, so a sub-page is a node inside its parent page's tree.
\<close>

datatype node = Node (nblock: block) (nkids: "node list")

record workspace =
  forest :: "node list"
  next_id :: nat

fun ids :: "node list \<Rightarrow> nat list" where
  "ids [] = []"
| "ids (Node b ks # rest) = bid b # ids ks @ ids rest"

text \<open>The children of the block with identifier \<open>i\<close>, \<open>None\<close> when no block has it.\<close>

fun find_kids :: "nat \<Rightarrow> node list \<Rightarrow> node list option" where
  "find_kids i [] = None"
| "find_kids i (Node b ks # rest) =
     (if bid b = i then Some ks
      else (case find_kids i ks of Some r \<Rightarrow> Some r | None \<Rightarrow> find_kids i rest))"

text \<open>\<open>update_kids i f\<close> rewrites the children of block \<open>i\<close> by \<open>f\<close>; \<open>delete_node i\<close> removes
  block \<open>i\<close> together with everything below it.\<close>

fun update_kids :: "nat \<Rightarrow> (node list \<Rightarrow> node list) \<Rightarrow> node list \<Rightarrow> node list" where
  "update_kids i f [] = []"
| "update_kids i f (Node b ks # rest) =
     (if bid b = i then Node b (f ks) # rest
      else if i \<in> set (ids ks) then Node b (update_kids i f ks) # rest
      else Node b ks # update_kids i f rest)"

fun delete_node :: "nat \<Rightarrow> node list \<Rightarrow> node list" where
  "delete_node i [] = []"
| "delete_node i (Node b ks # rest) =
     (if bid b = i then rest
      else if i \<in> set (ids ks) then Node b (delete_node i ks) # rest
      else Node b ks # delete_node i rest)"

fun insertAfter :: "nat \<Rightarrow> node \<Rightarrow> node list \<Rightarrow> node list" where
  "insertAfter a new [] = []"
| "insertAfter a new (k # ks) =
     (if bid (nblock k) = a then k # new # ks else k # insertAfter a new ks)"

text \<open>
  The provider's calls, as section 6 of the specification lists them.  Listing serves
  at most 100 children from the cursor on; the cursor is the identifier of the first
  child not yet served.  Appending creates the block under a fresh identifier directly
  after the block named by \<^verbatim>\<open>after\<close>.  A call on an identifier that does not resolve
  throws.
\<close>

definition listed :: "node \<Rightarrow> block" where
  "listed nd = (nblock nd)\<lparr>has_children := (nkids nd \<noteq> [])\<rparr>"

definition blocks_children_list :: "workspace \<Rightarrow> nat \<Rightarrow> nat option \<Rightarrow> string + response" where
  "blocks_children_list w block_id start_cursor =
     (case find_kids block_id (forest w) of
        None \<Rightarrow> Inl ''Could not find block''
      | Some ks \<Rightarrow>
          (let bs = map listed ks;
               start = (case start_cursor of
                          None \<Rightarrow> bs
                        | Some c \<Rightarrow> dropWhile (\<lambda>b. bid b \<noteq> c) bs)
           in Inr \<lparr>results = take 100 start, has_more = (length start > 100),
                   next_cursor = (if length start > 100 then Some (bid (start ! 100))
                                  else None)\<rparr>))"

definition blocks_children_append ::
  "workspace \<Rightarrow> nat \<Rightarrow> block \<Rightarrow> nat \<Rightarrow> string + workspace" where
  "blocks_children_append w block_id child after =
     (case find_kids block_id (forest w) of
        None \<Rightarrow> Inl ''Could not find block''
      | Some ks \<Rightarrow>
          if after \<in> set (map (\<lambda>k. bid (nblock k)) ks) then
            Inr (w\<lparr>forest := update_kids block_id
                      (insertAfter after
                         (Node (child\<lparr>bid := next_id w, has_children := False\<rparr>) []))
                      (forest w),
                   next_id := Suc (next_id w)\<rparr>)
          else Inl ''validation_error: after is not a child of the block'')"

definition blocks_delete :: "workspace \<Rightarrow> nat \<Rightarrow> string + workspace" where
  "blocks_delete w block_id =
     (if block_id \<in> set (ids (forest w))
      then Inr (w\<lparr>forest := delete_node block_id (forest w)\<rparr>)
      else Inl ''Could not find block'')"

text \<open>\<^verbatim>\<open>getAllPages\<close>: the identifiers of the pages of the workspace, in tree order.\<close>

fun pageIds :: "node list \<Rightarrow> nat list" where
  "pageIds [] = []"
| "pageIds (Node b ks # rest) =
     (if btype b = ''child_page'' then [bid b] else []) @ pageIds ks @ pageIds rest"

definition getAllPages :: "workspace \<Rightarrow> nat list" where
  "getAllPages w = pageIds (forest w)"

section \<open>The block converters\<close>

text \<open>
  \<^verbatim>\<open>convertCheckboxesToBullets\<close> and \<^verbatim>\<open>convertQuotesToText\<close> are the same program up to the
  type they look for, the type they create and the spans they give the new block.
\<close>

record converter =
  fromType :: string
  toType :: string
  newSpans :: "rich_text_item list \<Rightarrow> rich_text_item list"

definition checkboxConverter :: converter where
  "checkboxConverter =
     \<lparr>fromType = ''to_do'', toType = ''bulleted_list_item'', newSpans = (\<lambda>r. r)\<rparr>"

definition quoteMark :: rich_text_item where
  "quoteMark = \<lparr>rt_type = ''text'', rt_text = Some \<lparr>content = [CHR 0x22], link = None\<rparr>,
     plain_text = Some [CHR 0x22], href = None\<rparr>"

definition quoteConverter :: converter where
  "quoteConverter =
     \<lparr>fromType = ''quote'', toType = ''paragraph'',
      newSpans = (\<lambda>r. quoteMark # r @ [quoteMark])\<rparr>"

text \<open>
  The child passed to \<^verbatim>\<open>append\<close>: the new type with the spans and
  \<^verbatim>\<open>color || 'default'\<close>, nothing else.  Without a span list the call cannot succeed.
\<close>

definition newChild :: "converter \<Rightarrow> block \<Rightarrow> string + block" where
  "newChild conv b =
     (case rich_text b of
        None \<Rightarrow> Inl ''validation_error: rich_text is undefined''
      | Some r \<Rightarrow>
          Inr \<lparr>bid = 0, btype = toType conv, has_children = False,
               rich_text = Some (newSpans conv r),
               color = Some (case color b of
                               None \<Rightarrow> ''default''
                             | Some c \<Rightarrow> if c = [] then ''default'' else c),
               checked = None, language = None, cells = None\<rparr>)"

datatype call = ListCall nat "nat option" | AppendCall nat nat block | DeleteCall nat

text \<open>
  The body of the inner \<^verbatim>\<open>try\<close>: append the new block after the old one, then delete
  the old one.  The result is the error caught, if any, the workspace and the calls
  made.
\<close>

definition convertBlock ::
  "converter \<Rightarrow> workspace \<Rightarrow> nat \<Rightarrow> block \<Rightarrow> string option \<times> workspace \<times> call list" where
  "convertBlock conv w parentId b =
     (case newChild conv b of
        Inl err \<Rightarrow> (Some err, w, [])
      | Inr child \<Rightarrow>
          (case blocks_children_append w parentId child (bid b) of
             Inl err \<Rightarrow> (Some err, w, [AppendCall parentId (bid b) child])
           | Inr w1 \<Rightarrow>
               (case blocks_delete w1 (bid b) of
                  Inl err \<Rightarrow>
                    (Some err, w1, [AppendCall parentId (bid b) child, DeleteCall (bid b)])
                | Inr w2 \<Rightarrow>
                    (None, w2, [AppendCall parentId (bid b) child, DeleteCall (bid b)]))))"

text \<open>
  \<^verbatim>\<open>processChildBlocks\<close>: \<open>childLoop\<close> is its \<^verbatim>\<open>while\<close> loop, \<open>childResults\<close> its \<^verbatim>\<open>for\<close>
  loop.  The state is the workspace with the calls made so far.  A listing error ends
  the function, whichever of its two \<^verbatim>\<open>catch\<close> blocks handles it.  A failed conversion is
  logged and the loop goes on.  Each listing call uses one unit of fuel.
\<close>

fun childLoop ::
    "nat \<Rightarrow> converter \<Rightarrow> bool \<Rightarrow> nat \<Rightarrow> nat option \<Rightarrow> workspace \<times> call list \<Rightarrow>
       (workspace \<times> call list) option"
  and childResults ::
    "nat \<Rightarrow> converter \<Rightarrow> bool \<Rightarrow> nat \<Rightarrow> block list \<Rightarrow> workspace \<times> call list \<Rightarrow>
       (workspace \<times> call list) option"
where
  "childLoop 0 conv dryRun blockId cursor st = None"
| "childLoop (Suc n) conv dryRun blockId cursor st =
     (case blocks_children_list (fst st) blockId cursor of
        Inl err \<Rightarrow> Some (fst st, snd st @ [ListCall blockId cursor])
      | Inr resp \<Rightarrow>
          (case childResults n conv dryRun blockId (results resp)
                  (fst st, snd st @ [ListCall blockId cursor]) of
             None \<Rightarrow> None
           | Some st' \<Rightarrow>
               if has_more resp then childLoop n conv dryRun blockId (next_cursor resp) st'
               else Some st'))"
| "childResults n conv dryRun blockId [] st = Some st"
| "childResults n conv dryRun blockId (b # bs) st =
     (let st1 = (if btype b = fromType conv \<and> \<not> dryRun
                 then (case convertBlock conv (fst st) blockId b of
                         (err, w, cs) \<Rightarrow> (w, snd st @ cs))
                 else st)
      in if has_children b then
           (case childLoop n conv dryRun (bid b) None st1 of
              None \<Rightarrow> None
            | Some st2 \<Rightarrow> childResults n conv dryRun blockId bs st2)
         else childResults n conv dryRun blockId bs st1)"

text \<open>
  The counters and the error list of the top-level function, with the workspace and the
  calls made.
\<close>

record progress =
  pws :: workspace
  plog :: "call list"
  totalCheckboxes :: nat
  convertedCheckboxes :: nat
  pagesWithCheckboxes :: nat
  errors :: "string list"

text \<open>
  The loops over one page in \<^verbatim>\<open>convertCheckboxesToBullets\<close>, threading the progress and
  \<^verbatim>\<open>pageCheckboxCount\<close>.  A listing error is thrown to the \<^verbatim>\<open>catch\<close> of the page, which
  records it; the page count is then \<open>None\<close>.
\<close>

fun pageLoop ::
    "nat \<Rightarrow> converter \<Rightarrow> bool \<Rightarrow> nat \<Rightarrow> nat option \<Rightarrow> progress \<times> nat \<Rightarrow>
       (progress \<times> nat option) option"
  and pageResults ::
    "nat \<Rightarrow> converter \<Rightarrow> bool \<Rightarrow> nat \<Rightarrow> block list \<Rightarrow> progress \<times> nat \<Rightarrow>
       (progress \<times> nat) option"
where
  "pageLoop 0 conv dryRun pageId cursor st = None"
| "pageLoop (Suc n) conv dryRun pageId cursor st =
     (case blocks_children_list (pws (fst st)) pageId cursor of
        Inl err \<Rightarrow>
          Some ((fst st)\<lparr>plog := plog (fst st) @ [ListCall pageId cursor],
                         errors := errors (fst st) @ [err]\<rparr>, None)
      | Inr resp \<Rightarrow>
          (case pageResults n conv dryRun pageId (results resp)
                  ((fst st)\<lparr>plog := plog (fst st) @ [ListCall pageId cursor]\<rparr>, snd st) of
             None \<Rightarrow> None
           | Some st' \<Rightarrow>
               if has_more resp then pageLoop n conv dryRun pageId (next_cursor resp) st'
               else Some (fst st', Some (snd st'))))"
| "pageResults n conv dryRun pageId [] st = Some st"
| "pageResults n conv dryRun pageId (b # bs) st =
     (if btype b = fromType conv then
        (let p = (fst st)\<lparr>totalCheckboxes := totalCheckboxes (fst st) + 1\<rparr>;
             cnt = snd st + 1
         in if \<not> dryRun then
              (case convertBlock conv (pws p) pageId b of
                 (None, w, cs) \<Rightarrow>
                   pageResults n conv dryRun pageId bs
                     (p\<lparr>pws := w, plog := plog p @ cs,
                        convertedCheckboxes := convertedCheckboxes p + 1\<rparr>, cnt)
               | (Some err, w, cs) \<Rightarrow>
                   pageResults n conv dryRun pageId bs
                     (p\<lparr>pws := w, plog := plog p @ cs, errors := errors p @ [err]\<rparr>, cnt))
            else
              pageResults n conv dryRun pageId bs
                (p\<lparr>convertedCheckboxes := convertedCheckboxes p + 1\<rparr>, cnt))
      else if has_children b then
        (case childLoop n conv dryRun (bid b) None (pws (fst st), plog (fst st)) of
           None \<Rightarrow> None
         | Some (w, l) \<Rightarrow>
             pageResults n conv dryRun pageId bs ((fst st)\<lparr>pws := w, plog := l\<rparr>, snd st))
      else pageResults n conv dryRun pageId bs st)"

text \<open>The loop over the pages and the function itself.\<close>

fun pagesLoop :: "nat \<Rightarrow> converter \<Rightarrow> bool \<Rightarrow> nat list \<Rightarrow> progress \<Rightarrow> progress option" where
  "pagesLoop n conv dryRun [] p = Some p"
| "pagesLoop n conv dryRun (pageId # rest) p =
     (case pageLoop n conv dryRun pageId None (p, 0) of
        None \<Rightarrow> None
      | Some (p', None) \<Rightarrow> pagesLoop n conv dryRun rest p'
      | Some (p', Some cnt) \<Rightarrow>
          pagesLoop n conv dryRun rest
            (if cnt > 0 then p'\<lparr>pagesWithCheckboxes := pagesWithCheckboxes p' + 1\<rparr> else p'))"

definition convertBlocks :: "nat \<Rightarrow> converter \<Rightarrow> bool \<Rightarrow> workspace \<Rightarrow> progress option" where
  "convertBlocks n conv dryRun w =
     pagesLoop n conv dryRun (getAllPages w)
       \<lparr>pws = w, plog = [], totalCheckboxes = 0, convertedCheckboxes = 0,
        pagesWithCheckboxes = 0, errors = []\<rparr>"

definition convertCheckboxesToBullets :: "nat \<Rightarrow> bool \<Rightarrow> workspace \<Rightarrow> progress option" where
  "convertCheckboxesToBullets n dryRun w = convertBlocks n checkboxConverter dryRun w"

definition convertQuotesToText :: "nat \<Rightarrow> bool \<Rightarrow> workspace \<Rightarrow> progress option" where
  "convertQuotesToText n dryRun w = convertBlocks n quoteConverter dryRun w"

text \<open>
  A workspace is well formed when no two blocks share an identifier and every
  identifier in use lies below the next one to be given out.
\<close>

definition wellFormed :: "workspace \<Rightarrow> bool" where
  "wellFormed w = (distinct (ids (forest w)) \<and> list_all (\<lambda>i. i < next_id w) (ids (forest w)))"

text \<open>The block the provider creates for a child appended in workspace \<open>w\<close>.\<close>

definition created :: "workspace \<Rightarrow> block \<Rightarrow> node" where
  "created w child = Node (child\<lparr>bid := next_id w, has_children := False\<rparr>) []"

text \<open>Example workspaces.\<close>

definition pageNode :: "nat \<Rightarrow> node list \<Rightarrow> node" where
  "pageNode i ks = Node (plainBlock i ''child_page'' True) ks"

definition todoNode :: "nat \<Rightarrow> string \<Rightarrow> node list \<Rightarrow> node" where
  "todoNode i s ks = Node ((textBlock i ''to_do'' [s])\<lparr>checked := Some True\<rparr>) ks"

definition paraNode :: "nat \<Rightarrow> string \<Rightarrow> node list \<Rightarrow> node" where
  "paraNode i s ks = Node (textBlock i ''paragraph'' [s]) ks"

text \<open>A page with a checked to-do "Buy milk", which has a child, between two paragraphs.\<close>

definition milkWs :: workspace where
  "milkWs = \<lparr>forest = [pageNode 1 [paraNode 2 ''Shopping'' [],
                                      todoNode 4 ''Buy milk'' [paraNode 5 ''two litres'' []],
                                      paraNode 6 ''Done'' []]],
             next_id = 10\<rparr>"

text \<open>A page whose paragraph holds a to-do that has a child of its own.\<close>

definition nestedWs :: workspace where
  "nestedWs = \<lparr>forest = [pageNode 1 [paraNode 2 ''Plan''
                                         [todoNode 4 ''Buy milk'' [paraNode 5 ''two litres'' []]]]],
               next_id = 10\<rparr>"

text \<open>A page with a sub-page that holds one to-do.\<close>

definition subPageWs :: workspace where
  "subPageWs = \<lparr>forest = [pageNode 1 [paraNode 2 ''Home'' [],
                                         pageNode 3 [todoNode 4 ''Buy milk'' []]]],
                next_id = 10\<rparr>"

text \<open>A page whose paragraph holds a to-do with two more levels of blocks below it.\<close>

definition deepWs :: workspace where
  "deepWs = \<lparr>forest = [pageNode 1 [paraNode 2 ''Plan''
                 [todoNode 4 ''Buy milk''
                    [paraNode 5 ''two litres'' [paraNode 7 ''semi-skimmed'' []]]]]],
             next_id = 10\<rparr>"

definition isListCall :: "call \<Rightarrow> bool" where
  "isListCall c = (case c of ListCall i cur \<Rightarrow> True | _ \<Rightarrow> False)"

section \<open>What a live run makes of a block tree\<close>

text \<open>
  The result the converters are specified to reach, written on the tree: every block of
  the source type met on the walk is replaced, with everything below it, by a new block
  of the destination type without children; the walk goes on below every other block.
  New blocks take the identifiers from \<open>n\<close> on in walk order; the second component is
  the next unused identifier.
\<close>

definition replacement :: "converter \<Rightarrow> block \<Rightarrow> nat \<Rightarrow> block" where
  "replacement conv b n =
     (case newChild conv b of
        Inr child \<Rightarrow> child\<lparr>bid := n, has_children := False\<rparr>
      | Inl err \<Rightarrow> b)"

fun convKids :: "converter \<Rightarrow> nat \<Rightarrow> node list \<Rightarrow> node list \<times> nat" where
  "convKids conv n [] = ([], n)"
| "convKids conv n (Node b ks # rest) =
     (if btype b = fromType conv then
        (Node (replacement conv b n) [] # fst (convKids conv (Suc n) rest),
         snd (convKids conv (Suc n) rest))
      else
        (Node b (fst (convKids conv n ks)) #
           fst (convKids conv (snd (convKids conv n ks)) rest),
         snd (convKids conv (snd (convKids conv n ks)) rest)))"

text \<open>The workspace after the children \<open>ks\<close> of block \<open>p\<close>, which stand between \<open>pre\<close> and
  \<open>post\<close>, have been converted.\<close>

definition converted ::
  "converter \<Rightarrow> nat \<Rightarrow> node list \<Rightarrow> node list \<Rightarrow> node list \<Rightarrow> workspace \<Rightarrow> workspace" where
  "converted conv p pre ks post w =
     \<lparr>forest = update_kids p (\<lambda>_. pre @ fst (convKids conv (next_id w) ks) @ post) (forest w),
      next_id = snd (convKids conv (next_id w) ks)\<rparr>"

text \<open>The number of conversions on the walk, and the matching blocks among the children
  themselves.\<close>

fun countConv :: "converter \<Rightarrow> node list \<Rightarrow> nat" where
  "countConv conv [] = 0"
| "countConv conv (Node b ks # rest) =
     (if btype b = fromType conv then Suc (countConv conv rest)
      else countConv conv ks + countConv conv rest)"

definition topCount :: "converter \<Rightarrow> node list \<Rightarrow> nat" where
  "topCount conv ks = length (filter (\<lambda>k. btype (nblock k) = fromType conv) ks)"

text \<open>\<open>sourceFree\<close>: no block of the source type anywhere in the trees.  \<open>convertible\<close>:
  every block of the source type has a span list.\<close>

fun sourceFree :: "converter \<Rightarrow> node list \<Rightarrow> bool" where
  "sourceFree conv [] = True"
| "sourceFree conv (Node b ks # rest) =
     (btype b \<noteq> fromType conv \<and> sourceFree conv ks \<and> sourceFree conv rest)"

fun convertible :: "converter \<Rightarrow> node list \<Rightarrow> bool" where
  "convertible conv [] = True"
| "convertible conv (Node b ks # rest) =
     ((btype b \<noteq> fromType conv \<or> rich_text b \<noteq> None) \<and> convertible conv ks \<and>
      convertible conv rest)"

fun height :: "node list \<Rightarrow> nat" where
  "height [] = 0"
| "height (Node b ks # rest) = max (Suc (height ks)) (height rest)"

definition kidIds :: "node list \<Rightarrow> nat list" where
  "kidIds ks = map (\<lambda>k. bid (nblock k)) ks"

text \<open>The cursor with which the listing of the children \<open>pre @ ks\<close> goes on at \<open>ks\<close>.\<close>

definition cursorAt :: "node list \<Rightarrow> node list \<Rightarrow> nat option \<Rightarrow> bool" where
  "cursorAt pre ks cursor =
     (case cursor of
        None \<Rightarrow> pre = []
      | Some c \<Rightarrow> (case ks of [] \<Rightarrow> False | k # ks' \<Rightarrow> c = bid (nblock k)))"

definition writes :: "call list \<Rightarrow> nat" where
  "writes cs = length (filter (\<lambda>c. \<not> isListCall c) cs)"

text \<open>
  The progress after a stretch of a run that left the workspace \<open>w\<close>, made the calls
  \<open>cs\<close> and counted \<open>k\<close> blocks as found and converted.
\<close>

definition advance :: "progress \<Rightarrow> workspace \<Rightarrow> call list \<Rightarrow> nat \<Rightarrow> progress" where
  "advance p w cs k =
     p\<lparr>pws := w, plog := plog p @ cs, totalCheckboxes := totalCheckboxes p + k,
       convertedCheckboxes := convertedCheckboxes p + k\<rparr>"

text \<open>
  The workspace after a live run over the pages \<open>ps\<close>, the conversions such a run
  reports, and the matches a dry run reports.  A page whose identifier no longer
  resolves is skipped.
\<close>

fun convPages :: "converter \<Rightarrow> nat list \<Rightarrow> workspace \<Rightarrow> workspace" where
  "convPages conv [] w = w"
| "convPages conv (q # qs) w =
     convPages conv qs
       (case find_kids q (forest w) of
          None \<Rightarrow> w
        | Some ks \<Rightarrow> converted conv q [] ks [] w)"

fun liveCount :: "converter \<Rightarrow> nat list \<Rightarrow> workspace \<Rightarrow> nat" where
  "liveCount conv [] w = 0"
| "liveCount conv (q # qs) w =
     (case find_kids q (forest w) of
        None \<Rightarrow> liveCount conv qs w
      | Some ks \<Rightarrow> topCount conv ks + liveCount conv qs (converted conv q [] ks [] w))"

fun dryCount :: "converter \<Rightarrow> nat list \<Rightarrow> workspace \<Rightarrow> nat" where
  "dryCount conv [] w = 0"
| "dryCount conv (q # qs) w =
     (case find_kids q (forest w) of
        None \<Rightarrow> dryCount conv qs w
      | Some ks \<Rightarrow> topCount conv ks + dryCount conv qs w)"

section \<open>Properties of the text extraction\<close>

lemma intro_blocks:
  "getAllBlocksFromPage (Suc n) introPage 0 =
     Some [textBlock 1 ''heading_1'' [''Intro''], textBlock 2 ''paragraph'' [''Hello world.'']]"
  by (simp add: getAllBlocksFromPage_def introPage_def descends_def textBlock_def)

lemma intro_parts:
  "contentParts [textBlock i ''heading_1'' [''Intro''], textBlock j ''paragraph'' [''Hello world.'']]
     = [''Intro'', ''Hello world.'']"
  by (simp add: textBlock_def textSpan_def extractTextFromBlock_def extractTextFromRichText_def
      trim_def isWhiteSpace_def)

lemma intro_normal: "normalizeContent ''Intro Hello world.'' = ''Intro Hello world.''"
  by (simp add: normalizeContent_def trim_def isWhiteSpace_def isSentenceEnd_def isUpperAZ_def
      isPunct_def)

lemma intro_content: "extractPageContent (Suc n) introPage 0 = Some ''Intro Hello world.''"
  by (simp only: extractPageContent_def intro_blocks intro_parts option.case join.simps
      append.simps intro_normal)

lemma collapse_head:
  "collapseWhitespace s = y # ys \<Longrightarrow> isWhiteSpace y \<Longrightarrow> s \<noteq> [] \<and> isWhiteSpace (hd s)"
  by (cases s) (auto split: if_splits)

lemma collapse_no_adjacent: "\<not> adjacent isWhiteSpace isWhiteSpace (collapseWhitespace s)"
proof (induction s rule: collapseWhitespace.induct)
  case 1
  show ?case by simp
next
  case (2 c cs)
  show ?case
  proof (cases "isWhiteSpace c")
    case True
    show ?thesis
    proof (cases "collapseWhitespace (dropWhile isWhiteSpace cs)")
      case Nil
      with True show ?thesis by simp
    next
      case (Cons y ys)
      have "\<not> isWhiteSpace y"
      proof
        assume "isWhiteSpace y"
        with Cons have "dropWhile isWhiteSpace cs \<noteq> [] \<and> isWhiteSpace (hd (dropWhile isWhiteSpace cs))"
          by (rule collapse_head)
        then show False by (metis hd_dropWhile)
      qed
      with 2 True Cons show ?thesis by simp
    qed
  next
    case False
    with 2 show ?thesis by (cases "collapseWhitespace cs") simp_all
  qed
qed

lemma collapse_only_spaces:
  "list_all (\<lambda>c. \<not> isWhiteSpace c \<or> c = CHR '' '') (collapseWhitespace s)"
  by (induction s rule: collapseWhitespace.induct) simp_all

lemma upper_not_ws: "isUpperAZ u \<Longrightarrow> \<not> isWhiteSpace u"
  by (auto simp: isUpperAZ_def isWhiteSpace_def)

lemma space_inserted:
  assumes "isSentenceEnd p" "isUpperAZ u" "list_all isWhiteSpace w"
  shows "spaceAfterSentence (p # w @ u # r) = p # CHR '' '' # u # spaceAfterSentence r"
proof -
  have "dropWhile isWhiteSpace (w @ u # r) = u # r"
    using assms(2,3) upper_not_ws by (induction w) auto
  with assms show ?thesis by simp
qed

lemma strip_head:
  "stripSpaceBeforePunct s = y # ys \<Longrightarrow> isPunct y \<Longrightarrow>
     s \<noteq> [] \<and> (isPunct (hd s) \<or> (isWhiteSpace (hd s) \<and> (\<exists>r. dropWhile isWhiteSpace s = y # r)))"
  by (cases s) (auto split: if_splits list.splits)

lemma punct_not_ws: "isPunct p \<Longrightarrow> \<not> isWhiteSpace p"
  by (auto simp: isPunct_def isWhiteSpace_def)

lemma strip_head_not_punct:
  assumes "\<And>p rest. dropWhile isWhiteSpace cs = p # rest \<Longrightarrow> \<not> isPunct p"
    and "stripSpaceBeforePunct cs = y # ys"
  shows "\<not> isPunct y"
proof
  assume y: "isPunct y"
  from strip_head [OF assms(2) y] have ne: "cs \<noteq> []"
    and alt: "isPunct (hd cs) \<or> (isWhiteSpace (hd cs) \<and> (\<exists>r. dropWhile isWhiteSpace cs = y # r))"
    by simp_all
  from alt show False
  proof
    assume h: "isPunct (hd cs)"
    then have "dropWhile isWhiteSpace cs = hd cs # tl cs"
      using ne punct_not_ws by (cases cs) auto
    with assms(1) h show False by blast
  next
    assume "isWhiteSpace (hd cs) \<and> (\<exists>r. dropWhile isWhiteSpace cs = y # r)"
    with assms(1) y show False by blast
  qed
qed

lemma adjacent_Cons:
  "adjacent P Q (a # s) = (s \<noteq> [] \<and> (P a \<and> Q (hd s) \<or> adjacent P Q s))"
  by (cases s) simp_all

lemma adjacent_keep:
  assumes "\<And>y ys. t = y # ys \<Longrightarrow> \<not> Q y" and "\<not> adjacent P Q t"
  shows "\<not> adjacent P Q (c # t)"
  using assms by (cases t) simp_all

lemma strip_no_adjacent: "\<not> adjacent isWhiteSpace isPunct (stripSpaceBeforePunct s)"
proof (induction s rule: stripSpaceBeforePunct.induct)
  case 1
  show ?case by simp
next
  case (2 c cs)
  show ?case
  proof (cases "isWhiteSpace c")
    case False
    from 2(4) [OF False] have "\<not> adjacent isWhiteSpace isPunct (c # stripSpaceBeforePunct cs)"
      using False by (simp add: adjacent_Cons)
    with False show ?thesis by simp
  next
    case True
    show ?thesis
    proof (cases "dropWhile isWhiteSpace cs")
      case Nil
      then have "\<And>p rest. dropWhile isWhiteSpace cs = p # rest \<Longrightarrow> \<not> isPunct p" by simp
      then have "\<And>y ys. stripSpaceBeforePunct cs = y # ys \<Longrightarrow> \<not> isPunct y"
        by (rule strip_head_not_punct)
      then have "\<not> adjacent isWhiteSpace isPunct (c # stripSpaceBeforePunct cs)"
        using 2(1) [OF True Nil] by (rule adjacent_keep)
      moreover have "stripSpaceBeforePunct (c # cs) = c # stripSpaceBeforePunct cs"
        by (simp only: stripSpaceBeforePunct.simps True Nil if_True list.case)
      ultimately show ?thesis by simp
    next
      case (Cons p rest)
      show ?thesis
      proof (cases "isPunct p")
        case pt: True
        have "\<not> adjacent isWhiteSpace isPunct (p # stripSpaceBeforePunct rest)"
          using 2(2) [OF True Cons pt] punct_not_ws [OF pt] by (simp add: adjacent_Cons)
        moreover have "stripSpaceBeforePunct (c # cs) = p # stripSpaceBeforePunct rest"
          by (simp only: stripSpaceBeforePunct.simps True Cons pt if_True list.case)
        ultimately show ?thesis by simp
      next
        case np: False
        with Cons have "\<And>q r. dropWhile isWhiteSpace cs = q # r \<Longrightarrow> \<not> isPunct q" by simp
        then have "\<And>y ys. stripSpaceBeforePunct cs = y # ys \<Longrightarrow> \<not> isPunct y"
          by (rule strip_head_not_punct)
        then have "\<not> adjacent isWhiteSpace isPunct (c # stripSpaceBeforePunct cs)"
          using 2(3) [OF True Cons np] by (rule adjacent_keep)
        moreover have "stripSpaceBeforePunct (c # cs) = c # stripSpaceBeforePunct cs"
          by (simp only: stripSpaceBeforePunct.simps True Cons np if_True if_False list.case)
        ultimately show ?thesis by simp
      qed
    qed
  qed
qed

lemma nonWs_append: "nonWs (a @ b) = nonWs a @ nonWs b"
  by (simp add: nonWs_def)

lemma nonWs_dropWhile: "nonWs (dropWhile isWhiteSpace s) = nonWs s"
  by (induction s) (simp_all add: nonWs_def)

lemma nonWs_rev: "nonWs (rev s) = rev (nonWs s)"
  by (simp add: nonWs_def rev_filter)

lemma nonWs_trim: "nonWs (trim s) = nonWs s"
  by (simp add: trim_def nonWs_rev nonWs_dropWhile)

lemma trim_decomp:
  "\<exists>l t. s = l @ trim s @ t \<and> list_all isWhiteSpace l \<and> list_all isWhiteSpace t"
proof -
  define l where "l = takeWhile isWhiteSpace s"
  define m where "m = dropWhile isWhiteSpace s"
  define t where "t = rev (takeWhile isWhiteSpace (rev m))"
  have A: "rev (takeWhile isWhiteSpace (rev m) @ dropWhile isWhiteSpace (rev m)) = m"
    by (simp only: takeWhile_dropWhile_id rev_rev_ident)
  have B: "rev (takeWhile isWhiteSpace (rev m) @ dropWhile isWhiteSpace (rev m)) =
      rev (dropWhile isWhiteSpace (rev m)) @ rev (takeWhile isWhiteSpace (rev m))"
    by (rule rev_append)
  have "m = rev (dropWhile isWhiteSpace (rev m)) @ rev (takeWhile isWhiteSpace (rev m))"
    by (rule trans [OF sym [OF A] B])
  then have "m = trim s @ t" by (simp only: trim_def t_def m_def)
  moreover have "s = l @ m" by (simp add: l_def m_def)
  moreover have "list_all isWhiteSpace l"
    by (simp add: l_def list_all_iff) (meson set_takeWhileD)
  moreover have "list_all isWhiteSpace t"
    by (simp add: t_def list_all_iff) (meson set_takeWhileD)
  ultimately have "s = l @ trim s @ t \<and> list_all isWhiteSpace l \<and> list_all isWhiteSpace t"
    by simp
  then show ?thesis by blast
qed

lemma dropWhile_fix: "(\<And>x xs'. xs = x # xs' \<Longrightarrow> \<not> P x) \<Longrightarrow> dropWhile P xs = xs"
  by (cases xs) simp_all

lemma trim_trim: "trim (trim s) = trim s"
proof -
  define m where "m = dropWhile isWhiteSpace s"
  define r where "r = dropWhile isWhiteSpace (rev m)"
  have t: "trim s = rev r" by (simp add: trim_def r_def m_def)
  have hr: "\<not> isWhiteSpace x" if "r = x # xs" for x xs
    using that hd_dropWhile [of isWhiteSpace "rev m"] by (simp add: r_def)
  have hm: "\<not> isWhiteSpace x" if "m = x # xs" for x xs
    using that hd_dropWhile [of isWhiteSpace s] by (simp add: m_def)
  have A: "rev (takeWhile isWhiteSpace (rev m) @ dropWhile isWhiteSpace (rev m)) = m"
    by (simp only: takeWhile_dropWhile_id rev_rev_ident)
  have B: "rev (takeWhile isWhiteSpace (rev m) @ dropWhile isWhiteSpace (rev m)) =
      rev (dropWhile isWhiteSpace (rev m)) @ rev (takeWhile isWhiteSpace (rev m))"
    by (rule rev_append)
  have m: "m = rev r @ rev (takeWhile isWhiteSpace (rev m))"
    unfolding r_def by (rule trans [OF sym [OF A] B])
  have hrr: "\<not> isWhiteSpace x" if "rev r = x # xs" for x xs
  proof -
    from m that have "m = x # (xs @ rev (takeWhile isWhiteSpace (rev m)))" by simp
    then show ?thesis by (rule hm)
  qed
  have f1: "dropWhile isWhiteSpace (rev r) = rev r" using hrr by (rule dropWhile_fix)
  have f2: "dropWhile isWhiteSpace r = r" using hr by (rule dropWhile_fix)
  have "trim (rev r) = rev (dropWhile isWhiteSpace (rev (dropWhile isWhiteSpace (rev r))))"
    by (simp only: trim_def)
  also have "\<dots> = rev (dropWhile isWhiteSpace (rev (rev r)))" by (simp only: f1)
  also have "\<dots> = rev (dropWhile isWhiteSpace r)" by (simp only: rev_rev_ident)
  also have "\<dots> = rev r" by (simp only: f2)
  finally show ?thesis by (simp only: t)
qed


lemma nonWs_ws: "list_all isWhiteSpace w \<Longrightarrow> nonWs w = []"
  by (induction w) (simp_all add: nonWs_def)

lemma dropWhile_suffix: "\<exists>w. xs = w @ dropWhile P xs \<and> list_all P w"
proof -
  have "xs = takeWhile P xs @ dropWhile P xs" by simp
  moreover have "list_all P (takeWhile P xs)"
    by (simp add: list_all_iff) (meson set_takeWhileD)
  ultimately show ?thesis by blast
qed

lemma sentEnd_punct: "isSentenceEnd c \<Longrightarrow> isPunct c"
  by (auto simp: isSentenceEnd_def isPunct_def)

lemma upper_not_punct: "isUpperAZ u \<Longrightarrow> \<not> isPunct u"
  by (auto simp: isUpperAZ_def isPunct_def)

lemma adjacent_nonempty: "adjacent P Q s \<Longrightarrow> s \<noteq> []"
  by (cases s) simp_all

lemma adjacent_append2: "adjacent P Q t \<Longrightarrow> adjacent P Q (l @ t)"
proof (induction l)
  case Nil
  then show ?case by simp
next
  case (Cons a l)
  from Cons have "adjacent P Q (l @ t)" by simp
  then show ?case using adjacent_nonempty [of P Q "l @ t"] by (simp add: adjacent_Cons)
qed

lemma adjacent_append1: "adjacent P Q l \<Longrightarrow> adjacent P Q (l @ t)"
proof (induction l)
  case Nil
  then show ?case by simp
next
  case (Cons a l)
  from Cons.prems have l: "l \<noteq> []" and d: "P a \<and> Q (hd l) \<or> adjacent P Q l"
    by (simp_all add: adjacent_Cons)
  from d show ?case
  proof
    assume "P a \<and> Q (hd l)"
    with l show ?thesis by (simp add: adjacent_Cons)
  next
    assume "adjacent P Q l"
    then have "adjacent P Q (l @ t)" by (rule Cons.IH)
    with l show ?thesis by (simp add: adjacent_Cons)
  qed
qed

lemma not_adjacent_part: "\<not> adjacent P Q (l @ m @ t) \<Longrightarrow> \<not> adjacent P Q m"
  using adjacent_append1 [of P Q m t] adjacent_append2 [of P Q "m @ t" l] by blast

lemma not_adjacent_suffix: "\<not> adjacent P Q (l @ t) \<Longrightarrow> \<not> adjacent P Q t"
  using adjacent_append2 [of P Q t l] by blast

lemma not_adjacent_tl: "\<not> adjacent P Q (a # t) \<Longrightarrow> \<not> adjacent P Q t"
  using not_adjacent_suffix [of P Q "[a]" t] by simp

lemma not_adjacent_hd: "\<not> adjacent P Q (a # b # t) \<Longrightarrow> \<not> (P a \<and> Q b)"
  by simp

lemma not_adjacent_ConsI:
  "\<not> adjacent P Q t \<Longrightarrow> (\<And>y ys. t = y # ys \<Longrightarrow> \<not> (P a \<and> Q y)) \<Longrightarrow> \<not> adjacent P Q (a # t)"
  by (cases t) simp_all

lemma not_adjacent_dropWhile:
  "\<not> adjacent P Q (a # cs) \<Longrightarrow> \<not> adjacent P Q (dropWhile R cs)"
proof -
  assume n: "\<not> adjacent P Q (a # cs)"
  from dropWhile_suffix [of cs R] obtain w where "cs = w @ dropWhile R cs" by blast
  then have "a # cs = (a # w) @ dropWhile R cs" by simp
  with n have "\<not> adjacent P Q ((a # w) @ dropWhile R cs)" by simp
  then show ?thesis by (rule not_adjacent_suffix)
qed

lemma list_all_dropWhile: "list_all P cs \<Longrightarrow> list_all P (dropWhile R cs)"
  by (simp add: list_all_iff) (meson set_dropWhileD)

lemma dropWhile_shorter: "dropWhile P cs = u # rest \<Longrightarrow> length rest < length (c # cs)"
proof -
  assume "dropWhile P cs = u # rest"
  then have "length (u # rest) \<le> length cs" by (metis length_dropWhile_le)
  then show ?thesis by simp
qed

text \<open>The two ways each of the last two scans can go at a character.\<close>

lemma spaceAfterSentence_cases:
  obtains (ins) u rest where "isSentenceEnd c" and "dropWhile isWhiteSpace cs = u # rest"
      and "isUpperAZ u"
      and "spaceAfterSentence (c # cs) = c # CHR '' '' # u # spaceAfterSentence rest"
  | (keep) "spaceAfterSentence (c # cs) = c # spaceAfterSentence cs"
      and "\<And>u rest. isSentenceEnd c \<Longrightarrow> dropWhile isWhiteSpace cs = u # rest \<Longrightarrow> \<not> isUpperAZ u"
proof (cases "isSentenceEnd c")
  case False
  then show ?thesis by (intro keep) simp_all
next
  case True
  show ?thesis
  proof (cases "dropWhile isWhiteSpace cs")
    case Nil
    have "spaceAfterSentence (c # cs) = c # spaceAfterSentence cs"
      by (simp only: spaceAfterSentence.simps True Nil if_True list.case)
    with Nil show ?thesis by (intro keep) simp_all
  next
    case (Cons u rest)
    show ?thesis
    proof (cases "isUpperAZ u")
      case ut: True
      have "spaceAfterSentence (c # cs) = c # CHR '' '' # u # spaceAfterSentence rest"
        by (simp only: spaceAfterSentence.simps True Cons ut if_True list.case)
      with True Cons ut show ?thesis by (intro ins [of u rest])
    next
      case nu: False
      have "spaceAfterSentence (c # cs) = c # spaceAfterSentence cs"
        by (simp only: spaceAfterSentence.simps True Cons nu if_True if_False list.case)
      with Cons nu show ?thesis by (intro keep) simp_all
    qed
  qed
qed

lemma stripSpaceBeforePunct_cases:
  obtains (drop) p rest where "isWhiteSpace c" and "dropWhile isWhiteSpace cs = p # rest"
      and "isPunct p"
      and "stripSpaceBeforePunct (c # cs) = p # stripSpaceBeforePunct rest"
  | (keep) "stripSpaceBeforePunct (c # cs) = c # stripSpaceBeforePunct cs"
      and "\<And>p rest. isWhiteSpace c \<Longrightarrow> dropWhile isWhiteSpace cs = p # rest \<Longrightarrow> \<not> isPunct p"
proof (cases "isWhiteSpace c")
  case False
  then show ?thesis by (intro keep) simp_all
next
  case True
  show ?thesis
  proof (cases "dropWhile isWhiteSpace cs")
    case Nil
    have "stripSpaceBeforePunct (c # cs) = c # stripSpaceBeforePunct cs"
      by (simp only: stripSpaceBeforePunct.simps True Nil if_True list.case)
    with Nil show ?thesis by (intro keep) simp_all
  next
    case (Cons p rest)
    show ?thesis
    proof (cases "isPunct p")
      case pt: True
      have "stripSpaceBeforePunct (c # cs) = p # stripSpaceBeforePunct rest"
        by (simp only: stripSpaceBeforePunct.simps True Cons pt if_True list.case)
      with True Cons pt show ?thesis by (intro drop [of p rest])
    next
      case np: False
      have "stripSpaceBeforePunct (c # cs) = c # stripSpaceBeforePunct cs"
        by (simp only: stripSpaceBeforePunct.simps True Cons np if_True if_False list.case)
      with Cons np show ?thesis by (intro keep) simp_all
    qed
  qed
qed

lemma spaceAfterSentence_hd:
  "spaceAfterSentence s = y # ys \<Longrightarrow> \<exists>cs. s = y # cs"
proof (cases s)
  case Nil
  assume "spaceAfterSentence s = y # ys"
  with Nil show ?thesis by simp
next
  case (Cons c cs)
  assume a: "spaceAfterSentence s = y # ys"
  show ?thesis
  proof (cases rule: spaceAfterSentence_cases [of c cs])
    case (ins u rest)
    with a Cons show ?thesis by simp
  next
    case keep
    with a Cons show ?thesis by simp
  qed
qed

lemma stripSpaceBeforePunct_hd:
  "stripSpaceBeforePunct s = y # ys \<Longrightarrow> \<not> isPunct y \<Longrightarrow> \<exists>cs. s = y # cs"
proof (cases s)
  case Nil
  assume "stripSpaceBeforePunct s = y # ys"
  with Nil show ?thesis by simp
next
  case (Cons c cs)
  assume a: "stripSpaceBeforePunct s = y # ys" and n: "\<not> isPunct y"
  show ?thesis
  proof (cases rule: stripSpaceBeforePunct_cases [of c cs])
    case (drop p rest)
    with a n Cons show ?thesis by simp
  next
    case keep
    with a Cons show ?thesis by simp
  qed
qed

text \<open>What the second scan keeps and what it reaches.\<close>

lemma spaceAfterSentence_ws:
  "\<not> adjacent isWhiteSpace isWhiteSpace s \<Longrightarrow>
     \<not> adjacent isWhiteSpace isWhiteSpace (spaceAfterSentence s)"
proof (induction "length s" arbitrary: s rule: less_induct)
  case less
  show ?case
  proof (cases s)
    case Nil
    then show ?thesis by simp
  next
    case (Cons c cs)
    show ?thesis
    proof (cases rule: spaceAfterSentence_cases [of c cs])
      case (ins u rest)
      from less.prems Cons have "\<not> adjacent isWhiteSpace isWhiteSpace (c # cs)" by simp
      then have "\<not> adjacent isWhiteSpace isWhiteSpace (dropWhile isWhiteSpace cs)"
        by (rule not_adjacent_dropWhile)
      with ins(2) have "\<not> adjacent isWhiteSpace isWhiteSpace rest"
        using not_adjacent_tl [of isWhiteSpace isWhiteSpace u rest] by simp
      moreover have "length rest < length s"
        using dropWhile_shorter [OF ins(2), of c] Cons by simp
      ultimately have r: "\<not> adjacent isWhiteSpace isWhiteSpace (spaceAfterSentence rest)"
        by (rule less.hyps [rotated])
      from ins(1) have "\<not> isWhiteSpace c" using punct_not_ws sentEnd_punct by blast
      moreover from ins(3) have "\<not> isWhiteSpace u" by (rule upper_not_ws)
      ultimately show ?thesis using r Cons ins(4) by (simp add: adjacent_Cons)
    next
      case keep
      from less.prems Cons have n: "\<not> adjacent isWhiteSpace isWhiteSpace cs"
        using not_adjacent_tl by blast
      have "length cs < length s" using Cons by simp
      from less.hyps [OF this n]
      have r: "\<not> adjacent isWhiteSpace isWhiteSpace (spaceAfterSentence cs)" .
      have "\<not> adjacent isWhiteSpace isWhiteSpace (c # spaceAfterSentence cs)"
      proof (rule not_adjacent_ConsI [OF r])
        fix y ys
        assume "spaceAfterSentence cs = y # ys"
        from spaceAfterSentence_hd [OF this] obtain cs' where "cs = y # cs'" by blast
        with less.prems Cons show "\<not> (isWhiteSpace c \<and> isWhiteSpace y)" by simp
      qed
      with keep(1) Cons show ?thesis by simp
    qed
  qed
qed

lemma spaceAfterSentence_spaces:
  "list_all (\<lambda>c. \<not> isWhiteSpace c \<or> c = CHR '' '') s \<Longrightarrow>
     list_all (\<lambda>c. \<not> isWhiteSpace c \<or> c = CHR '' '') (spaceAfterSentence s)"
proof (induction "length s" arbitrary: s rule: less_induct)
  case less
  show ?case
  proof (cases s)
    case Nil
    then show ?thesis by simp
  next
    case (Cons c cs)
    show ?thesis
    proof (cases rule: spaceAfterSentence_cases [of c cs])
      case (ins u rest)
      from less.prems Cons
      have "list_all (\<lambda>c. \<not> isWhiteSpace c \<or> c = CHR '' '') (dropWhile isWhiteSpace cs)"
        by (simp add: list_all_dropWhile)
      with ins(2) have a: "list_all (\<lambda>c. \<not> isWhiteSpace c \<or> c = CHR '' '') (u # rest)" by simp
      have "length rest < length s"
        using dropWhile_shorter [OF ins(2), of c] Cons by simp
      from less.hyps [OF this] a
      have "list_all (\<lambda>c. \<not> isWhiteSpace c \<or> c = CHR '' '') (spaceAfterSentence rest)" by simp
      with a less.prems Cons ins(4) show ?thesis by simp
    next
      case keep
      have "length cs < length s" using Cons by simp
      from less.hyps [OF this] less.prems Cons keep(1) show ?thesis by simp
    qed
  qed
qed

lemma spaceAfterSentence_no_adjacent:
  "\<not> adjacent isSentenceEnd isUpperAZ (spaceAfterSentence s)"
proof (induction "length s" arbitrary: s rule: less_induct)
  case less
  show ?case
  proof (cases s)
    case Nil
    then show ?thesis by simp
  next
    case (Cons c cs)
    show ?thesis
    proof (cases rule: spaceAfterSentence_cases [of c cs])
      case (ins u rest)
      have "length rest < length s"
        using dropWhile_shorter [OF ins(2), of c] Cons by simp
      from less.hyps [OF this]
      have r: "\<not> adjacent isSentenceEnd isUpperAZ (spaceAfterSentence rest)" .
      have "\<not> isUpperAZ (CHR '' '')" "\<not> isSentenceEnd (CHR '' '')"
        by (simp_all add: isUpperAZ_def isSentenceEnd_def)
      moreover from ins(3) have "\<not> isSentenceEnd u"
        using upper_not_punct sentEnd_punct by blast
      ultimately show ?thesis using r Cons ins(4) by (simp add: adjacent_Cons)
    next
      case keep
      have "length cs < length s" using Cons by simp
      from less.hyps [OF this]
      have r: "\<not> adjacent isSentenceEnd isUpperAZ (spaceAfterSentence cs)" .
      have "\<not> adjacent isSentenceEnd isUpperAZ (c # spaceAfterSentence cs)"
      proof (rule not_adjacent_ConsI [OF r])
        fix y ys
        assume "spaceAfterSentence cs = y # ys"
        from spaceAfterSentence_hd [OF this] obtain cs' where cs: "cs = y # cs'" by blast
        show "\<not> (isSentenceEnd c \<and> isUpperAZ y)"
        proof
          assume a: "isSentenceEnd c \<and> isUpperAZ y"
          then have "dropWhile isWhiteSpace cs = y # cs'" using cs upper_not_ws by simp
          with keep(2) a show False by blast
        qed
      qed
      with keep(1) Cons show ?thesis by simp
    qed
  qed
qed

lemma spaceAfterSentence_nonWs: "nonWs (spaceAfterSentence s) = nonWs s"
proof (induction "length s" arbitrary: s rule: less_induct)
  case less
  show ?case
  proof (cases s)
    case Nil
    then show ?thesis by simp
  next
    case (Cons c cs)
    show ?thesis
    proof (cases rule: spaceAfterSentence_cases [of c cs])
      case (ins u rest)
      have "length rest < length s"
        using dropWhile_shorter [OF ins(2), of c] Cons by simp
      from less.hyps [OF this] have r: "nonWs (spaceAfterSentence rest) = nonWs rest" .
      have "nonWs cs = nonWs (u # rest)" using nonWs_dropWhile [of cs] ins(2) by simp
      with r Cons ins(4) show ?thesis by (simp add: nonWs_def isWhiteSpace_def)
    next
      case keep
      have "length cs < length s" using Cons by simp
      from less.hyps [OF this] Cons keep(1) show ?thesis by (simp add: nonWs_def)
    qed
  qed
qed

text \<open>What the third scan keeps.\<close>

lemma stripSpaceBeforePunct_ws:
  "\<not> adjacent isWhiteSpace isWhiteSpace s \<Longrightarrow>
     \<not> adjacent isWhiteSpace isWhiteSpace (stripSpaceBeforePunct s)"
proof (induction "length s" arbitrary: s rule: less_induct)
  case less
  show ?case
  proof (cases s)
    case Nil
    then show ?thesis by simp
  next
    case (Cons c cs)
    show ?thesis
    proof (cases rule: stripSpaceBeforePunct_cases [of c cs])
      case (drop p rest)
      from less.prems Cons have "\<not> adjacent isWhiteSpace isWhiteSpace (c # cs)" by simp
      then have "\<not> adjacent isWhiteSpace isWhiteSpace (dropWhile isWhiteSpace cs)"
        by (rule not_adjacent_dropWhile)
      with drop(2) have "\<not> adjacent isWhiteSpace isWhiteSpace rest"
        using not_adjacent_tl [of isWhiteSpace isWhiteSpace p rest] by simp
      moreover have "length rest < length s"
        using dropWhile_shorter [OF drop(2), of c] Cons by simp
      ultimately have r: "\<not> adjacent isWhiteSpace isWhiteSpace (stripSpaceBeforePunct rest)"
        by (rule less.hyps [rotated])
      from drop(3) have "\<not> isWhiteSpace p" by (rule punct_not_ws)
      then show ?thesis using r Cons drop(4) by (simp add: adjacent_Cons)
    next
      case keep
      from less.prems Cons have n: "\<not> adjacent isWhiteSpace isWhiteSpace cs"
        using not_adjacent_tl by blast
      have "length cs < length s" using Cons by simp
      from less.hyps [OF this n]
      have r: "\<not> adjacent isWhiteSpace isWhiteSpace (stripSpaceBeforePunct cs)" .
      have "\<not> adjacent isWhiteSpace isWhiteSpace (c # stripSpaceBeforePunct cs)"
      proof (rule not_adjacent_ConsI [OF r])
        fix y ys
        assume e: "stripSpaceBeforePunct cs = y # ys"
        show "\<not> (isWhiteSpace c \<and> isWhiteSpace y)"
        proof
          assume a: "isWhiteSpace c \<and> isWhiteSpace y"
          then have "\<not> isPunct y" using punct_not_ws by blast
          from stripSpaceBeforePunct_hd [OF e this] obtain cs' where "cs = y # cs'" by blast
          with less.prems Cons a show False by simp
        qed
      qed
      with keep(1) Cons show ?thesis by simp
    qed
  qed
qed

lemma stripSpaceBeforePunct_subset: "set (stripSpaceBeforePunct s) \<subseteq> set s"
proof (induction "length s" arbitrary: s rule: less_induct)
  case less
  show ?case
  proof (cases s)
    case Nil
    then show ?thesis by simp
  next
    case (Cons c cs)
    show ?thesis
    proof (cases rule: stripSpaceBeforePunct_cases [of c cs])
      case (drop p rest)
      have "length rest < length s"
        using dropWhile_shorter [OF drop(2), of c] Cons by simp
      from less.hyps [OF this] have "set (stripSpaceBeforePunct rest) \<subseteq> set rest" .
      moreover have "set (p # rest) \<subseteq> set cs"
        using set_dropWhileD [of _ isWhiteSpace cs] drop(2) by auto
      ultimately show ?thesis using Cons drop(4) by auto
    next
      case keep
      have "length cs < length s" using Cons by simp
      from less.hyps [OF this] Cons keep(1) show ?thesis by auto
    qed
  qed
qed

lemma stripSpaceBeforePunct_sentence:
  "\<not> adjacent isSentenceEnd isUpperAZ s \<Longrightarrow>
     \<not> adjacent isSentenceEnd isUpperAZ (stripSpaceBeforePunct s)"
proof (induction "length s" arbitrary: s rule: less_induct)
  case less
  show ?case
  proof (cases s)
    case Nil
    then show ?thesis by simp
  next
    case (Cons c cs)
    show ?thesis
    proof (cases rule: stripSpaceBeforePunct_cases [of c cs])
      case (drop p rest)
      from less.prems Cons have "\<not> adjacent isSentenceEnd isUpperAZ (c # cs)" by simp
      then have "\<not> adjacent isSentenceEnd isUpperAZ (dropWhile isWhiteSpace cs)"
        by (rule not_adjacent_dropWhile)
      with drop(2) have pr: "\<not> adjacent isSentenceEnd isUpperAZ (p # rest)" by simp
      then have n: "\<not> adjacent isSentenceEnd isUpperAZ rest" by (rule not_adjacent_tl)
      have "length rest < length s"
        using dropWhile_shorter [OF drop(2), of c] Cons by simp
      from less.hyps [OF this n]
      have r: "\<not> adjacent isSentenceEnd isUpperAZ (stripSpaceBeforePunct rest)" .
      have "\<not> adjacent isSentenceEnd isUpperAZ (p # stripSpaceBeforePunct rest)"
      proof (rule not_adjacent_ConsI [OF r])
        fix y ys
        assume e: "stripSpaceBeforePunct rest = y # ys"
        show "\<not> (isSentenceEnd p \<and> isUpperAZ y)"
        proof
          assume a: "isSentenceEnd p \<and> isUpperAZ y"
          then have "\<not> isPunct y" using upper_not_punct by blast
          from stripSpaceBeforePunct_hd [OF e this] obtain cs' where "rest = y # cs'" by blast
          with pr a show False by simp
        qed
      qed
      with drop(4) Cons show ?thesis by simp
    next
      case keep
      from less.prems Cons have n: "\<not> adjacent isSentenceEnd isUpperAZ cs"
        using not_adjacent_tl by blast
      have "length cs < length s" using Cons by simp
      from less.hyps [OF this n]
      have r: "\<not> adjacent isSentenceEnd isUpperAZ (stripSpaceBeforePunct cs)" .
      have "\<not> adjacent isSentenceEnd isUpperAZ (c # stripSpaceBeforePunct cs)"
      proof (rule not_adjacent_ConsI [OF r])
        fix y ys
        assume e: "stripSpaceBeforePunct cs = y # ys"
        show "\<not> (isSentenceEnd c \<and> isUpperAZ y)"
        proof
          assume a: "isSentenceEnd c \<and> isUpperAZ y"
          then have "\<not> isPunct y" using upper_not_punct by blast
          from stripSpaceBeforePunct_hd [OF e this] obtain cs' where "cs = y # cs'" by blast
          with less.prems Cons a show False by simp
        qed
      qed
      with keep(1) Cons show ?thesis by simp
    qed
  qed
qed

lemma stripSpaceBeforePunct_nonWs: "nonWs (stripSpaceBeforePunct s) = nonWs s"
proof (induction "length s" arbitrary: s rule: less_induct)
  case less
  show ?case
  proof (cases s)
    case Nil
    then show ?thesis by simp
  next
    case (Cons c cs)
    show ?thesis
    proof (cases rule: stripSpaceBeforePunct_cases [of c cs])
      case (drop p rest)
      have "length rest < length s"
        using dropWhile_shorter [OF drop(2), of c] Cons by simp
      from less.hyps [OF this] have r: "nonWs (stripSpaceBeforePunct rest) = nonWs rest" .
      have "nonWs cs = nonWs (p # rest)" using nonWs_dropWhile [of cs] drop(2) by simp
      with r Cons drop(1,4) show ?thesis by (simp add: nonWs_def)
    next
      case keep
      have "length cs < length s" using Cons by simp
      from less.hyps [OF this] Cons keep(1) show ?thesis by (simp add: nonWs_def)
    qed
  qed
qed

lemma collapseWhitespace_nonWs: "nonWs (collapseWhitespace s) = nonWs s"
proof (induction s rule: collapseWhitespace.induct)
  case 1
  show ?case by simp
next
  case (2 c cs)
  show ?case
  proof (cases "isWhiteSpace c")
    case True
    with 2 have "nonWs (collapseWhitespace (dropWhile isWhiteSpace cs)) =
        nonWs (dropWhile isWhiteSpace cs)" by simp
    with True show ?thesis by (simp add: nonWs_dropWhile) (simp add: nonWs_def isWhiteSpace_def)
  next
    case False
    with 2 show ?thesis by (simp add: nonWs_def)
  qed
qed

text \<open>Trimming takes a part of the text, so it keeps what holds of the whole.\<close>

lemma trim_not_adjacent: "\<not> adjacent P Q s \<Longrightarrow> \<not> adjacent P Q (trim s)"
proof -
  assume n: "\<not> adjacent P Q s"
  from trim_decomp [of s] obtain l t where "s = l @ trim s @ t" by blast
  with n have "\<not> adjacent P Q (l @ trim s @ t)" by simp
  then show ?thesis by (rule not_adjacent_part)
qed

lemma trim_subset: "set (trim s) \<subseteq> set s"
proof -
  from trim_decomp [of s] obtain l t where "s = l @ trim s @ t" by blast
  then have "set s = set l \<union> set (trim s) \<union> set t" by (metis set_append sup_assoc)
  then show ?thesis by blast
qed

text \<open>A text in normal form is left as it is by every step.\<close>

lemma collapseWhitespace_fix:
  "\<not> adjacent isWhiteSpace isWhiteSpace s \<Longrightarrow>
     list_all (\<lambda>c. \<not> isWhiteSpace c \<or> c = CHR '' '') s \<Longrightarrow> collapseWhitespace s = s"
proof (induction "length s" arbitrary: s rule: less_induct)
  case less
  show ?case
  proof (cases s)
    case Nil
    then show ?thesis by simp
  next
    case (Cons c cs)
    from less.prems Cons have n: "\<not> adjacent isWhiteSpace isWhiteSpace cs"
      and a: "list_all (\<lambda>c. \<not> isWhiteSpace c \<or> c = CHR '' '') cs"
      using not_adjacent_tl by (blast, simp)
    have "length cs < length s" using Cons by simp
    from less.hyps [OF this n a] have r: "collapseWhitespace cs = cs" .
    show ?thesis
    proof (cases "isWhiteSpace c")
      case False
      with r Cons show ?thesis by simp
    next
      case True
      with less.prems(2) Cons have c: "c = CHR '' ''" by simp
      have "dropWhile isWhiteSpace cs = cs"
      proof (rule dropWhile_fix)
        fix x xs'
        assume "cs = x # xs'"
        with less.prems(1) Cons True show "\<not> isWhiteSpace x" by simp
      qed
      with True r c Cons show ?thesis by simp
    qed
  qed
qed

lemma spaceAfterSentence_fix:
  "\<not> adjacent isWhiteSpace isWhiteSpace s \<Longrightarrow>
     list_all (\<lambda>c. \<not> isWhiteSpace c \<or> c = CHR '' '') s \<Longrightarrow>
     \<not> adjacent isSentenceEnd isUpperAZ s \<Longrightarrow> spaceAfterSentence s = s"
proof (induction "length s" arbitrary: s rule: less_induct)
  case less
  show ?case
  proof (cases s)
    case Nil
    then show ?thesis by simp
  next
    case (Cons c cs)
    show ?thesis
    proof (cases rule: spaceAfterSentence_cases [of c cs])
      case (ins u rest)
      from ins(3) have nu: "\<not> isWhiteSpace u" by (rule upper_not_ws)
      have cs: "cs = CHR '' '' # u # rest"
      proof (cases cs)
        case Nil
        with ins(2) show ?thesis by simp
      next
        case c1: (Cons x xs)
        show ?thesis
        proof (cases "isWhiteSpace x")
          case False
          with c1 ins(2) have "x = u" by simp
          with less.prems(3) Cons c1 ins(1,3) show ?thesis by simp
        next
          case True
          with less.prems(2) Cons c1 have x: "x = CHR '' ''" by simp
          from True c1 ins(2) have d: "dropWhile isWhiteSpace xs = u # rest" by simp
          have "dropWhile isWhiteSpace xs = xs"
          proof (rule dropWhile_fix)
            fix y ys
            assume "xs = y # ys"
            with less.prems(1) Cons c1 True show "\<not> isWhiteSpace y" by simp
          qed
          with d x c1 show ?thesis by simp
        qed
      qed
      have s: "s = [c, CHR '' '', u] @ rest" using Cons cs by simp
      from less.prems(1) have n1: "\<not> adjacent isWhiteSpace isWhiteSpace rest"
        unfolding s by (rule not_adjacent_suffix)
      from less.prems(3) have n3: "\<not> adjacent isSentenceEnd isUpperAZ rest"
        unfolding s by (rule not_adjacent_suffix)
      from less.prems(2) have n2: "list_all (\<lambda>c. \<not> isWhiteSpace c \<or> c = CHR '' '') rest"
        unfolding s by simp
      have "length rest < length s" using s by simp
      from less.hyps [OF this n1 n2 n3] have "spaceAfterSentence rest = rest" .
      with ins(4) Cons cs show ?thesis by simp
    next
      case keep
      from less.prems Cons have n1: "\<not> adjacent isWhiteSpace isWhiteSpace cs"
        and n3: "\<not> adjacent isSentenceEnd isUpperAZ cs"
        and n2: "list_all (\<lambda>c. \<not> isWhiteSpace c \<or> c = CHR '' '') cs"
        using not_adjacent_tl by (blast, blast, simp)
      have "length cs < length s" using Cons by simp
      from less.hyps [OF this n1 n2 n3] keep(1) Cons show ?thesis by simp
    qed
  qed
qed

lemma stripSpaceBeforePunct_fix:
  "\<not> adjacent isWhiteSpace isWhiteSpace s \<Longrightarrow> \<not> adjacent isWhiteSpace isPunct s \<Longrightarrow>
     stripSpaceBeforePunct s = s"
proof (induction "length s" arbitrary: s rule: less_induct)
  case less
  show ?case
  proof (cases s)
    case Nil
    then show ?thesis by simp
  next
    case (Cons c cs)
    show ?thesis
    proof (cases rule: stripSpaceBeforePunct_cases [of c cs])
      case (drop p rest)
      have "dropWhile isWhiteSpace cs = cs"
      proof (rule dropWhile_fix)
        fix y ys
        assume "cs = y # ys"
        with less.prems(1) Cons drop(1) show "\<not> isWhiteSpace y" by simp
      qed
      with drop(2) have "cs = p # rest" by simp
      with less.prems(2) Cons drop(1,3) show ?thesis by simp
    next
      case keep
      from less.prems Cons have n1: "\<not> adjacent isWhiteSpace isWhiteSpace cs"
        and n2: "\<not> adjacent isWhiteSpace isPunct cs"
        using not_adjacent_tl by blast+
      have "length cs < length s" using Cons by simp
      from less.hyps [OF this n1 n2] keep(1) Cons show ?thesis by simp
    qed
  qed
qed

lemma normalizeContent_normalized: "normalized (normalizeContent s)"
proof -
  let ?a = "collapseWhitespace s"
  let ?b = "spaceAfterSentence ?a"
  let ?c = "stripSpaceBeforePunct ?b"
  have w: "\<not> adjacent isWhiteSpace isWhiteSpace ?c"
    by (intro stripSpaceBeforePunct_ws spaceAfterSentence_ws collapse_no_adjacent)
  have "list_all (\<lambda>c. \<not> isWhiteSpace c \<or> c = CHR '' '') ?b"
    by (intro spaceAfterSentence_spaces collapse_only_spaces)
  then have sp: "list_all (\<lambda>c. \<not> isWhiteSpace c \<or> c = CHR '' '') ?c"
    using stripSpaceBeforePunct_subset [of ?b] by (auto simp: list_all_iff)
  have se: "\<not> adjacent isSentenceEnd isUpperAZ ?c"
    by (intro stripSpaceBeforePunct_sentence spaceAfterSentence_no_adjacent)
  have pu: "\<not> adjacent isWhiteSpace isPunct ?c" by (rule strip_no_adjacent)
  have "list_all (\<lambda>c. \<not> isWhiteSpace c \<or> c = CHR '' '') (trim ?c)"
    using sp trim_subset [of ?c] by (auto simp: list_all_iff)
  with w se pu show ?thesis
    unfolding normalized_def normalizeContent_def
    by (simp only: trim_not_adjacent trim_trim simp_thms)
qed

lemma normalizeContent_nonWs: "nonWs (normalizeContent s) = nonWs s"
  by (simp add: normalizeContent_def nonWs_trim stripSpaceBeforePunct_nonWs
      spaceAfterSentence_nonWs collapseWhitespace_nonWs)

lemma normalizeContent_fix: "normalized s \<Longrightarrow> normalizeContent s = s"
  by (simp add: normalized_def normalizeContent_def collapseWhitespace_fix
      spaceAfterSentence_fix stripSpaceBeforePunct_fix)

lemma nonWs_join_space: "nonWs (join '' '' ps) = concat (map nonWs ps)"
proof (induction ps rule: induct_list012)
  case 1
  show ?case by (simp add: nonWs_def)
next
  case (2 x)
  show ?case by simp
next
  case (3 x y ys)
  then show ?case by (simp add: nonWs_append) (simp add: nonWs_def isWhiteSpace_def)
qed

lemma nonWs_empty_trim: "trim t = [] \<Longrightarrow> nonWs t = []"
  using nonWs_trim [of t] by (simp add: nonWs_def)

lemma contentParts_nonWs:
  "concat (map nonWs (contentParts blocks)) = concat (map (\<lambda>b. nonWs (extractTextFromBlock b)) blocks)"
proof (induction blocks)
  case Nil
  show ?case by simp
next
  case (Cons b bs)
  show ?case
  proof (cases "extractTextFromBlock b \<noteq> [] \<and> trim (extractTextFromBlock b) \<noteq> []")
    case True
    with Cons show ?thesis by (simp add: Let_def nonWs_trim)
  next
    case False
    then have "nonWs (extractTextFromBlock b) = []"
      using nonWs_empty_trim [of "extractTextFromBlock b"] by (auto simp: nonWs_def)
    with False Cons show ?thesis by (auto simp: Let_def)
  qed
qed

lemma messy_blocks:
  "getAllBlocksFromPage (Suc n) messyPage 0 =
     Some [textBlock 1 ''heading_1'' [''Intro''],
           textBlock 2 ''paragraph'' [''Hello   world .Next'', '' one''],
           textBlock 3 ''paragraph'' [''is last !'', [CHR 0x0A]]]"
  by (simp add: getAllBlocksFromPage_def messyPage_def descends_def textBlock_def)

lemma messy_joined:
  "join '' '' (contentParts [textBlock 1 ''heading_1'' [''Intro''],
           textBlock 2 ''paragraph'' [''Hello   world .Next'', '' one''],
           textBlock 3 ''paragraph'' [''is last !'', [CHR 0x0A]]]) =
     ''Intro Hello   world .Next one is last !''"
  by (simp add: textBlock_def textSpan_def extractTextFromBlock_def extractTextFromRichText_def
      trim_def isWhiteSpace_def)

lemma messy_normal:
  "normalizeContent ''Intro Hello   world .Next one is last !'' =
     ''Intro Hello world. Next one is last!''"
  by (simp add: normalizeContent_def trim_def isWhiteSpace_def isSentenceEnd_def isUpperAZ_def
      isPunct_def)

lemma messy_content:
  "extractPageContent (Suc n) messyPage 0 = Some ''Intro Hello world. Next one is last!''"
  by (simp only: extractPageContent_def messy_blocks option.case messy_joined messy_normal)

text \<open>
  Claim C8.  Flat-mode extraction of the page made of a heading_1 block "Intro" and a
  paragraph block "Hello world." returns exactly "Intro Hello world." as soon as the
  walk has fuel for its one listing call.  Whatever blocks the walk returns, the text
  extracted from them is in normal form: runs of white space are single spaces, there
  is a space between a sentence end and an upper-case letter, and no white space
  before a punctuation mark or at either end.  The normalisation changes white space
  only (the other characters are those of the blocks' texts, in order) and leaves an
  assembled text that is in normal form already as it is.  On the page with the
  paragraphs "Hello   world .Next one" and "is last !" all three steps act.
\<close>

theorem extractPageContent_intro_hello:
  "extractPageContent (Suc n) introPage 0 = Some ''Intro Hello world.'' \<and>
   extractPageContent (Suc n) messyPage 0 = Some ''Intro Hello world. Next one is last!'' \<and>
   (getAllBlocksFromPage k lst pageId = Some blocks \<longrightarrow>
      (\<exists>r. extractPageContent k lst pageId = Some r \<and> normalized r \<and>
         nonWs r = concat (map (\<lambda>b. nonWs (extractTextFromBlock b)) blocks) \<and>
         (normalized (join '' '' (contentParts blocks)) \<longrightarrow>
            r = join '' '' (contentParts blocks))))"
proof -
  have "\<exists>r. extractPageContent k lst pageId = Some r \<and> normalized r \<and>
         nonWs r = concat (map (\<lambda>b. nonWs (extractTextFromBlock b)) blocks) \<and>
         (normalized (join '' '' (contentParts blocks)) \<longrightarrow>
            r = join '' '' (contentParts blocks))"
    if g: "getAllBlocksFromPage k lst pageId = Some blocks"
  proof -
    let ?j = "join '' '' (contentParts blocks)"
    have e: "extractPageContent k lst pageId = Some (normalizeContent ?j)"
      using g by (simp add: extractPageContent_def)
    have "nonWs (normalizeContent ?j) = concat (map (\<lambda>b. nonWs (extractTextFromBlock b)) blocks)"
      by (simp only: normalizeContent_nonWs nonWs_join_space contentParts_nonWs)
    with e normalizeContent_normalized [of ?j] normalizeContent_fix [of ?j]
    show ?thesis by simp
  qed
  with intro_content [of n] messy_content [of n] show ?thesis by blast
qed

theorem extractPageContent_intro_hello_witness:
  "getAllBlocksFromPage (Suc 0) messyPage 0 =
     Some [textBlock 1 ''heading_1'' [''Intro''],
           textBlock 2 ''paragraph'' [''Hello   world .Next'', '' one''],
           textBlock 3 ''paragraph'' [''is last !'', [CHR 0x0A]]] \<and>
   extractPageContent (Suc 0) introPage 0 = Some ''Intro Hello world.'' \<and>
   extractPageContent (Suc 0) messyPage 0 = Some ''Intro Hello world. Next one is last!'' \<and>
   normalized ''Intro Hello world. Next one is last!'' \<and>
   nonWs ''Intro Hello world. Next one is last!'' =
     concat (map (\<lambda>b. nonWs (extractTextFromBlock b))
       [textBlock 1 ''heading_1'' [''Intro''],
        textBlock 2 ''paragraph'' [''Hello   world .Next'', '' one''],
        textBlock 3 ''paragraph'' [''is last !'', [CHR 0x0A]]])"
proof -
  note b = messy_blocks [of 0]
  from extractPageContent_intro_hello [of 0 "Suc 0" messyPage 0
      "[textBlock 1 ''heading_1'' [''Intro''],
        textBlock 2 ''paragraph'' [''Hello   world .Next'', '' one''],
        textBlock 3 ''paragraph'' [''is last !'', [CHR 0x0A]]]"] b
  show ?thesis by auto
qed

section \<open>Properties of the chunking\<close>

lemma searchSentenceEnd_bound:
  "searchSentenceEnd s i searchStart = Some b \<Longrightarrow> searchStart < b \<and> b \<le> i + 1"
  by (induction i) (auto split: if_splits)

lemma lastIndexOf_bound: "lastIndexOf s c i = Some b \<Longrightarrow> b \<le> i"
  by (induction i) (auto split: if_splits)

lemma chunkEndFor_bounds:
  assumes "cur < length s" and "0 < maxLength"
  shows "cur < chunkEndFor s maxLength cur \<and> chunkEndFor s maxLength cur \<le> length s"
proof -
  define ce where "ce = min (cur + maxLength) (length s)"
  have ce: "cur < ce" "ce \<le> length s" using assms by (simp_all add: ce_def)
  have s1: "b \<le> length s" if "searchSentenceEnd s (ce - 1) k = Some b" for k b
    using searchSentenceEnd_bound [OF that] ce by simp
  have s2: "b \<le> length s" if "lastIndexOf s c ce = Some b" for c b
    using lastIndexOf_bound [OF that] ce by simp
  define b1 where "b1 = searchSentenceEnd s (ce - 1) (max cur (ce - 1000))"
  define b2 where "b2 = (case searchSentenceEnd s (ce - 1) (max cur (ce - 2000)) of
                           None \<Rightarrow> b1 | Some b \<Rightarrow> Some b)"
  define ls where "ls = lastIndexOf s (CHR '' '') ce"
  have p1: "\<forall>b. b1 = Some b \<longrightarrow> b \<le> length s"
    using s1 by (auto simp: b1_def)
  have p2: "\<forall>b. b2 = Some b \<longrightarrow> b \<le> length s"
    using s1 p1 by (auto simp: b2_def split: option.splits)
  have p3: "\<forall>b. ls = Some b \<longrightarrow> b \<le> length s"
    using s2 by (auto simp: ls_def)
  have key: "cur < the x \<and> the x \<le> length s"
    if "exceeds x cur" and "\<forall>b. x = Some b \<longrightarrow> b \<le> length s" for x
    using that by (cases x) auto
  have eq: "chunkEndFor s maxLength cur =
      (if ce < length s then
         if exceeds b1 cur then the b1
         else if exceeds b2 cur then the b2
         else if exceeds ls cur then the ls else ce
       else ce)"
    unfolding chunkEndFor_def Let_def
    by (simp only: ce_def [symmetric] b1_def [symmetric] b2_def [symmetric] ls_def [symmetric])
  show ?thesis
    unfolding eq using key [OF _ p1] key [OF _ p2] key [OF _ p3] ce by auto
qed


lemma isSkipped_ws: "isSkipped c \<Longrightarrow> isWhiteSpace c"
  by (auto simp: isSkipped_def isWhiteSpace_def)

lemma nonWs_dropWhile_skipped: "nonWs (dropWhile isSkipped s) = nonWs s"
  by (induction s) (simp_all add: nonWs_def isSkipped_ws)

lemma drop_skipSpaces: "drop (skipSpaces s pos) s = dropWhile isSkipped (drop pos s)"
proof -
  have "drop (skipSpaces s pos) s = drop (length (takeWhile isSkipped (drop pos s))) (drop pos s)"
    by (simp add: skipSpaces_def add.commute)
  also have "\<dots> = dropWhile isSkipped (drop pos s)"
    by (simp add: dropWhile_eq_drop)
  finally show ?thesis .
qed

lemma skipSpaces_ge: "pos \<le> skipSpaces s pos"
  by (simp add: skipSpaces_def)

lemma drop_split: "cur \<le> e \<Longrightarrow> drop cur s = substring s cur e @ drop e s"
proof -
  assume "cur \<le> e"
  then have "drop (e - cur) (drop cur s) = drop e s" by simp
  moreover have "drop cur s = take (e - cur) (drop cur s) @ drop (e - cur) (drop cur s)"
    by (rule append_take_drop_id [symmetric])
  ultimately show ?thesis by (simp only: substring_def)
qed

lemma splitLoop_step:
  assumes "cur < length s" and "0 < maxLength"
  shows "splitLoop s maxLength cur chunks =
           splitLoop s maxLength (skipSpaces s (chunkEndFor s maxLength cur))
             (if trim (substring s cur (chunkEndFor s maxLength cur)) \<noteq> []
              then chunks @ [trim (substring s cur (chunkEndFor s maxLength cur))] else chunks)"
proof -
  have "cur < skipSpaces s (chunkEndFor s maxLength cur)"
    using chunkEndFor_bounds [OF assms] skipSpaces_ge [of "chunkEndFor s maxLength cur" s] by linarith
  then show ?thesis
    using assms(1) by (subst splitLoop.simps) (simp add: Let_def)
qed

lemma splitLoop_nonWs:
  assumes "0 < maxLength"
  shows "\<exists>more. splitLoop s maxLength cur chunks = Some (chunks @ more) \<and>
           nonWs (concat more) = nonWs (drop cur s)"
proof (induction "length s - cur" arbitrary: cur chunks rule: less_induct)
  case less
  show ?case
  proof (cases "cur < length s")
    case False
    then have "splitLoop s maxLength cur chunks = Some (chunks @ [])"
      by (subst splitLoop.simps) simp
    moreover from False have "nonWs (concat []) = nonWs (drop cur s)" by (simp add: nonWs_def)
    ultimately show ?thesis by blast
  next
    case True
    define e where "e = chunkEndFor s maxLength cur"
    define chunk where "chunk = trim (substring s cur e)"
    define cur' where "cur' = skipSpaces s e"
    have e: "cur < e" "e \<le> length s"
      using chunkEndFor_bounds [OF True assms] by (simp_all add: e_def)
    have adv: "cur < cur'" using e skipSpaces_ge [of e s] by (simp add: cur'_def)
    have step: "splitLoop s maxLength cur chunks =
        splitLoop s maxLength cur' (if chunk \<noteq> [] then chunks @ [chunk] else chunks)"
      using splitLoop_step [OF True assms] by (simp add: e_def chunk_def cur'_def)
    from adv True have "length s - cur' < length s - cur" by simp
    from less [OF this] obtain more where
      more: "splitLoop s maxLength cur' (if chunk \<noteq> [] then chunks @ [chunk] else chunks) =
               Some ((if chunk \<noteq> [] then chunks @ [chunk] else chunks) @ more)"
      and nw: "nonWs (concat more) = nonWs (drop cur' s)"
      by blast
    have "nonWs (drop cur s) = nonWs (substring s cur e) @ nonWs (drop e s)"
      using drop_split [of cur e s] e by (simp add: nonWs_append)
    also have "nonWs (drop e s) = nonWs (drop cur' s)"
      by (simp add: cur'_def drop_skipSpaces nonWs_dropWhile_skipped)
    also have "nonWs (substring s cur e) = nonWs chunk"
      by (simp add: chunk_def nonWs_trim)
    finally have tail: "nonWs (drop cur s) = nonWs chunk @ nonWs (concat more)"
      using nw by simp
    show ?thesis
    proof (cases "chunk = []")
      case True
      with step more tail show ?thesis by (auto simp: nonWs_def)
    next
      case False
      with step more have "splitLoop s maxLength cur chunks = Some (chunks @ (chunk # more))"
        by simp
      moreover have "nonWs (concat (chunk # more)) = nonWs (drop cur s)"
        using tail by (simp add: nonWs_append)
      ultimately show ?thesis by blast
    qed
  qed
qed


lemma splitText_nonWs:
  assumes "0 < maxLength"
  shows "\<exists>chunks. splitTextIntoChunks s maxLength = Some chunks \<and> nonWs (concat chunks) = nonWs s"
proof (cases "length s \<le> maxLength")
  case True
  then show ?thesis by (simp add: splitTextIntoChunks_def)
next
  case False
  from splitLoop_nonWs [OF assms, of s 0 "[]"] False show ?thesis
    by (simp add: splitTextIntoChunks_def)
qed
























section \<open>Properties of the block tree fetcher\<close>

lemma fetchResults_served:
  assumes "\<And>t. t \<in> set ts \<Longrightarrow> descends (root t) \<Longrightarrow>
             \<exists>k. \<forall>n\<ge>k. fetchLoop n lst (bid (root t)) [] None =
               Some (concat (map preorder (concat (pages t))))"
  shows "\<exists>k. \<forall>n\<ge>k. \<forall>blocks. fetchResults n lst (map root ts) blocks =
           Some (blocks @ concat (map preorder ts))"
  using assms
proof (induction ts)
  case Nil
  show ?case by simp
next
  case (Cons t ts)
  from Cons obtain k1 where k1: "\<forall>n\<ge>k1. \<forall>blocks. fetchResults n lst (map root ts) blocks =
      Some (blocks @ concat (map preorder ts))"
    by auto
  obtain b pgs where t: "t = Served b pgs" by (cases t)
  show ?case
  proof (cases "descends b")
    case False
    with k1 t have "\<forall>n\<ge>k1. \<forall>blocks. fetchResults n lst (map root (t # ts)) blocks =
        Some (blocks @ concat (map preorder (t # ts)))"
      by simp
    then show ?thesis by blast
  next
    case True
    with Cons.prems [of t] t obtain k2 where
      k2: "\<forall>n\<ge>k2. fetchLoop n lst (bid b) [] None = Some (concat (map preorder (concat pgs)))"
      by auto
    have "\<forall>n\<ge>max k1 k2. \<forall>blocks. fetchResults n lst (map root (t # ts)) blocks =
        Some (blocks @ concat (map preorder (t # ts)))"
      using k1 k2 True t by simp
    then show ?thesis by blast
  qed
qed

lemma fetchLoop_served:
  assumes "servesFrom lst pageId cursor pgs"
    and "\<And>pg. pg \<in> set pgs \<Longrightarrow>
           \<exists>k. \<forall>n\<ge>k. \<forall>blocks. fetchResults n lst (map root pg) blocks =
             Some (blocks @ concat (map preorder pg))"
  shows "\<exists>k. \<forall>n\<ge>k. \<forall>blocks. fetchLoop n lst pageId blocks cursor =
           Some (blocks @ concat (map preorder (concat pgs)))"
  using assms
proof (induction lst pageId cursor pgs rule: servesFrom.induct)
  case (1 lst pageId cursor)
  then show ?case by simp
next
  case (2 lst pageId cursor pg)
  then obtain resp where r: "lst pageId cursor = Inr resp" "results resp = map root pg"
    "\<not> has_more resp"
    by (auto split: sum.splits)
  from 2(2) [of pg] obtain k where
    k: "\<forall>n\<ge>k. \<forall>blocks. fetchResults n lst (map root pg) blocks =
          Some (blocks @ concat (map preorder pg))"
    by auto
  have "\<forall>n\<ge>Suc k. \<forall>blocks. fetchLoop n lst pageId blocks cursor =
      Some (blocks @ concat (map preorder (concat [pg])))"
  proof (intro allI impI)
    fix n blocks
    assume "Suc k \<le> n"
    then obtain m where m: "n = Suc m" "k \<le> m" by (cases n) auto
    with r k show "fetchLoop n lst pageId blocks cursor =
        Some (blocks @ concat (map preorder (concat [pg])))"
      by simp
  qed
  then show ?case by blast
next
  case (3 lst pageId cursor pg pg' pgs)
  then obtain resp where r: "lst pageId cursor = Inr resp" "results resp = map root pg"
    "has_more resp" "servesFrom lst pageId (next_cursor resp) (pg' # pgs)"
    by (auto split: sum.splits)
  from 3(3) [of pg] obtain k1 where
    k1: "\<forall>n\<ge>k1. \<forall>blocks. fetchResults n lst (map root pg) blocks =
          Some (blocks @ concat (map preorder pg))"
    by auto
  from 3(1) [OF r(1) r(4)] 3(3) obtain k2 where
    k2: "\<forall>n\<ge>k2. \<forall>blocks. fetchLoop n lst pageId blocks (next_cursor resp) =
          Some (blocks @ concat (map preorder (concat (pg' # pgs))))"
    by auto
  have "\<forall>n\<ge>Suc (max k1 k2). \<forall>blocks. fetchLoop n lst pageId blocks cursor =
      Some (blocks @ concat (map preorder (concat (pg # pg' # pgs))))"
  proof (intro allI impI)
    fix n blocks
    assume "Suc (max k1 k2) \<le> n"
    then obtain m where m: "n = Suc m" "k1 \<le> m" "k2 \<le> m" by (cases n) auto
    with r k1 k2 show "fetchLoop n lst pageId blocks cursor =
        Some (blocks @ concat (map preorder (concat (pg # pg' # pgs))))"
      by simp
  qed
  then show ?case by blast
qed

lemma served_subtree:
  "servesTree lst t \<Longrightarrow> descends (root t) \<Longrightarrow>
     \<exists>k. \<forall>n\<ge>k. fetchLoop n lst (bid (root t)) [] None =
       Some (concat (map preorder (concat (pages t))))"
proof (induction t)
  case (Served b pgs)
  then have sv: "servesFrom lst (bid b) None pgs" and all: "list_all (list_all (servesTree lst)) pgs"
    by simp_all
  have "\<exists>k. \<forall>n\<ge>k. \<forall>blocks. fetchResults n lst (map root pg) blocks =
      Some (blocks @ concat (map preorder pg))" if pg: "pg \<in> set pgs" for pg
  proof (rule fetchResults_served)
    fix t
    assume t: "t \<in> set pg" and d: "descends (root t)"
    from all pg t have "servesTree lst t" by (auto simp: list_all_iff)
    with Served.IH [OF pg t] d
    show "\<exists>k. \<forall>n\<ge>k. fetchLoop n lst (bid (root t)) [] None =
        Some (concat (map preorder (concat (pages t))))"
      by blast
  qed
  from fetchLoop_served [OF sv this] obtain k where
    "\<forall>n\<ge>k. \<forall>blocks. fetchLoop n lst (bid b) blocks None =
       Some (blocks @ concat (map preorder (concat pgs)))"
    by blast
  then have "\<forall>n\<ge>k. fetchLoop n lst (bid b) [] None = Some (concat (map preorder (concat pgs)))"
    by simp
  then show ?case by auto
qed

lemma fetch_error_keeps_collected:
  "lst pageId cursor = Inl err \<Longrightarrow> fetchLoop (Suc n) lst pageId blocks cursor = Some blocks"
  by simp

text \<open>
  Claim C1.  When the provider serves the pages \<open>pgs\<close> for the container and, below
  it, the children of every block that the walk descends into (no listing call fails),
  \<^verbatim>\<open>getAllBlocksFromPage\<close> returns for every sufficient fuel, and what it returns is the
  pre-order walk: the blocks of the pages in the provider's order, each directly followed
  by the walk of its own children, child_page and child_database blocks and blocks
  without children listed as leaves.
\<close>

theorem getAllBlocksFromPage_preorder:
  assumes "wellServed lst pageId pgs"
  shows "\<exists>k. \<forall>n\<ge>k. getAllBlocksFromPage n lst pageId =
           Some (concat (map preorder (concat pgs)))"
proof -
  from assms have sv: "servesFrom lst pageId None pgs"
    and all: "list_all (list_all (servesTree lst)) pgs"
    by (simp_all add: wellServed_def)
  have "\<exists>k. \<forall>n\<ge>k. \<forall>blocks. fetchResults n lst (map root pg) blocks =
      Some (blocks @ concat (map preorder pg))" if pg: "pg \<in> set pgs" for pg
  proof (rule fetchResults_served)
    fix t
    assume t: "t \<in> set pg" and d: "descends (root t)"
    from all pg t have "servesTree lst t" by (auto simp: list_all_iff)
    then show "\<exists>k. \<forall>n\<ge>k. fetchLoop n lst (bid (root t)) [] None =
        Some (concat (map preorder (concat (pages t))))"
      using d by (rule served_subtree)
  qed
  from fetchLoop_served [OF sv this] obtain k where
    "\<forall>n\<ge>k. \<forall>blocks. fetchLoop n lst pageId blocks None =
       Some (blocks @ concat (map preorder (concat pgs)))"
    by blast
  then have "\<forall>n\<ge>k. getAllBlocksFromPage n lst pageId = Some (concat (map preorder (concat pgs)))"
    by (simp add: getAllBlocksFromPage_def)
  then show ?thesis by blast
qed

theorem getAllBlocksFromPage_preorder_witness:
  "wellServed demoLister 0 demoPages \<and>
   concat (map preorder (concat demoPages)) =
     [plainBlock 1 ''toggle'' True, plainBlock 3 ''paragraph'' False,
      plainBlock 2 ''child_page'' True] \<and>
   (\<exists>k. \<forall>n\<ge>k. getAllBlocksFromPage n demoLister 0 =
      Some [plainBlock 1 ''toggle'' True, plainBlock 3 ''paragraph'' False,
            plainBlock 2 ''child_page'' True])"
proof -
  have w: "wellServed demoLister 0 demoPages"
    by (simp add: wellServed_def demoPages_def demoLister_def descends_def plainBlock_def)
  have p: "concat (map preorder (concat demoPages)) =
     [plainBlock 1 ''toggle'' True, plainBlock 3 ''paragraph'' False,
      plainBlock 2 ''child_page'' True]"
    by (simp add: demoPages_def descends_def plainBlock_def)
  from getAllBlocksFromPage_preorder [OF w] w p show ?thesis by simp
qed

section \<open>Properties of the text substitution\<close>

lemma isSyntaxCharacter_escaped: "isSyntaxCharacter c = isRegExpSpecial c"
  by (auto simp: isSyntaxCharacter_def isRegExpSpecial_def)

lemma patternLiteral_escapeRegExp: "patternLiteral (escapeRegExp s) = Some s"
proof (induction s)
  case Nil
  show ?case by simp
next
  case (Cons c cs)
  show ?case
  proof (cases "isRegExpSpecial c")
    case True
    with Cons show ?thesis by (simp add: isSyntaxCharacter_escaped)
  next
    case False
    then have "c \<noteq> CHR 0x5C" by (auto simp: isRegExpSpecial_def)
    with False Cons show ?thesis
      by (cases "escapeRegExp cs") (simp_all add: isSyntaxCharacter_escaped)
  qed
qed

lemma regexReplaceAll_scan:
  "regexReplaceAll searchText rep s = Some (replaceScan searchText rep [] s)"
  by (simp add: regexReplaceAll_def patternLiteral_escapeRegExp)

lemma getSubstitution_plain:
  "CHR ''$'' \<notin> set rep \<Longrightarrow> getSubstitution matched pre post rep = rep"
  by (induction matched pre post rep rule: getSubstitution.induct) auto

lemma replaceScan_plain:
  "lit \<noteq> [] \<Longrightarrow> CHR ''$'' \<notin> set rep \<Longrightarrow> replaceScan lit rep pre s = replaceEvery lit rep s"
  by (induction lit rep pre s rule: replaceScan.induct) (simp_all add: getSubstitution_plain)

lemma join_Cons_nonempty: "ps \<noteq> [] \<Longrightarrow> join sep (p # ps) = p @ sep @ join sep ps"
  by (cases ps) simp_all

lemma join_head_Cons: "ps \<noteq> [] \<Longrightarrow> join sep ((c # hd ps) # tl ps) = c # join sep ps"
proof (cases ps)
  case Nil
  assume "ps \<noteq> []"
  with Nil show ?thesis by simp
next
  case (Cons p ps')
  then show ?thesis by (cases ps') simp_all
qed

lemma sublist_Cons_iff: "sublist lit (c # p) \<longleftrightarrow> prefix lit (c # p) \<or> sublist lit p"
  by (simp add: sublist_Cons_right)

lemma replaceEvery_split_join:
  assumes "lit \<noteq> []"
  shows "\<exists>ps. ps \<noteq> [] \<and> s = join lit ps \<and> list_all (\<lambda>p. \<not> sublist lit p) ps \<and>
           replaceEvery lit rep s = join rep ps"
proof (induction "length s" arbitrary: s rule: less_induct)
  case less
  show ?case
  proof (cases s)
    case Nil
    have "[[]] \<noteq> [] \<and> s = join lit [[]] \<and> list_all (\<lambda>p. \<not> sublist lit p) [[]] \<and>
        replaceEvery lit rep s = join rep [[]]"
      using Nil assms by simp
    then show ?thesis by blast
  next
    case (Cons c cs)
    show ?thesis
    proof (cases "prefix lit (c # cs)")
      case True
      define rest where "rest = drop (length lit) (c # cs)"
      have s: "s = lit @ rest"
        using True Cons by (auto simp: rest_def prefix_def)
      with assms(1) have "length rest < length s" by simp
      from less [OF this] obtain ps where ps: "ps \<noteq> []" "rest = join lit ps"
        "list_all (\<lambda>p. \<not> sublist lit p) ps" "replaceEvery lit rep rest = join rep ps"
        by blast
      have "replaceEvery lit rep s = rep @ replaceEvery lit rep rest"
        using True Cons assms by (simp add: rest_def)
      with ps s assms(1) have "[] # ps \<noteq> [] \<and> s = join lit ([] # ps) \<and>
          list_all (\<lambda>p. \<not> sublist lit p) ([] # ps) \<and>
          replaceEvery lit rep s = join rep ([] # ps)"
        by (simp add: join_Cons_nonempty)
      then show ?thesis by blast
    next
      case False
      from Cons have "length cs < length s" by simp
      from less [OF this] obtain ps where ps: "ps \<noteq> []" "cs = join lit ps"
        "list_all (\<lambda>p. \<not> sublist lit p) ps" "replaceEvery lit rep cs = join rep ps"
        by blast
      define qs where "qs = (c # hd ps) # tl ps"
      have eq: "replaceEvery lit rep s = c # replaceEvery lit rep cs"
        using False Cons assms by simp
      have j1: "join lit qs = c # join lit ps" and j2: "join rep qs = c # join rep ps"
        using ps(1) by (simp_all add: qs_def join_head_Cons)
      have hd_pre: "prefix (hd ps) (join lit ps)"
      proof (cases ps)
        case Nil
        with ps(1) show ?thesis by simp
      next
        case (Cons p ps')
        then show ?thesis by (cases ps') simp_all
      qed
      have "\<not> prefix lit (c # hd ps)"
      proof
        assume "prefix lit (c # hd ps)"
        moreover have "prefix (c # hd ps) (c # cs)" using hd_pre ps(2) by simp
        ultimately have "prefix lit (c # cs)" by (rule prefix_order.trans)
        with False show False by simp
      qed
      moreover have "\<not> sublist lit (hd ps)" and "list_all (\<lambda>p. \<not> sublist lit p) (tl ps)"
        using ps(1,3) by (cases ps; simp)+
      ultimately have "list_all (\<lambda>p. \<not> sublist lit p) qs"
        by (simp add: qs_def sublist_Cons_iff)
      with j1 j2 eq ps Cons have "qs \<noteq> [] \<and> s = join lit qs \<and>
          list_all (\<lambda>p. \<not> sublist lit p) qs \<and> replaceEvery lit rep s = join rep qs"
        by (simp add: qs_def)
      then show ?thesis by blast
    qed
  qed
qed

lemma replaceScan_empty: "searchText \<noteq> [] \<Longrightarrow> replaceScan searchText rep pre [] = []"
  by simp

lemma replaceContent_result:
  assumes "f = (\<lambda>s. replaceScan searchText rep [] s)" and e: "f [] = []"
  shows "\<exists>m. replaceContent searchText rep item =
           Some (m, item\<lparr>rt_text := (if rt_type item = ''text''
                    then map_option (\<lambda>t. t\<lparr>content := f (content t)\<rparr>) (rt_text item)
                    else rt_text item)\<rparr>) \<and>
         (\<not> m \<longrightarrow> item\<lparr>rt_text := (if rt_type item = ''text''
                    then map_option (\<lambda>t. t\<lparr>content := f (content t)\<rparr>) (rt_text item)
                    else rt_text item)\<rparr> = item)"
proof (cases "rt_text item")
  case None
  then have "replaceContent searchText rep item = Some (False, item)"
    by (simp add: replaceContent_def)
  with None show ?thesis by auto
next
  case (Some t)
  have r: "regexReplaceAll searchText rep (content t) = Some (f (content t))"
    by (simp add: regexReplaceAll_scan assms(1))
  show ?thesis
  proof (cases "rt_type item = ''text'' \<and> content t \<noteq> []")
    case False
    with Some e show ?thesis by (auto simp: replaceContent_def)
  next
    case True
    with Some r show ?thesis by (cases "content t = f (content t)") (auto simp: replaceContent_def)
  qed
qed

lemma replaceLinkUrl_result:
  assumes "f = (\<lambda>s. replaceScan searchText rep [] s)" and e: "f [] = []"
    and x0: "rt_text x = None \<longleftrightarrow> rt_text item = None"
    and x1: "\<And>t. rt_text x = Some t \<Longrightarrow> link t = link (the (rt_text item))"
  shows "\<exists>m. replaceLinkUrl searchText rep item x =
           Some (m, x\<lparr>rt_text := (if rt_type item = ''text''
                    then map_option (\<lambda>t1. t1\<lparr>link := map_option (\<lambda>l. l\<lparr>url := f (url l)\<rparr>) (link t1)\<rparr>)
                           (rt_text x)
                    else rt_text x)\<rparr>) \<and>
         (\<not> m \<longrightarrow> x\<lparr>rt_text := (if rt_type item = ''text''
                    then map_option (\<lambda>t1. t1\<lparr>link := map_option (\<lambda>l. l\<lparr>url := f (url l)\<rparr>) (link t1)\<rparr>)
                           (rt_text x)
                    else rt_text x)\<rparr> = x)"
proof (cases "rt_text item")
  case None
  with x0 have "replaceLinkUrl searchText rep item x = Some (False, x)" "rt_text x = None"
    by (simp_all add: replaceLinkUrl_def)
  then show ?thesis by auto
next
  case (Some t)
  with x0 x1 obtain t' where t': "rt_text x = Some t'" "link t' = link t" by auto
  show ?thesis
  proof (cases "link t")
    case None
    with Some t' show ?thesis by (auto simp: replaceLinkUrl_def)
  next
    case l: (Some l)
    have r: "regexReplaceAll searchText rep (url l) = Some (f (url l))"
      by (simp add: regexReplaceAll_scan assms(1))
    show ?thesis
    proof (cases "rt_type item = ''text'' \<and> url l \<noteq> []")
      case False
      with Some l t' e show ?thesis by (auto simp: replaceLinkUrl_def)
    next
      case True
      with Some l t' r show ?thesis
        by (cases "url l = f (url l)") (auto simp: replaceLinkUrl_def)
    qed
  qed
qed

lemma replaceHref_result:
  assumes "f = (\<lambda>s. replaceScan searchText rep [] s)" and e: "f [] = []"
    and x0: "href x = href item"
  shows "\<exists>m. replaceHref searchText rep item x = Some (m, x\<lparr>href := map_option f (href item)\<rparr>) \<and>
         (\<not> m \<longrightarrow> x\<lparr>href := map_option f (href item)\<rparr> = x)"
proof (cases "href item")
  case None
  with x0 have "replaceHref searchText rep item x = Some (False, x)" "href x = None"
    by (simp_all add: replaceHref_def)
  with None show ?thesis by auto
next
  case (Some h)
  have r: "regexReplaceAll searchText rep h = Some (f h)"
    by (simp add: regexReplaceAll_scan assms(1))
  show ?thesis
  proof (cases "h = []")
    case True
    with Some x0 e show ?thesis by (auto simp: replaceHref_def)
  next
    case False
    with Some x0 r show ?thesis by (cases "h = f h") (auto simp: replaceHref_def)
  qed
qed

lemma replaceItem_result:
  assumes ne: "searchText \<noteq> []"
  shows "\<exists>m. replaceItem searchText rep item =
           Some (m, mapSpanTexts (\<lambda>s. replaceScan searchText rep [] s) item) \<and>
         (\<not> m \<longrightarrow> mapSpanTexts (\<lambda>s. replaceScan searchText rep [] s) item = item)"
proof -
  define f where "f = (\<lambda>s. replaceScan searchText rep [] s)"
  have e: "f [] = []" using ne by (simp add: f_def)
  define x1 where "x1 = item\<lparr>rt_text := (if rt_type item = ''text''
                    then map_option (\<lambda>t. t\<lparr>content := f (content t)\<rparr>) (rt_text item)
                    else rt_text item)\<rparr>"
  define x2 where "x2 = x1\<lparr>rt_text := (if rt_type item = ''text''
                    then map_option (\<lambda>t1. t1\<lparr>link := map_option (\<lambda>l. l\<lparr>url := f (url l)\<rparr>) (link t1)\<rparr>)
                           (rt_text x1)
                    else rt_text x1)\<rparr>"
  define x3 where "x3 = x2\<lparr>href := map_option f (href item)\<rparr>"
  from replaceContent_result [OF f_def e, of item] obtain m1 where
    s1: "replaceContent searchText rep item = Some (m1, x1)" and u1: "\<not> m1 \<longrightarrow> x1 = item"
    unfolding x1_def by blast
  have p1: "rt_text x1 = None \<longleftrightarrow> rt_text item = None" by (simp add: x1_def)
  have p2: "link t = link (the (rt_text item))" if "rt_text x1 = Some t" for t
    using that by (cases "rt_text item") (auto simp: x1_def split: if_splits)
  from replaceLinkUrl_result [OF f_def e p1 p2] obtain m2 where
    s2: "replaceLinkUrl searchText rep item x1 = Some (m2, x2)" and u2: "\<not> m2 \<longrightarrow> x2 = x1"
    unfolding x2_def by blast
  have "href x2 = href item" by (simp add: x2_def x1_def)
  from replaceHref_result [OF f_def e this] obtain m3 where
    s3: "replaceHref searchText rep item x2 = Some (m3, x3)" and u3: "\<not> m3 \<longrightarrow> x3 = x2"
    unfolding x3_def by blast
  have r: "replaceItem searchText rep item = Some (m1 \<or> m2 \<or> m3, x3)"
    by (simp add: replaceItem_def s1 s2 s3)
  have x: "x3 = mapSpanTexts f item"
    by (cases "rt_text item") (simp_all add: x3_def x2_def x1_def mapSpanTexts_def)
  from u1 u2 u3 have "\<not> (m1 \<or> m2 \<or> m3) \<longrightarrow> x3 = item" by simp
  with r x show ?thesis unfolding f_def by blast
qed

lemma those_map:
  "(\<And>x. x \<in> set xs \<Longrightarrow> \<exists>m. g x = Some (m, h x) \<and> (\<not> m \<longrightarrow> h x = x)) \<Longrightarrow>
     \<exists>ms. those (map g xs) = Some (zip ms (map h xs)) \<and> length ms = length xs \<and>
       (\<not> list_ex (\<lambda>m. m) ms \<longrightarrow> map h xs = xs)"
proof (induction xs)
  case Nil
  show ?case by simp
next
  case (Cons x xs)
  from Cons.prems [of x] obtain m where m: "g x = Some (m, h x)" "\<not> m \<longrightarrow> h x = x" by auto
  from Cons.IH Cons.prems obtain ms where
    ms: "those (map g xs) = Some (zip ms (map h xs))" "length ms = length xs"
      "\<not> list_ex (\<lambda>m. m) ms \<longrightarrow> map h xs = xs"
    by auto
  from m ms have "those (map g (x # xs)) = Some (zip (m # ms) (map h (x # xs))) \<and>
      length (m # ms) = length (x # xs) \<and>
      (\<not> list_ex (\<lambda>m. m) (m # ms) \<longrightarrow> map h (x # xs) = x # xs)"
    by simp
  then show ?case by (rule exI)
qed

lemma searchAndReplace_result:
  assumes ne: "searchText \<noteq> []"
  shows "\<exists>m. searchAndReplaceInRichText spans searchText rep =
           Some (m, map (mapSpanTexts (\<lambda>s. replaceScan searchText rep [] s)) spans) \<and>
         (\<not> m \<longrightarrow> map (mapSpanTexts (\<lambda>s. replaceScan searchText rep [] s)) spans = spans)"
proof -
  let ?h = "mapSpanTexts (\<lambda>s. replaceScan searchText rep [] s)"
  from those_map [of spans "replaceItem searchText rep" ?h] replaceItem_result [OF ne]
  obtain ms where ms: "those (map (replaceItem searchText rep) spans) = Some (zip ms (map ?h spans))"
    "length ms = length spans" "\<not> list_ex (\<lambda>m. m) ms \<longrightarrow> map ?h spans = spans"
    by blast
  from ms(2) have z: "map snd (zip ms (map ?h spans)) = map ?h spans"
    "list_ex fst (zip ms (map ?h spans)) = list_ex (\<lambda>m. m) ms"
    by (simp_all add: list_ex_iff set_zip) (metis in_set_conv_nth length_map)
  from ms(1) z have "searchAndReplaceInRichText spans searchText rep =
      Some (list_ex (\<lambda>m. m) ms, map ?h spans)"
    by (simp add: searchAndReplaceInRichText_def)
  with ms(3) show ?thesis by blast
qed

lemma extractSpans_richText:
  "btype b \<in> richTextTypes \<union> {''to_do'', ''code''} \<Longrightarrow> rich_text b = Some spans \<Longrightarrow>
     extractSpansFromBlock b = spans"
  by (auto simp: extractSpansFromBlock_def)

lemma updateDataFor_richText:
  "btype b \<in> richTextTypes \<union> {''to_do'', ''code''} \<Longrightarrow>
     \<exists>req. updateDataFor b upd = Some req \<and> req_block_id req = bid b \<and> req_rich_text req = upd"
  by (auto simp: updateDataFor_def)

lemma processBlock_stores:
  assumes ty: "btype b \<in> richTextTypes \<union> {''to_do'', ''code''}"
    and rt: "rich_text b = Some spans"
    and ne: "searchText \<noteq> []"
  shows "\<exists>res. processBlock blocks_update b searchText rep = Some res \<and>
           rich_text (foldl applyUpdate b (snd res)) =
             Some (map (mapSpanTexts (\<lambda>s. replaceScan searchText rep [] s)) spans)"
proof -
  let ?h = "mapSpanTexts (\<lambda>s. replaceScan searchText rep [] s)"
  note ex = extractSpans_richText [OF ty rt]
  show ?thesis
  proof (cases "spans = []")
    case True
    with ex rt show ?thesis by (simp add: processBlock_def)
  next
    case False
    from searchAndReplace_result [OF ne, of spans rep] obtain m where
      sr: "searchAndReplaceInRichText spans searchText rep = Some (m, map ?h spans)"
      and un: "\<not> m \<longrightarrow> map ?h spans = spans"
      by blast
    show ?thesis
    proof (cases m)
      case False
      with sr un ex rt \<open>spans \<noteq> []\<close> show ?thesis by (simp add: processBlock_def)
    next
      case True
      from updateDataFor_richText [OF ty, of "map ?h spans"] obtain req where
        req: "updateDataFor b (map ?h spans) = Some req" "req_block_id req = bid b"
          "req_rich_text req = map ?h spans"
        by blast
      have "\<exists>r. processBlock blocks_update b searchText rep = Some (r, [req])"
        using True sr ex req(1) \<open>spans \<noteq> []\<close>
        by (cases "blocks_update req") (simp_all add: processBlock_def)
      with req show ?thesis by (auto simp: applyUpdate_def)
    qed
  qed
qed

lemma table_row_found_not_written:
  "btype b = ''table_row'' \<Longrightarrow> processBlock blocks_update b searchText rep = Some res \<Longrightarrow>
     snd res = []"
  by (auto simp: processBlock_def updateDataFor_def richTextTypes_def Let_def
      split: prod.splits option.splits if_splits)

text \<open>
  Claim C5.  The transform is to put the replacement text in the place of every
  occurrence of the search text.  With search text "foo" and replacement text "$$" the
  paragraph "foo is foofoo" is to become "$$ is $$$$"; the update that \<^verbatim>\<open>processBlock\<close>
  sends holds "$ is $$".  The search text is escaped before it is made a pattern, the
  replacement text is handed to \<^verbatim>\<open>replace\<close> as it is, which expands a dollar sign
  followed by a dollar sign, an ampersand, a backquote or a quote.
\<close>

theorem replacement_dollar_expanded:
  "map_option (\<lambda>res. map (\<lambda>req. map (\<lambda>item. map_option content (rt_text item)) (req_rich_text req))
       (snd res))
     (processBlock (\<lambda>req. None) (textBlock 1 ''paragraph'' [''foo is foofoo'']) ''foo'' ''$$'') =
     Some [[Some ''$ is $$'']] \<and>
   map (\<lambda>item. map_option content (rt_text item))
     (map (replaceInSpan ''foo'' ''$$'') [textSpan ''foo is foofoo'']) = [Some ''$$ is $$$$'']"
  by code_simp

text \<open>
  Where the transform does what the specification says.  For a non-empty search text, a
  replacement text without a dollar sign and a block whose payload is a list of
  rich-text spans (paragraph, the headings, the list items, toggle, quote, callout,
  to_do, code), \<^verbatim>\<open>processBlock\<close> returns, and the spans the provider holds afterwards are
  the original spans, in number and order, each with every occurrence of the search
  text replaced in the content and the link URL of a text span and in the href.
  Replacing is global, exact and case-sensitive: the text is the pieces between the
  occurrences joined by the search text, no piece contains the search text, and the
  result is the same pieces joined by the replacement.
\<close>

theorem processBlock_replaces_every_occurrence:
  assumes "searchText \<noteq> []" and "CHR ''$'' \<notin> set rep"
  shows "(btype b \<in> richTextTypes \<union> {''to_do'', ''code''} \<and> rich_text b = Some spans \<longrightarrow>
            (\<exists>res. processBlock blocks_update b searchText rep = Some res \<and>
               rich_text (foldl applyUpdate b (snd res)) =
                 Some (map (replaceInSpan searchText rep) spans)) \<and>
            length (map (replaceInSpan searchText rep) spans) = length spans) \<and>
         (\<exists>ps. s = join searchText ps \<and> list_all (\<lambda>p. \<not> sublist searchText p) ps \<and>
            replaceEvery searchText rep s = join rep ps \<and>
            regexReplaceAll searchText rep s = Some (join rep ps))"
proof -
  have f: "(\<lambda>s. replaceScan searchText rep [] s) = replaceEvery searchText rep"
    using replaceScan_plain [OF assms] by auto
  from replaceEvery_split_join [OF assms(1), of s rep] obtain ps where
    ps: "s = join searchText ps" "list_all (\<lambda>p. \<not> sublist searchText p) ps"
      "replaceEvery searchText rep s = join rep ps"
    by blast
  have "regexReplaceAll searchText rep s = Some (join rep ps)"
    using ps(3) replaceScan_plain [OF assms, of "[]" s] by (simp add: regexReplaceAll_scan)
  with ps have 2: "\<exists>ps. s = join searchText ps \<and> list_all (\<lambda>p. \<not> sublist searchText p) ps \<and>
            replaceEvery searchText rep s = join rep ps \<and>
            regexReplaceAll searchText rep s = Some (join rep ps)"
    by blast
  have 1: "\<exists>res. processBlock blocks_update b searchText rep = Some res \<and>
               rich_text (foldl applyUpdate b (snd res)) =
                 Some (map (replaceInSpan searchText rep) spans)"
    if "btype b \<in> richTextTypes \<union> {''to_do'', ''code''}" "rich_text b = Some spans"
    using processBlock_stores [OF that assms(1), of blocks_update rep]
    by (simp add: replaceInSpan_def f)
  from 1 2 show ?thesis by simp
qed

theorem processBlock_replaces_every_occurrence_witness:
  "''cat'' \<noteq> [] \<and> CHR ''$'' \<notin> set ''dog'' \<and>
   btype (textBlock 5 ''to_do'' [''Cat category'', ''cat'']) \<in> richTextTypes \<union> {''to_do'', ''code''} \<and>
   (\<exists>res. processBlock (\<lambda>req. None) (textBlock 5 ''to_do'' [''Cat category'', ''cat''])
             ''cat'' ''dog'' = Some res \<and>
      map (\<lambda>item. map_option content (rt_text item))
        (the (rich_text (foldl applyUpdate (textBlock 5 ''to_do'' [''Cat category'', ''cat''])
           (snd res)))) = [Some ''Cat dogegory'', Some ''dog'']) \<and>
   (\<exists>ps. ''Cat category'' = join ''cat'' ps \<and> list_all (\<lambda>p. \<not> sublist ''cat'' p) ps \<and>
      regexReplaceAll ''cat'' ''dog'' ''Cat category'' = Some (join ''dog'' ps)) \<and>
   map_option (\<lambda>res. map (\<lambda>req. map (\<lambda>item. map_option content (rt_text item)) (req_rich_text req))
       (snd res))
     (processBlock (\<lambda>req. None) (textBlock 1 ''paragraph'' [''foo is foofoo'']) ''foo'' ''bar'') =
     Some [[Some ''bar is barbar'']]"
proof -
  have ne: "''cat'' \<noteq> []" and nd: "CHR ''$'' \<notin> set ''dog''" by simp_all
  have ty: "btype (textBlock 5 ''to_do'' [''Cat category'', ''cat'']) \<in>
      richTextTypes \<union> {''to_do'', ''code''}"
    by (simp add: textBlock_def)
  have rt: "rich_text (textBlock 5 ''to_do'' [''Cat category'', ''cat'']) =
      Some [textSpan ''Cat category'', textSpan ''cat'']"
    by (simp add: textBlock_def)
  have r: "replaceEvery ''cat'' ''dog'' ''Cat category'' = ''Cat dogegory''"
    "replaceEvery ''cat'' ''dog'' ''cat'' = ''dog''"
    by simp_all
  from processBlock_replaces_every_occurrence [OF ne nd,
      of "textBlock 5 ''to_do'' [''Cat category'', ''cat'']"
         "[textSpan ''Cat category'', textSpan ''cat'']" "\<lambda>req. None" "''Cat category''"] ty rt
  obtain res ps where
    a: "processBlock (\<lambda>req. None) (textBlock 5 ''to_do'' [''Cat category'', ''cat''])
          ''cat'' ''dog'' = Some res"
      "rich_text (foldl applyUpdate (textBlock 5 ''to_do'' [''Cat category'', ''cat''])
         (snd res)) =
       Some (map (replaceInSpan ''cat'' ''dog'') [textSpan ''Cat category'', textSpan ''cat''])"
    and b: "''Cat category'' = join ''cat'' ps" "list_all (\<lambda>p. \<not> sublist ''cat'' p) ps"
      "regexReplaceAll ''cat'' ''dog'' ''Cat category'' = Some (join ''dog'' ps)"
    by blast
  from a(2) have c: "map (\<lambda>item. map_option content (rt_text item))
        (the (rich_text (foldl applyUpdate (textBlock 5 ''to_do'' [''Cat category'', ''cat''])
           (snd res)))) = [Some ''Cat dogegory'', Some ''dog'']"
    by (simp add: replaceInSpan_def mapSpanTexts_def textSpan_def r)
  have e3: "map_option (\<lambda>res. map (\<lambda>req. map (\<lambda>item. map_option content (rt_text item))
       (req_rich_text req)) (snd res))
     (processBlock (\<lambda>req. None) (textBlock 1 ''paragraph'' [''foo is foofoo'']) ''foo'' ''bar'') =
     Some [[Some ''bar is barbar'']]"
    by code_simp
  from a(1) c have e1: "\<exists>res. processBlock (\<lambda>req. None) (textBlock 5 ''to_do'' [''Cat category'', ''cat''])
             ''cat'' ''dog'' = Some res \<and>
      map (\<lambda>item. map_option content (rt_text item))
        (the (rich_text (foldl applyUpdate (textBlock 5 ''to_do'' [''Cat category'', ''cat''])
           (snd res)))) = [Some ''Cat dogegory'', Some ''dog'']"
    by (intro exI [of _ res] conjI)
  from b have e2: "\<exists>ps. ''Cat category'' = join ''cat'' ps \<and>
      list_all (\<lambda>p. \<not> sublist ''cat'' p) ps \<and>
      regexReplaceAll ''cat'' ''dog'' ''Cat category'' = Some (join ''dog'' ps)"
    by (intro exI [of _ ps] conjI)
  show ?thesis
    by (rule conjI [OF ne conjI [OF nd conjI [OF ty conjI [OF e1 conjI [OF e2 e3]]]]])
qed

section \<open>Properties of the field writer\<close>










section \<open>Properties of the workspace operations\<close>

lemma ids_append: "ids (a @ b) = ids a @ ids b"
  by (induction a rule: ids.induct) simp_all

lemma find_kids_None: "find_kids i ns = None \<longleftrightarrow> i \<notin> set (ids ns)"
  by (induction i ns rule: find_kids.induct) (auto split: option.splits)

lemma find_kids_ids:
  "find_kids p ns = Some ks \<Longrightarrow>
     \<exists>pre post. ids ns = pre @ ids ks @ post \<and> p \<in> set pre \<and>
       (\<forall>f. ids (update_kids p f ns) = pre @ ids (f ks) @ post)"
proof (induction p ns rule: find_kids.induct)
  case (1 i)
  then show ?case by simp
next
  case (2 i b ks0 rest)
  show ?case
  proof (cases "bid b = i")
    case True
    with 2(3) have "ks0 = ks" by simp
    with True have "ids (Node b ks0 # rest) = [i] @ ids ks @ ids rest \<and> i \<in> set [i] \<and>
        (\<forall>f. ids (update_kids i f (Node b ks0 # rest)) = [i] @ ids (f ks) @ ids rest)"
      by simp
    then show ?thesis by blast
  next
    case False
    show ?thesis
    proof (cases "find_kids i ks0")
      case (Some r)
      with False 2(3) have "r = ks" by simp
      with 2(1) [OF False] Some obtain pre post where
        pp: "ids ks0 = pre @ ids ks @ post" "i \<in> set pre"
        "\<forall>f. ids (update_kids i f ks0) = pre @ ids (f ks) @ post"
        by blast
      from Some have "i \<in> set (ids ks0)" using find_kids_None [of i ks0] by simp
      with False pp have "ids (Node b ks0 # rest) = (bid b # pre) @ ids ks @ (post @ ids rest) \<and>
          i \<in> set (bid b # pre) \<and>
          (\<forall>f. ids (update_kids i f (Node b ks0 # rest)) =
             (bid b # pre) @ ids (f ks) @ (post @ ids rest))"
        by simp
      then show ?thesis by blast
    next
      case None
      with False 2(3) have f: "find_kids i rest = Some ks" by simp
      from 2(2) [OF False None f] obtain pre post where
        pp: "ids rest = pre @ ids ks @ post" "i \<in> set pre"
        "\<forall>f. ids (update_kids i f rest) = pre @ ids (f ks) @ post"
        by blast
      from None have "i \<notin> set (ids ks0)" by (simp add: find_kids_None)
      with False pp have "ids (Node b ks0 # rest) = (bid b # ids ks0 @ pre) @ ids ks @ post \<and>
          i \<in> set (bid b # ids ks0 @ pre) \<and>
          (\<forall>f. ids (update_kids i f (Node b ks0 # rest)) =
             (bid b # ids ks0 @ pre) @ ids (f ks) @ post)"
        by simp
      then show ?thesis by blast
    qed
  qed
qed

lemma find_kids_subset: "find_kids p ns = Some ks \<Longrightarrow> set (ids ks) \<subseteq> set (ids ns)"
  using find_kids_ids [of p ns ks] by auto

lemma update_kids_keeps_id: "p \<in> set (ids ns) \<Longrightarrow> p \<in> set (ids (update_kids p f ns))"
proof -
  assume "p \<in> set (ids ns)"
  then obtain ks where "find_kids p ns = Some ks"
    using find_kids_None [of p ns] by (cases "find_kids p ns") auto
  from find_kids_ids [OF this] show ?thesis by auto
qed

lemma update_kids_absent: "p \<notin> set (ids ns) \<Longrightarrow> update_kids p f ns = ns"
  by (induction p f ns rule: update_kids.induct) auto

lemma update_kids_find:
  "find_kids p (update_kids p f ns) = map_option f (find_kids p ns)"
proof (induction p f ns rule: update_kids.induct)
  case (1 i f)
  show ?case by simp
next
  case (2 i f b ks rest)
  show ?case
  proof (cases "bid b = i")
    case True
    then show ?thesis by simp
  next
    case False
    show ?thesis
    proof (cases "i \<in> set (ids ks)")
      case True
      then obtain r where r: "find_kids i ks = Some r"
        using find_kids_None [of i ks] by (cases "find_kids i ks") auto
      with 2(1) [OF False True] False True show ?thesis by simp
    next
      case nin: False
      then have "find_kids i ks = None" by (simp add: find_kids_None)
      with 2(2) [OF False nin] False nin show ?thesis by simp
    qed
  qed
qed

lemma update_kids_compose:
  "update_kids p f (update_kids p g ns) = update_kids p (\<lambda>ks. f (g ks)) ns"
proof (induction p g ns rule: update_kids.induct)
  case (1 i g)
  show ?case by simp
next
  case (2 i g b ks rest)
  show ?case
  proof (cases "bid b = i")
    case True
    then show ?thesis by simp
  next
    case False
    show ?thesis
    proof (cases "i \<in> set (ids ks)")
      case True
      then have "i \<in> set (ids (update_kids i g ks))" by (rule update_kids_keeps_id)
      with 2(1) [OF False True] False True show ?thesis by simp
    next
      case nin: False
      with 2(2) [OF False nin] False show ?thesis by simp
    qed
  qed
qed

lemma update_kids_cong:
  "find_kids p ns = Some ks \<Longrightarrow> f ks = g ks \<Longrightarrow> update_kids p f ns = update_kids p g ns"
proof (induction p f ns rule: update_kids.induct)
  case (1 i f)
  show ?case by simp
next
  case (2 i f b ks0 rest)
  show ?case
  proof (cases "bid b = i")
    case True
    with 2(3,4) show ?thesis by simp
  next
    case False
    show ?thesis
    proof (cases "i \<in> set (ids ks0)")
      case True
      then obtain r where r: "find_kids i ks0 = Some r"
        using find_kids_None [of i ks0] by (cases "find_kids i ks0") auto
      with False 2(3) have "r = ks" by simp
      with 2(1) [OF False True] r 2(4) False True show ?thesis by simp
    next
      case nin: False
      then have "find_kids i ks0 = None" by (simp add: find_kids_None)
      with False 2(3) have "find_kids i rest = Some ks" by simp
      with 2(2) [OF False nin] 2(4) False nin show ?thesis by simp
    qed
  qed
qed

lemma update_kids_same: "find_kids p ns = Some ks \<Longrightarrow> update_kids p (\<lambda>_. ks) ns = ns"
proof (induction p ns rule: find_kids.induct)
  case (1 i)
  show ?case by simp
next
  case (2 i b ks0 rest)
  show ?case
  proof (cases "bid b = i")
    case True
    with 2(3) show ?thesis by simp
  next
    case False
    show ?thesis
    proof (cases "find_kids i ks0")
      case (Some r)
      then have "i \<in> set (ids ks0)" using find_kids_None [of i ks0] by simp
      with 2(1) [OF False] Some 2(3) False show ?thesis by simp
    next
      case None
      then have "i \<notin> set (ids ks0)" by (simp add: find_kids_None)
      with 2(2) [OF False None] None 2(3) False show ?thesis by simp
    qed
  qed
qed

lemma update_kids_here:
  "bid b \<notin> set (ids pre) \<Longrightarrow>
     update_kids (bid b) g (pre @ Node b cks # post) = pre @ Node b (g cks) # post"
  by (induction pre rule: ids.induct) auto

lemma delete_node_here:
  "bid b \<notin> set (ids pre) \<Longrightarrow> delete_node (bid b) (pre @ Node b cks # post) = pre @ post"
  by (induction pre rule: ids.induct) auto

lemma find_kids_here:
  "bid b \<notin> set (ids pre) \<Longrightarrow> find_kids (bid b) (pre @ Node b cks # post) = Some cks"
proof (induction pre rule: ids.induct)
  case 1
  show ?case by simp
next
  case (2 b0 ks rest)
  then have "find_kids (bid b) ks = None" by (simp add: find_kids_None)
  with 2 show ?case by simp
qed

lemma insertAfter_here:
  "bid b \<notin> set (ids pre) \<Longrightarrow>
     insertAfter (bid b) new (pre @ Node b cks # post) = pre @ Node b cks # new # post"
  by (induction pre rule: ids.induct) auto

lemma update_kids_inside:
  "find_kids p ns = Some ks \<Longrightarrow> distinct (ids ns) \<Longrightarrow> i \<in> set (ids ks) \<Longrightarrow>
     update_kids i g ns = update_kids p (update_kids i g) ns"
proof (induction p ns rule: find_kids.induct)
  case (1 p)
  then show ?case by simp
next
  case (2 p b ks0 rest)
  show ?case
  proof (cases "bid b = p")
    case True
    with 2(3) have "ks0 = ks" by simp
    with 2(4,5) True show ?thesis by auto
  next
    case False
    show ?thesis
    proof (cases "find_kids p ks0")
      case (Some r)
      with False 2(3) have r: "r = ks" by simp
      from Some have pin: "p \<in> set (ids ks0)" using find_kids_None [of p ks0] by simp
      from Some r find_kids_subset have sub: "set (ids ks) \<subseteq> set (ids ks0)" by blast
      with 2(5) have iin: "i \<in> set (ids ks0)" by blast
      with 2(4) have "bid b \<noteq> i" by auto
      moreover from 2(4) have "distinct (ids ks0)" by simp
      ultimately show ?thesis
        using 2(1) [OF False] Some r 2(5) False pin iin by simp
    next
      case None
      with False 2(3) have f: "find_kids p rest = Some ks" by simp
      from None have pnin: "p \<notin> set (ids ks0)" by (simp add: find_kids_None)
      from f find_kids_subset have "set (ids ks) \<subseteq> set (ids rest)" by blast
      with 2(5) have iin: "i \<in> set (ids rest)" by blast
      with 2(4) have "bid b \<noteq> i" "i \<notin> set (ids ks0)" by auto
      moreover from 2(4) have "distinct (ids rest)" by simp
      ultimately show ?thesis
        using 2(2) [OF False None f] 2(5) False pnin by simp
    qed
  qed
qed

lemma delete_node_inside:
  "find_kids p ns = Some ks \<Longrightarrow> distinct (ids ns) \<Longrightarrow> i \<in> set (ids ks) \<Longrightarrow>
     delete_node i ns = update_kids p (delete_node i) ns"
proof (induction p ns rule: find_kids.induct)
  case (1 p)
  then show ?case by simp
next
  case (2 p b ks0 rest)
  show ?case
  proof (cases "bid b = p")
    case True
    with 2(3) have "ks0 = ks" by simp
    with 2(4,5) True show ?thesis by auto
  next
    case False
    show ?thesis
    proof (cases "find_kids p ks0")
      case (Some r)
      with False 2(3) have r: "r = ks" by simp
      from Some have pin: "p \<in> set (ids ks0)" using find_kids_None [of p ks0] by simp
      from Some r find_kids_subset have sub: "set (ids ks) \<subseteq> set (ids ks0)" by blast
      with 2(5) have iin: "i \<in> set (ids ks0)" by blast
      with 2(4) have "bid b \<noteq> i" by auto
      moreover from 2(4) have "distinct (ids ks0)" by simp
      ultimately show ?thesis
        using 2(1) [OF False] Some r 2(5) False pin iin by simp
    next
      case None
      with False 2(3) have f: "find_kids p rest = Some ks" by simp
      from None have pnin: "p \<notin> set (ids ks0)" by (simp add: find_kids_None)
      from f find_kids_subset have "set (ids ks) \<subseteq> set (ids rest)" by blast
      with 2(5) have iin: "i \<in> set (ids rest)" by blast
      with 2(4) have "bid b \<noteq> i" "i \<notin> set (ids ks0)" by auto
      moreover from 2(4) have "distinct (ids rest)" by simp
      ultimately show ?thesis
        using 2(2) [OF False None f] 2(5) False pnin by simp
    qed
  qed
qed

lemma find_kids_inside:
  "find_kids p ns = Some ks \<Longrightarrow> distinct (ids ns) \<Longrightarrow> i \<in> set (ids ks) \<Longrightarrow>
     find_kids i ns = find_kids i ks"
proof (induction p ns rule: find_kids.induct)
  case (1 p)
  then show ?case by simp
next
  case (2 p b ks0 rest)
  show ?case
  proof (cases "bid b = p")
    case True
    with 2(3) have "ks0 = ks" by simp
    moreover from 2(5) obtain r where "find_kids i ks = Some r"
      using find_kids_None [of i ks] by (cases "find_kids i ks") auto
    ultimately show ?thesis using 2(4,5) True by auto
  next
    case False
    show ?thesis
    proof (cases "find_kids p ks0")
      case (Some r)
      with False 2(3) have r: "r = ks" by simp
      from Some r find_kids_subset have sub: "set (ids ks) \<subseteq> set (ids ks0)" by blast
      with 2(5) have iin: "i \<in> set (ids ks0)" by blast
      with 2(4) have ne: "bid b \<noteq> i" by auto
      from 2(4) have d: "distinct (ids ks0)" by simp
      from iin obtain q where q: "find_kids i ks0 = Some q"
        using find_kids_None [of i ks0] by (cases "find_kids i ks0") auto
      from 2(1) [OF False] Some r d 2(5) have "find_kids i ks0 = find_kids i ks" by simp
      with ne q show ?thesis by simp
    next
      case None
      with False 2(3) have f: "find_kids p rest = Some ks" by simp
      from f find_kids_subset have "set (ids ks) \<subseteq> set (ids rest)" by blast
      with 2(5) have iin: "i \<in> set (ids rest)" by blast
      with 2(4) have ne: "bid b \<noteq> i" "i \<notin> set (ids ks0)" by auto
      then have n0: "find_kids i ks0 = None" by (simp add: find_kids_None)
      from 2(4) have "distinct (ids rest)" by simp
      with 2(2) [OF False None f] 2(5) have "find_kids i rest = find_kids i ks" by simp
      with ne n0 show ?thesis by simp
    qed
  qed
qed

lemma wf_update:
  assumes "wellFormed w" and f: "find_kids p (forest w) = Some ks"
    and d: "distinct (ids ks')"
    and s: "set (ids ks') \<subseteq> set (ids ks) \<union> {next_id w..<n'}"
    and n: "next_id w \<le> n'"
  shows "wellFormed \<lparr>forest = update_kids p (\<lambda>_. ks') (forest w), next_id = n'\<rparr>"
proof -
  from find_kids_ids [OF f] obtain pre post where
    pp: "ids (forest w) = pre @ ids ks @ post"
    "\<forall>f. ids (update_kids p f (forest w)) = pre @ ids (f ks) @ post"
    by blast
  from \<open>wellFormed w\<close> pp(1) have dist: "distinct (pre @ ids ks @ post)"
    and bound: "\<forall>i\<in>set (pre @ ids ks @ post). i < next_id w"
    by (simp_all add: wellFormed_def list_all_iff)
  have new: "ids (update_kids p (\<lambda>_. ks') (forest w)) = pre @ ids ks' @ post"
    using pp(2) by simp
  have out: "x \<notin> set pre \<and> x \<notin> set post" if "x \<in> set (ids ks')" for x
  proof (cases "x \<in> set (ids ks)")
    case True
    with dist show ?thesis by auto
  next
    case False
    with that s have "next_id w \<le> x" by auto
    moreover have "y < next_id w" if "y \<in> set pre \<or> y \<in> set post" for y
      using bound that by auto
    ultimately show ?thesis by (meson not_le)
  qed
  from dist have "distinct pre" "distinct post" "set pre \<inter> set post = {}" by auto
  with out d have "distinct (pre @ ids ks' @ post)" by auto
  moreover have "\<forall>i\<in>set (pre @ ids ks' @ post). i < n'"
  proof
    fix i assume "i \<in> set (pre @ ids ks' @ post)"
    then consider "i \<in> set pre \<or> i \<in> set post" | "i \<in> set (ids ks')" by auto
    then show "i < n'"
    proof cases
      case 1
      with bound have "i < next_id w" by auto
      with n show ?thesis by simp
    next
      case 2
      with s have "i \<in> set (ids ks) \<or> i < n'" by auto
      moreover have "i < next_id w" if "i \<in> set (ids ks)" using bound that by auto
      ultimately show ?thesis using n by auto
    qed
  qed
  ultimately show ?thesis by (simp add: wellFormed_def list_all_iff new)
qed

lemma wf_kids_distinct:
  "wellFormed w \<Longrightarrow> find_kids p (forest w) = Some ks \<Longrightarrow> distinct (ids ks)"
  using find_kids_ids [of p "forest w" ks] by (auto simp: wellFormed_def)

lemma append_in_place:
  assumes "wellFormed w" and f: "find_kids p (forest w) = Some (pre @ Node b cks # post)"
  shows "blocks_children_append w p child (bid b) =
           Inr \<lparr>forest = update_kids p (\<lambda>_. pre @ Node b cks # created w child # post) (forest w),
                next_id = Suc (next_id w)\<rparr>"
    and "wellFormed \<lparr>forest = update_kids p (\<lambda>_. pre @ Node b cks # created w child # post) (forest w),
             next_id = Suc (next_id w)\<rparr>"
proof -
  from wf_kids_distinct [OF assms] have nin: "bid b \<notin> set (ids pre)"
    by (simp add: ids_append)
  have ins: "insertAfter (bid b) (created w child) (pre @ Node b cks # post) =
      pre @ Node b cks # created w child # post"
    using nin by (rule insertAfter_here)
  have "update_kids p (insertAfter (bid b) (created w child)) (forest w) =
      update_kids p (\<lambda>_. pre @ Node b cks # created w child # post) (forest w)"
    using f ins by (rule update_kids_cong)
  then show "blocks_children_append w p child (bid b) =
      Inr \<lparr>forest = update_kids p (\<lambda>_. pre @ Node b cks # created w child # post) (forest w),
           next_id = Suc (next_id w)\<rparr>"
    using f by (simp add: blocks_children_append_def created_def)
  show "wellFormed \<lparr>forest = update_kids p (\<lambda>_. pre @ Node b cks # created w child # post) (forest w),
            next_id = Suc (next_id w)\<rparr>"
  proof (rule wf_update [OF \<open>wellFormed w\<close> f])
    from \<open>wellFormed w\<close> f have "list_all (\<lambda>i. i < next_id w) (ids (pre @ Node b cks # post))"
      using find_kids_subset [OF f] by (auto simp: wellFormed_def list_all_iff)
    then have "next_id w \<notin> set (ids (pre @ Node b cks # post))"
      by (auto simp: list_all_iff)
    with wf_kids_distinct [OF assms]
    show "distinct (ids (pre @ Node b cks # created w child # post))"
      by (simp add: ids_append created_def)
    show "set (ids (pre @ Node b cks # created w child # post)) \<subseteq>
        set (ids (pre @ Node b cks # post)) \<union> {next_id w..<Suc (next_id w)}"
      by (auto simp: ids_append created_def)
  qed simp
qed

lemma delete_in_place:
  assumes "wellFormed w" and f: "find_kids p (forest w) = Some (pre @ Node b cks # post)"
  shows "blocks_delete w (bid b) =
           Inr (w\<lparr>forest := update_kids p (\<lambda>_. pre @ post) (forest w)\<rparr>)"
    and "wellFormed (w\<lparr>forest := update_kids p (\<lambda>_. pre @ post) (forest w)\<rparr>)"
    and "bid b \<notin> set (ids (update_kids p (\<lambda>_. pre @ post) (forest w)))"
    and "set (ids cks) \<inter> set (ids (update_kids p (\<lambda>_. pre @ post) (forest w))) = {}"
proof -
  from wf_kids_distinct [OF assms] have dk: "distinct (ids (pre @ Node b cks # post))" .
  then have nin: "bid b \<notin> set (ids pre)" by (simp add: ids_append)
  from \<open>wellFormed w\<close> have dist: "distinct (ids (forest w))" by (simp add: wellFormed_def)
  have bin: "bid b \<in> set (ids (pre @ Node b cks # post))" by (simp add: ids_append)
  with find_kids_subset [OF f] have present: "bid b \<in> set (ids (forest w))" by blast
  have "delete_node (bid b) (forest w) = update_kids p (delete_node (bid b)) (forest w)"
    using f dist bin by (rule delete_node_inside)
  also have "\<dots> = update_kids p (\<lambda>_. pre @ post) (forest w)"
    using f delete_node_here [OF nin] by (rule update_kids_cong)
  finally have del: "delete_node (bid b) (forest w) = update_kids p (\<lambda>_. pre @ post) (forest w)" .
  with present show "blocks_delete w (bid b) =
      Inr (w\<lparr>forest := update_kids p (\<lambda>_. pre @ post) (forest w)\<rparr>)"
    by (simp add: blocks_delete_def)
  have "wellFormed \<lparr>forest = update_kids p (\<lambda>_. pre @ post) (forest w), next_id = next_id w\<rparr>"
  proof (rule wf_update [OF \<open>wellFormed w\<close> f])
    show "distinct (ids (pre @ post))" using dk by (auto simp: ids_append)
    show "set (ids (pre @ post)) \<subseteq> set (ids (pre @ Node b cks # post)) \<union> {next_id w..<next_id w}"
      by (auto simp: ids_append)
  qed simp
  then show "wellFormed (w\<lparr>forest := update_kids p (\<lambda>_. pre @ post) (forest w)\<rparr>)"
    by (simp add: wellFormed_def)
  from find_kids_ids [OF f] obtain pre' post' where
    pp: "ids (forest w) = pre' @ ids (pre @ Node b cks # post) @ post'"
    "\<forall>f. ids (update_kids p f (forest w)) = pre' @ ids (f (pre @ Node b cks # post)) @ post'"
    by blast
  from pp(2) have new: "ids (update_kids p (\<lambda>_. pre @ post) (forest w)) =
      pre' @ ids (pre @ post) @ post'"
    by simp
  from dist pp(1) have "distinct (pre' @ (ids pre @ bid b # ids cks @ ids post) @ post')"
    by (simp add: ids_append)
  then show "bid b \<notin> set (ids (update_kids p (\<lambda>_. pre @ post) (forest w)))"
    and "set (ids cks) \<inter> set (ids (update_kids p (\<lambda>_. pre @ post) (forest w))) = {}"
    unfolding new by (auto simp: ids_append)
qed

lemma convertBlock_in_place:
  assumes "wellFormed w" and f: "find_kids p (forest w) = Some (pre @ Node b cks # post)"
    and c: "newChild conv b' = Inr child" and i: "bid b' = bid b"
  shows "convertBlock conv w p b' =
           (None,
            \<lparr>forest = update_kids p (\<lambda>_. pre @ created w child # post) (forest w),
             next_id = Suc (next_id w)\<rparr>,
            [AppendCall p (bid b) child, DeleteCall (bid b)])"
    and "wellFormed \<lparr>forest = update_kids p (\<lambda>_. pre @ created w child # post) (forest w),
             next_id = Suc (next_id w)\<rparr>"
    and "bid b \<notin> set (ids (update_kids p (\<lambda>_. pre @ created w child # post) (forest w)))"
    and "set (ids cks) \<inter>
           set (ids (update_kids p (\<lambda>_. pre @ created w child # post) (forest w))) = {}"
proof -
  define w1 where "w1 = \<lparr>forest = update_kids p (\<lambda>_. pre @ Node b cks # created w child # post)
      (forest w), next_id = Suc (next_id w)\<rparr>"
  have a: "blocks_children_append w p child (bid b) = Inr w1" and wf1: "wellFormed w1"
    using append_in_place [OF assms(1) f, of child] by (simp_all add: w1_def)
  have f1: "find_kids p (forest w1) = Some (pre @ Node b cks # (created w child # post))"
    using f by (simp add: w1_def update_kids_find)
  have upd: "update_kids p (\<lambda>_. pre @ (created w child # post)) (forest w1) =
      update_kids p (\<lambda>_. pre @ created w child # post) (forest w)"
    by (simp add: w1_def update_kids_compose)
  note d = delete_in_place [OF wf1 f1]
  show "convertBlock conv w p b' =
      (None,
       \<lparr>forest = update_kids p (\<lambda>_. pre @ created w child # post) (forest w),
        next_id = Suc (next_id w)\<rparr>,
       [AppendCall p (bid b) child, DeleteCall (bid b)])"
    using c i a d(1) upd by (simp add: convertBlock_def w1_def)
  show "wellFormed \<lparr>forest = update_kids p (\<lambda>_. pre @ created w child # post) (forest w),
            next_id = Suc (next_id w)\<rparr>"
    using d(2) upd by (simp add: w1_def)
  show "bid b \<notin> set (ids (update_kids p (\<lambda>_. pre @ created w child # post) (forest w)))"
    using d(3) upd by simp
  show "set (ids cks) \<inter>
      set (ids (update_kids p (\<lambda>_. pre @ created w child # post) (forest w))) = {}"
    using d(4) upd by simp
qed

section \<open>Properties of the conversion on trees\<close>

lemma convKids_append:
  "convKids conv n (a @ b) =
     (fst (convKids conv n a) @ fst (convKids conv (snd (convKids conv n a)) b),
      snd (convKids conv (snd (convKids conv n a)) b))"
  by (induction conv n a rule: convKids.induct) simp_all

lemma convKids_next: "snd (convKids conv n ks) = n + countConv conv ks"
  by (induction conv n ks rule: convKids.induct) simp_all

lemma countConv_append: "countConv conv (a @ b) = countConv conv a + countConv conv b"
  by (induction conv a rule: countConv.induct) simp_all

lemma sourceFree_append:
  "sourceFree conv (a @ b) \<longleftrightarrow> sourceFree conv a \<and> sourceFree conv b"
  by (induction conv a rule: sourceFree.induct) auto

lemma convertible_append:
  "convertible conv (a @ b) \<longleftrightarrow> convertible conv a \<and> convertible conv b"
  by (induction conv a rule: convertible.induct) auto

lemma sourceFree_convKids_id: "sourceFree conv ks \<Longrightarrow> convKids conv n ks = (ks, n)"
  by (induction conv n ks rule: convKids.induct) simp_all

lemma sourceFree_count: "sourceFree conv ks \<Longrightarrow> countConv conv ks = 0"
  by (induction conv ks rule: countConv.induct) simp_all

lemma sourceFree_topCount: "sourceFree conv ks \<Longrightarrow> topCount conv ks = 0"
  by (induction conv ks rule: sourceFree.induct) (simp_all add: topCount_def)

lemma sourceFree_convertible: "sourceFree conv ks \<Longrightarrow> convertible conv ks"
  by (induction conv ks rule: sourceFree.induct) simp_all

lemma replacement_type:
  "rich_text b \<noteq> None \<Longrightarrow> btype (replacement conv b n) = toType conv"
  by (auto simp: replacement_def newChild_def)

lemma replacement_id: "rich_text b \<noteq> None \<Longrightarrow> bid (replacement conv b n) = n"
  by (auto simp: replacement_def newChild_def)

lemma convKids_sourceFree:
  "toType conv \<noteq> fromType conv \<Longrightarrow> convertible conv ks \<Longrightarrow>
     sourceFree conv (fst (convKids conv n ks))"
  by (induction conv n ks rule: convKids.induct) (auto simp: replacement_type)

lemma convKids_ids:
  "convertible conv ks \<Longrightarrow>
     set (ids (fst (convKids conv n ks))) \<subseteq> set (ids ks) \<union> {n..<snd (convKids conv n ks)}"
proof (induction conv n ks rule: convKids.induct)
  case (1 conv n)
  show ?case by simp
next
  case (2 conv n b ks rest)
  show ?case
  proof (cases "btype b = fromType conv")
    case True
    with "2.prems" have r: "rich_text b \<noteq> None" "convertible conv rest" by auto
    from "2.IH"(1) [OF True r(2)] True r(1) show ?thesis
      by (auto simp: replacement_id convKids_next)
  next
    case False
    with "2.prems" have c: "convertible conv ks" "convertible conv rest" by auto
    from "2.IH"(3) [OF False c(1)] "2.IH"(5) [OF False c(2)] False show ?thesis
      by (auto simp: convKids_next)
  qed
qed

lemma convKids_distinct:
  "convertible conv ks \<Longrightarrow> distinct (ids ks) \<Longrightarrow> list_all (\<lambda>i. i < n) (ids ks) \<Longrightarrow>
     distinct (ids (fst (convKids conv n ks)))"
proof (induction conv n ks rule: convKids.induct)
  case (1 conv n)
  show ?case by simp
next
  case (2 conv n b ks rest)
  show ?case
  proof (cases "btype b = fromType conv")
    case True
    with "2.prems"(1) have r: "rich_text b \<noteq> None" "convertible conv rest" by auto
    from "2.prems"(3) have lt: "\<forall>i\<in>set (ids rest). i < n" by (auto simp: list_all_iff)
    then have "\<forall>i\<in>set (ids rest). i < Suc n" by (meson less_Suc_eq)
    with "2.prems"(2) have d: "distinct (ids rest)" "list_all (\<lambda>i. i < Suc n) (ids rest)"
      by (auto simp: list_all_iff)
    have "n \<notin> set (ids (fst (convKids conv (Suc n) rest)))"
    proof
      assume "n \<in> set (ids (fst (convKids conv (Suc n) rest)))"
      with convKids_ids [OF r(2), of "Suc n"]
      have "n \<in> set (ids rest) \<or> Suc n \<le> n" by auto
      with lt show False by auto
    qed
    with "2.IH"(1) [OF True r(2) d] True r(1) show ?thesis
      by (simp add: replacement_id)
  next
    case False
    with "2.prems"(1) have c: "convertible conv ks" "convertible conv rest" by auto
    define n1 where "n1 = snd (convKids conv n ks)"
    have n1: "n \<le> n1" by (simp add: n1_def convKids_next)
    from "2.prems"(2) have d: "distinct (ids ks)" "distinct (ids rest)"
      "set (ids ks) \<inter> set (ids rest) = {}" "bid b \<notin> set (ids ks)" "bid b \<notin> set (ids rest)"
      by auto
    from "2.prems"(3) have lt: "bid b < n" "\<forall>i\<in>set (ids ks). i < n" "\<forall>i\<in>set (ids rest). i < n"
      by (auto simp: list_all_iff)
    from lt n1 have l1: "list_all (\<lambda>i. i < n) (ids ks)" "list_all (\<lambda>i. i < n1) (ids rest)"
      by (auto simp: list_all_iff)
    have s1: "set (ids (fst (convKids conv n ks))) \<subseteq> set (ids ks) \<union> {n..<n1}"
      using convKids_ids [OF c(1), of n] by (simp add: n1_def)
    have s2: "set (ids (fst (convKids conv n1 rest))) \<subseteq>
        set (ids rest) \<union> {n1..<snd (convKids conv n1 rest)}"
      using convKids_ids [OF c(2), of n1] .
    have disj: "set (ids (fst (convKids conv n ks))) \<inter>
        set (ids (fst (convKids conv n1 rest))) = {}"
    proof (rule ccontr)
      assume "set (ids (fst (convKids conv n ks))) \<inter>
          set (ids (fst (convKids conv n1 rest))) \<noteq> {}"
      then obtain x where x: "x \<in> set (ids (fst (convKids conv n ks)))"
        "x \<in> set (ids (fst (convKids conv n1 rest)))" by auto
      from x(1) s1 have a: "x \<in> set (ids ks) \<or> (n \<le> x \<and> x < n1)" by auto
      from x(2) s2 have b: "x \<in> set (ids rest) \<or> n1 \<le> x" by auto
      from a show False
      proof
        assume xk: "x \<in> set (ids ks)"
        with lt(2) have "x < n" by auto
        with b n1 have "x \<in> set (ids rest)" by auto
        with xk d(3) show False by auto
      next
        assume xr: "n \<le> x \<and> x < n1"
        with b have "x \<in> set (ids rest)" by auto
        with lt(3) xr show False by auto
      qed
    qed
    have nb: "bid b \<notin> set (ids (fst (convKids conv n ks)))"
      "bid b \<notin> set (ids (fst (convKids conv n1 rest)))"
    proof -
      show "bid b \<notin> set (ids (fst (convKids conv n ks)))"
      proof
        assume "bid b \<in> set (ids (fst (convKids conv n ks)))"
        with s1 have "bid b \<in> set (ids ks) \<or> n \<le> bid b" by auto
        with d(4) lt(1) show False by auto
      qed
      show "bid b \<notin> set (ids (fst (convKids conv n1 rest)))"
      proof
        assume "bid b \<in> set (ids (fst (convKids conv n1 rest)))"
        with s2 have "bid b \<in> set (ids rest) \<or> n1 \<le> bid b" by auto
        with d(5) lt(1) n1 show False by auto
      qed
    qed
    from "2.IH"(3) [OF False c(1) d(1) l1(1)] "2.IH"(5) [OF False c(2) d(2)] l1(2) disj nb False
    show ?thesis by (simp add: n1_def)
  qed
qed

lemma convertible_find:
  "convertible conv ns \<Longrightarrow> find_kids p ns = Some ks \<Longrightarrow> convertible conv ks"
  by (induction p ns rule: find_kids.induct) (auto split: if_splits option.splits)

lemma sourceFree_find:
  "sourceFree conv ns \<Longrightarrow> find_kids p ns = Some ks \<Longrightarrow> sourceFree conv ks"
  by (induction p ns rule: find_kids.induct) (auto split: if_splits option.splits)

lemma convertible_update:
  "convertible conv ns \<Longrightarrow> convertible conv ks' \<Longrightarrow>
     convertible conv (update_kids p (\<lambda>_. ks') ns)"
  by (induction p "\<lambda>_ :: node list. ks'" ns rule: update_kids.induct) auto

lemma convKids_convertible:
  "toType conv \<noteq> fromType conv \<Longrightarrow> convertible conv ks \<Longrightarrow>
     convertible conv (fst (convKids conv n ks))"
  by (rule sourceFree_convertible) (rule convKids_sourceFree)

lemma height_append: "height (a @ b) = max (height a) (height b)"
  by (induction a rule: height.induct) auto

lemma height_take: "height (take m ks) \<le> height ks"
  using height_append [of "take m ks" "drop m ks"] by simp

lemma height_drop: "height (drop m ks) \<le> height ks"
  using height_append [of "take m ks" "drop m ks"] by simp

lemma kidIds_subset: "set (kidIds ks) \<subseteq> set (ids ks)"
  by (induction ks rule: ids.induct) (auto simp: kidIds_def)

lemma kidIds_distinct: "distinct (ids ks) \<Longrightarrow> distinct (kidIds ks)"
proof (induction ks rule: ids.induct)
  case 1
  show ?case by (simp add: kidIds_def)
next
  case (2 b ks rest)
  then have "distinct (kidIds rest)" by simp
  moreover from 2(3) kidIds_subset [of rest] have "bid b \<notin> set (kidIds rest)" by auto
  ultimately show ?case by (simp add: kidIds_def)
qed

lemma listed_id [simp]: "bid (listed k) = bid (nblock k)"
  by (simp add: listed_def)

lemma listed_type [simp]: "btype (listed k) = btype (nblock k)"
  by (simp add: listed_def)

lemma listed_has_children [simp]: "has_children (listed k) = (nkids k \<noteq> [])"
  by (simp add: listed_def)

lemma newChild_listed: "newChild conv (listed k) = newChild conv (nblock k)"
  by (cases "color (nblock k)") (simp_all add: newChild_def listed_def split: option.splits)

lemma list_at:
  assumes f: "find_kids p (forest w) = Some (pre @ ks)"
    and c: "cursorAt pre ks cursor"
    and d: "distinct (kidIds (pre @ ks))"
  shows "blocks_children_list w p cursor =
           Inr \<lparr>results = map listed (take 100 ks), has_more = (length ks > 100),
                next_cursor = (if length ks > 100 then Some (bid (nblock (ks ! 100))) else None)\<rparr>"
proof -
  have start: "(case cursor of None \<Rightarrow> map listed (pre @ ks)
                | Some c \<Rightarrow> dropWhile (\<lambda>b. bid b \<noteq> c) (map listed (pre @ ks))) = map listed ks"
  proof (cases cursor)
    case None
    with c show ?thesis by (simp add: cursorAt_def)
  next
    case (Some i)
    with c obtain k ks' where k: "ks = k # ks'" "i = bid (nblock k)"
      by (cases ks) (auto simp: cursorAt_def)
    from d k have "i \<notin> set (kidIds pre)" by (auto simp: kidIds_def)
    then have "\<forall>x\<in>set (map listed pre). bid x \<noteq> i" by (auto simp: kidIds_def)
    then have "dropWhile (\<lambda>b. bid b \<noteq> i) (map listed pre @ map listed ks) =
        dropWhile (\<lambda>b. bid b \<noteq> i) (map listed ks)"
      by (intro dropWhile_append2) auto
    with Some k show ?thesis by simp
  qed
  have "length ks > 100 \<Longrightarrow> bid (map listed ks ! 100) = bid (nblock (ks ! 100))"
    by simp
  with f show ?thesis
    unfolding blocks_children_list_def Let_def
    by (simp only: start option.case) (simp add: take_map)
qed

lemma workspace_eq: "\<lparr>forest = forest w, next_id = next_id w\<rparr> = (w :: workspace)"
  by simp

lemma converted_find:
  "find_kids p (forest w) = Some ks0 \<Longrightarrow>
     find_kids p (forest (converted conv p pre ks post w)) =
       Some (pre @ fst (convKids conv (next_id w) ks) @ post)"
  by (simp add: converted_def update_kids_find)

lemma converted_step:
  "converted conv p (pre @ fst (convKids conv (next_id w) a)) b post
     (converted conv p pre a (b @ post) w) = converted conv p pre (a @ b) post w"
  by (simp add: converted_def update_kids_compose convKids_append)

lemma converted_nothing:
  "find_kids p (forest w) = Some (pre @ ks @ post) \<Longrightarrow> sourceFree conv ks \<Longrightarrow>
     converted conv p pre ks post w = w"
  by (simp add: converted_def sourceFree_convKids_id update_kids_same)

lemma converted_wf:
  assumes "wellFormed w" and c: "convertible conv (forest w)"
    and f: "find_kids p (forest w) = Some (pre @ ks @ post)"
  shows "wellFormed (converted conv p pre ks post w)"
  unfolding converted_def
proof (rule wf_update [OF \<open>wellFormed w\<close> f])
  let ?n = "next_id w"
  let ?ks' = "fst (convKids conv ?n ks)"
  from c f have ck: "convertible conv ks"
    using convertible_find [of conv "forest w" p] by (simp add: convertible_append)
  from wf_kids_distinct [OF \<open>wellFormed w\<close> f] have d: "distinct (ids pre @ ids ks @ ids post)"
    by (simp add: ids_append)
  from \<open>wellFormed w\<close> find_kids_subset [OF f] have lt: "\<forall>i\<in>set (ids pre @ ids ks @ ids post). i < ?n"
    by (auto simp: wellFormed_def list_all_iff ids_append)
  then have "list_all (\<lambda>i. i < ?n) (ids ks)" by (simp add: list_all_iff)
  with convKids_distinct [OF ck] d have dk: "distinct (ids ?ks')" by simp
  note s = convKids_ids [OF ck, of ?n]
  have out: "x \<notin> set (ids pre) \<and> x \<notin> set (ids post)" if "x \<in> set (ids ?ks')" for x
  proof (cases "x \<in> set (ids ks)")
    case True
    with d show ?thesis by auto
  next
    case False
    with that s have "?n \<le> x" by auto
    then have "\<not> x < ?n" by simp
    with lt show ?thesis by auto
  qed
  from d have "distinct (ids pre)" "distinct (ids post)" "set (ids pre) \<inter> set (ids post) = {}"
    by auto
  with dk out show "distinct (ids (pre @ ?ks' @ post))"
    by (auto simp: ids_append)
  show "set (ids (pre @ ?ks' @ post)) \<subseteq>
      set (ids (pre @ ks @ post)) \<union> {?n..<snd (convKids conv ?n ks)}"
    using s by (auto simp: ids_append)
  show "?n \<le> snd (convKids conv ?n ks)" by (simp add: convKids_next)
qed

lemma converted_convertible:
  assumes "toType conv \<noteq> fromType conv" and c: "convertible conv (forest w)"
    and f: "find_kids p (forest w) = Some (pre @ ks @ post)"
  shows "convertible conv (forest (converted conv p pre ks post w))"
proof -
  from c f have "convertible conv (pre @ ks @ post)" by (rule convertible_find)
  then have "convertible conv (pre @ fst (convKids conv (next_id w) ks) @ post)"
    using assms(1) by (simp add: convertible_append convKids_convertible)
  with c show ?thesis by (simp add: converted_def convertible_update)
qed

lemma writes_append: "writes (a @ b) = writes a + writes b"
  by (simp add: writes_def)

lemma writes_Nil: "writes [] = 0"
  by (simp add: writes_def)

lemma height_kids: "height cks < height (Node b cks # rest)"
  by simp

lemma height_rest: "height rest \<le> height (Node b cks # rest)"
  by simp

lemma convertBlock_converted:
  assumes "wellFormed w" and f: "find_kids p (forest w) = Some (pre @ Node b cks # post)"
    and t: "btype b = fromType conv" and r: "rich_text b \<noteq> None"
  obtains child where "newChild conv b = Inr child"
    and "convertBlock conv w p (listed (Node b cks)) =
           (None, converted conv p pre [Node b cks] post w,
            [AppendCall p (bid b) child, DeleteCall (bid b)])"
    and "bid b \<notin> set (ids (forest (converted conv p pre [Node b cks] post w)))"
    and "set (ids cks) \<inter> set (ids (forest (converted conv p pre [Node b cks] post w))) = {}"
    and "find_kids p (forest (converted conv p pre [Node b cks] post w)) =
           Some (pre @ created w child # post)"
proof -
  from r obtain child where c: "newChild conv b = Inr child"
    by (auto simp: newChild_def)
  then have c': "newChild conv (listed (Node b cks)) = Inr child"
    by (simp add: newChild_listed)
  have i: "bid (listed (Node b cks)) = bid b" by simp
  have e: "converted conv p pre [Node b cks] post w =
      \<lparr>forest = update_kids p (\<lambda>_. pre @ created w child # post) (forest w),
       next_id = Suc (next_id w)\<rparr>"
    using t c by (simp add: converted_def replacement_def created_def)
  note cb = convertBlock_in_place [OF assms(1) f c' i]
  have "find_kids p (forest (converted conv p pre [Node b cks] post w)) =
      Some (pre @ created w child # post)"
    using f by (simp add: e update_kids_find)
  with c cb(1,3,4) that show thesis by (simp add: e)
qed

lemma childLoop_gone:
  "i \<notin> set (ids (forest w)) \<Longrightarrow>
     childLoop (Suc n) conv dryRun i None (w, l) = Some (w, l @ [ListCall i None])"
  by (simp add: blocks_children_list_def find_kids_None [THEN iffD2])

lemma childResults_match:
  assumes "wellFormed w" and f: "find_kids p (forest w) = Some (pre @ Node b cks # post)"
    and t: "btype b = fromType conv" and r: "rich_text b \<noteq> None"
  shows "\<exists>child. newChild conv b = Inr child \<and> (\<forall>n bs l.
     childResults (Suc n) conv False p (listed (Node b cks) # bs) (w, l) =
       childResults (Suc n) conv False p bs
         (converted conv p pre [Node b cks] post w,
          l @ [AppendCall p (bid b) child, DeleteCall (bid b)] @
            (if cks = [] then [] else [ListCall (bid b) None])))"
proof -
  from convertBlock_converted [OF assms] obtain child
    where c: "newChild conv b = Inr child"
      and cb: "convertBlock conv w p (listed (Node b cks)) =
           (None, converted conv p pre [Node b cks] post w,
            [AppendCall p (bid b) child, DeleteCall (bid b)])"
      and g: "bid b \<notin> set (ids (forest (converted conv p pre [Node b cks] post w)))"
    by blast
  have "childResults (Suc n) conv False p (listed (Node b cks) # bs) (w, l) =
       childResults (Suc n) conv False p bs
         (converted conv p pre [Node b cks] post w,
          l @ [AppendCall p (bid b) child, DeleteCall (bid b)] @
            (if cks = [] then [] else [ListCall (bid b) None]))" for n bs l
    using t cb childLoop_gone [OF g, of n conv False]
    by (simp del: childLoop.simps)
  with c show ?thesis by blast
qed

lemma childResults_other:
  assumes t: "btype b \<noteq> fromType conv"
  shows "childResults n conv dryRun p (listed (Node b cks) # bs) st =
     (if cks = [] then childResults n conv dryRun p bs st
      else (case childLoop n conv dryRun (bid b) None st of
              None \<Rightarrow> None
            | Some st2 \<Rightarrow> childResults n conv dryRun p bs st2))"
  using t by simp

lemma find_kids_child:
  assumes "wellFormed w" and f: "find_kids p (forest w) = Some (pre @ Node b cks # post)"
  shows "find_kids (bid b) (forest w) = Some cks"
proof -
  from assms have d: "distinct (ids (forest w))" by (simp add: wellFormed_def)
  from wf_kids_distinct [OF assms] have n: "bid b \<notin> set (ids pre)"
    by (auto simp: ids_append)
  have "bid b \<in> set (ids (pre @ Node b cks # post))" by (simp add: ids_append)
  from find_kids_inside [OF f d this] n show ?thesis by (simp add: find_kids_here)
qed

lemma converted_descend:
  assumes "wellFormed w" and f: "find_kids p (forest w) = Some (pre @ Node b cks # post)"
    and t: "btype b \<noteq> fromType conv"
  shows "converted conv (bid b) [] cks [] w = converted conv p pre [Node b cks] post w"
proof -
  from assms have d: "distinct (ids (forest w))" by (simp add: wellFormed_def)
  from wf_kids_distinct [OF assms(1,2)] have n: "bid b \<notin> set (ids pre)"
    by (auto simp: ids_append)
  have m: "bid b \<in> set (ids (pre @ Node b cks # post))" by (simp add: ids_append)
  let ?c = "fst (convKids conv (next_id w) cks)"
  have "update_kids (bid b) (\<lambda>_. ?c) (forest w) =
      update_kids p (update_kids (bid b) (\<lambda>_. ?c)) (forest w)"
    by (rule update_kids_inside [OF f d m])
  also have "\<dots> = update_kids p (\<lambda>_. pre @ Node b ?c # post) (forest w)"
    by (rule update_kids_cong [OF f]) (simp add: update_kids_here [OF n])
  finally show ?thesis using t by (simp add: converted_def)
qed

lemma converted_leaf:
  assumes f: "find_kids p (forest w) = Some (pre @ Node b [] # post)"
    and t: "btype b \<noteq> fromType conv"
  shows "converted conv p pre [Node b []] post w = w"
  using f t by (intro converted_nothing) simp_all

lemma childResults_head_live:
  assumes IH: "\<And>w q. wellFormed w \<Longrightarrow> convertible conv (forest w) \<Longrightarrow>
        find_kids q (forest w) = Some cks \<Longrightarrow>
        \<exists>k. \<forall>n\<ge>k. \<forall>l. \<exists>cs. childLoop n conv False q None (w, l) =
               Some (converted conv q [] cks [] w, l @ cs) \<and>
             writes cs = 2 * countConv conv cks"
    and w: "wellFormed w" and c: "convertible conv (forest w)"
    and f: "find_kids p (forest w) = Some (pre @ Node b cks # post)"
  shows "\<exists>k. \<forall>n\<ge>k. \<forall>l bs. \<exists>cs.
           childResults n conv False p (listed (Node b cks) # bs) (w, l) =
             childResults n conv False p bs (converted conv p pre [Node b cks] post w, l @ cs) \<and>
           writes cs = 2 * countConv conv [Node b cks]"
proof (cases "btype b = fromType conv")
  case True
  from convertible_find [OF c f] True have r: "rich_text b \<noteq> None"
    by (simp add: convertible_append)
  from childResults_match [OF w f True r] obtain child where
    s: "\<And>n bs l. childResults (Suc n) conv False p (listed (Node b cks) # bs) (w, l) =
       childResults (Suc n) conv False p bs
         (converted conv p pre [Node b cks] post w,
          l @ [AppendCall p (bid b) child, DeleteCall (bid b)] @
            (if cks = [] then [] else [ListCall (bid b) None]))"
    by blast
  have "\<exists>cs. childResults n conv False p (listed (Node b cks) # bs) (w, l) =
             childResults n conv False p bs (converted conv p pre [Node b cks] post w, l @ cs) \<and>
           writes cs = 2 * countConv conv [Node b cks]" if "n \<ge> 1" for n l bs
  proof -
    from that obtain m where n: "n = Suc m" by (cases n) auto
    have "writes ([AppendCall p (bid b) child, DeleteCall (bid b)] @
            (if cks = [] then [] else [ListCall (bid b) None])) = 2 * countConv conv [Node b cks]"
      using True by (simp add: writes_def isListCall_def)
    with s [of m bs l] n show ?thesis by blast
  qed
  then show ?thesis by blast
next
  case False
  show ?thesis
  proof (cases "cks = []")
    case True
    have "childResults n conv False p (listed (Node b cks) # bs) (w, l) =
             childResults n conv False p bs (converted conv p pre [Node b cks] post w, l @ []) \<and>
           writes [] = 2 * countConv conv [Node b cks]" for n l bs
      using False True converted_leaf [of p w pre b post conv] f
      by (simp add: childResults_other writes_def)
    then show ?thesis by blast
  next
    case ne: False
    from IH [OF w c find_kids_child [OF w f]] obtain k where
      k: "\<And>n l. n \<ge> k \<Longrightarrow> \<exists>cs. childLoop n conv False (bid b) None (w, l) =
               Some (converted conv (bid b) [] cks [] w, l @ cs) \<and>
             writes cs = 2 * countConv conv cks"
      by blast
    have "\<exists>cs. childResults n conv False p (listed (Node b cks) # bs) (w, l) =
             childResults n conv False p bs (converted conv p pre [Node b cks] post w, l @ cs) \<and>
           writes cs = 2 * countConv conv [Node b cks]" if "n \<ge> k" for n l bs
    proof -
      from k [OF that, of l] obtain cs where
        cs: "childLoop n conv False (bid b) None (w, l) =
               Some (converted conv (bid b) [] cks [] w, l @ cs)"
          "writes cs = 2 * countConv conv cks"
        by blast
      have "childResults n conv False p (listed (Node b cks) # bs) (w, l) =
             childResults n conv False p bs (converted conv p pre [Node b cks] post w, l @ cs)"
        using cs(1) ne converted_descend [OF w f False]
        by (simp only: childResults_other [OF False] if_False option.case)
      with cs(2) False show ?thesis by auto
    qed
    then show ?thesis by blast
  qed
qed

lemma childResults_live:
  assumes tf: "toType conv \<noteq> fromType conv"
    and IH: "\<And>cks w q. height cks < h \<Longrightarrow> wellFormed w \<Longrightarrow> convertible conv (forest w) \<Longrightarrow>
        find_kids q (forest w) = Some cks \<Longrightarrow>
        \<exists>k. \<forall>n\<ge>k. \<forall>l. \<exists>cs. childLoop n conv False q None (w, l) =
               Some (converted conv q [] cks [] w, l @ cs) \<and>
             writes cs = 2 * countConv conv cks"
  shows "height ks \<le> h \<Longrightarrow> wellFormed w \<Longrightarrow> convertible conv (forest w) \<Longrightarrow>
     find_kids p (forest w) = Some (pre @ ks @ post) \<Longrightarrow>
     \<exists>k. \<forall>n\<ge>k. \<forall>l. \<exists>cs. childResults n conv False p (map listed ks) (w, l) =
            Some (converted conv p pre ks post w, l @ cs) \<and>
          writes cs = 2 * countConv conv ks"
proof (induction ks arbitrary: w pre)
  case Nil
  then have "converted conv p pre [] post w = w"
    by (intro converted_nothing) simp_all
  then have "childResults n conv False p (map listed []) (w, l) =
      Some (converted conv p pre [] post w, l @ []) \<and> writes [] = 2 * countConv conv []" for n l
    by (simp add: writes_def)
  then show ?case by blast
next
  case (Cons k rest)
  obtain b cks where k: "k = Node b cks" by (cases k)
  let ?w1 = "converted conv p pre [Node b cks] (rest @ post) w"
  let ?pre1 = "pre @ fst (convKids conv (next_id w) [Node b cks])"
  from Cons.prems(1) k have hc: "height cks < h" and hr: "height rest \<le> h" by auto
  from Cons.prems(4) k
  have f: "find_kids p (forest w) = Some (pre @ Node b cks # (rest @ post))"
    and f': "find_kids p (forest w) = Some (pre @ [Node b cks] @ (rest @ post))" by simp_all
  from childResults_head_live [OF IH [OF hc] Cons.prems(2,3) f] obtain k1 where
    k1: "\<And>n l bs. n \<ge> k1 \<Longrightarrow> \<exists>cs.
           childResults n conv False p (listed (Node b cks) # bs) (w, l) =
             childResults n conv False p bs (?w1, l @ cs) \<and>
           writes cs = 2 * countConv conv [Node b cks]"
    by blast
  have w1: "wellFormed ?w1" by (rule converted_wf [OF Cons.prems(2,3) f'])
  have c1: "convertible conv (forest ?w1)"
    by (rule converted_convertible [OF tf Cons.prems(3) f'])
  have f1: "find_kids p (forest ?w1) = Some (?pre1 @ rest @ post)"
    using converted_find [OF f] by simp
  from Cons.IH [OF hr w1 c1 f1] obtain k2 where
    k2: "\<And>n l. n \<ge> k2 \<Longrightarrow> \<exists>cs. childResults n conv False p (map listed rest) (?w1, l) =
            Some (converted conv p ?pre1 rest post ?w1, l @ cs) \<and>
          writes cs = 2 * countConv conv rest"
    by blast
  have e: "converted conv p ?pre1 rest post ?w1 = converted conv p pre (k # rest) post w"
    using converted_step [of conv p pre w "[Node b cks]" rest post] k by simp
  have cc: "countConv conv (k # rest) = countConv conv [Node b cks] + countConv conv rest"
    using countConv_append [of conv "[Node b cks]" rest] k by simp
  have "\<exists>cs. childResults n conv False p (map listed (k # rest)) (w, l) =
            Some (converted conv p pre (k # rest) post w, l @ cs) \<and>
          writes cs = 2 * countConv conv (k # rest)" if n: "n \<ge> max k1 k2" for n l
  proof -
    from n have n1: "n \<ge> k1" and n2: "n \<ge> k2" by simp_all
    from k1 [OF n1, of "map listed rest" l] obtain cs1 where
      s1: "childResults n conv False p (listed (Node b cks) # map listed rest) (w, l) =
             childResults n conv False p (map listed rest) (?w1, l @ cs1)"
        "writes cs1 = 2 * countConv conv [Node b cks]"
      by blast
    from k2 [OF n2, of "l @ cs1"] obtain cs2 where
      s2: "childResults n conv False p (map listed rest) (?w1, l @ cs1) =
            Some (converted conv p ?pre1 rest post ?w1, (l @ cs1) @ cs2)"
        "writes cs2 = 2 * countConv conv rest"
      by blast
    have "childResults n conv False p (map listed (k # rest)) (w, l) =
        Some (converted conv p pre (k # rest) post w, l @ (cs1 @ cs2))"
      using s1(1) s2(1) e k by (simp only: list.map append_assoc)
    moreover have "writes (cs1 @ cs2) = 2 * countConv conv (k # rest)"
      using s1(2) s2(2) cc by (simp only: writes_append) simp
    ultimately show ?thesis by blast
  qed
  then show ?case by blast
qed

lemma cursorAt_drop:
  assumes "length ks > 100"
  shows "cursorAt (pre @ a) (drop 100 ks) (Some (bid (nblock (ks ! 100))))"
proof -
  from assms have "drop 100 ks = ks ! 100 # drop (Suc 100) ks"
    by (rule Cons_nth_drop_Suc [symmetric])
  then show ?thesis by (simp only: cursorAt_def option.case list.case)
qed

lemma childLoop_live_pages:
  assumes tf: "toType conv \<noteq> fromType conv"
    and R: "\<And>ks w pre post. height ks \<le> h \<Longrightarrow> wellFormed w \<Longrightarrow> convertible conv (forest w) \<Longrightarrow>
        find_kids p (forest w) = Some (pre @ ks @ post) \<Longrightarrow>
        \<exists>k. \<forall>n\<ge>k. \<forall>l. \<exists>cs. childResults n conv False p (map listed ks) (w, l) =
               Some (converted conv p pre ks post w, l @ cs) \<and>
             writes cs = 2 * countConv conv ks"
  shows "length ks \<le> m \<Longrightarrow> height ks \<le> h \<Longrightarrow> wellFormed w \<Longrightarrow> convertible conv (forest w) \<Longrightarrow>
     find_kids p (forest w) = Some (pre @ ks) \<Longrightarrow> cursorAt pre ks cursor \<Longrightarrow>
     \<exists>k. \<forall>n\<ge>k. \<forall>l. \<exists>cs. childLoop n conv False p cursor (w, l) =
            Some (converted conv p pre ks [] w, l @ cs) \<and>
          writes cs = 2 * countConv conv ks"
proof (induction m arbitrary: ks w pre cursor rule: less_induct)
  case (less m)
  let ?a = "take 100 ks" and ?b = "drop 100 ks"
  let ?w1 = "converted conv p pre ?a ?b w"
  let ?pre1 = "pre @ fst (convKids conv (next_id w) ?a)"
  let ?resp = "\<lparr>results = map listed ?a, has_more = (length ks > 100),
                next_cursor = (if length ks > 100 then Some (bid (nblock (ks ! 100))) else None)\<rparr>"
  have d: "distinct (kidIds (pre @ ks))"
    using wf_kids_distinct [OF less.prems(3,5)] by (rule kidIds_distinct)
  have la: "blocks_children_list w p cursor = Inr ?resp"
    by (rule list_at [OF less.prems(5,6) d])
  have ha: "height ?a \<le> h" using height_take [of 100 ks] less.prems(2) by simp
  have f': "find_kids p (forest w) = Some (pre @ ?a @ ?b)" using less.prems(5) by simp
  from R [OF ha less.prems(3,4) f'] obtain k1 where
    k1: "\<And>n l. n \<ge> k1 \<Longrightarrow> \<exists>cs. childResults n conv False p (map listed ?a) (w, l) =
               Some (?w1, l @ cs) \<and> writes cs = 2 * countConv conv ?a"
    by blast
  have e: "converted conv p ?pre1 ?b [] ?w1 = converted conv p pre ks [] w"
    using converted_step [of conv p pre w ?a ?b "[]"] by simp
  have cc: "countConv conv ks = countConv conv ?a + countConv conv ?b"
    using countConv_append [of conv ?a ?b] by simp
  show ?case
  proof (cases "length ks > 100")
    case False
    then have ab: "?a = ks" "?b = []" by simp_all
    have "\<exists>cs. childLoop n conv False p cursor (w, l) =
            Some (converted conv p pre ks [] w, l @ cs) \<and>
          writes cs = 2 * countConv conv ks" if n: "n \<ge> Suc k1" for n l
    proof -
      from n obtain n' where n': "n = Suc n'" "n' \<ge> k1" by (cases n) auto
      from k1 [OF n'(2), of "l @ [ListCall p cursor]"] obtain cs where
        s: "childResults n' conv False p (map listed ?a) (w, l @ [ListCall p cursor]) =
               Some (?w1, (l @ [ListCall p cursor]) @ cs)"
          "writes cs = 2 * countConv conv ?a"
        by blast
      have "childLoop n conv False p cursor (w, l) =
          Some (converted conv p pre ks [] w, l @ ([ListCall p cursor] @ cs))"
        using la s(1) False ab by (simp add: n'(1))
      moreover have "writes ([ListCall p cursor] @ cs) = 2 * countConv conv ks"
        using s(2) ab by (simp add: writes_def isListCall_def)
      ultimately show ?thesis by blast
    qed
    then show ?thesis by blast
  next
    case True
    have w1: "wellFormed ?w1" by (rule converted_wf [OF less.prems(3,4) f'])
    have c1: "convertible conv (forest ?w1)"
      by (rule converted_convertible [OF tf less.prems(4) f'])
    have f1: "find_kids p (forest ?w1) = Some (?pre1 @ ?b)"
      by (simp add: converted_find [OF f'])
    have lb: "length ?b \<le> length ?b" by simp
    have lt: "length ?b < m" using True less.prems(1) by simp
    have hb: "height ?b \<le> h" using height_drop [of 100 ks] less.prems(2) by simp
    have cu: "cursorAt ?pre1 ?b (Some (bid (nblock (ks ! 100))))"
      by (rule cursorAt_drop [OF True])
    from less.IH [OF lt lb hb w1 c1 f1 cu] obtain k2 where
      k2: "\<And>n l. n \<ge> k2 \<Longrightarrow> \<exists>cs.
             childLoop n conv False p (Some (bid (nblock (ks ! 100)))) (?w1, l) =
               Some (converted conv p ?pre1 ?b [] ?w1, l @ cs) \<and>
             writes cs = 2 * countConv conv ?b"
      by blast
    have "\<exists>cs. childLoop n conv False p cursor (w, l) =
            Some (converted conv p pre ks [] w, l @ cs) \<and>
          writes cs = 2 * countConv conv ks" if n: "n \<ge> Suc (max k1 k2)" for n l
    proof -
      from n obtain n' where n': "n = Suc n'" "n' \<ge> k1" "n' \<ge> k2" by (cases n) auto
      from k1 [OF n'(2), of "l @ [ListCall p cursor]"] obtain cs1 where
        s1: "childResults n' conv False p (map listed ?a) (w, l @ [ListCall p cursor]) =
               Some (?w1, (l @ [ListCall p cursor]) @ cs1)"
          "writes cs1 = 2 * countConv conv ?a"
        by blast
      from k2 [OF n'(3), of "(l @ [ListCall p cursor]) @ cs1"] obtain cs2 where
        s2: "childLoop n' conv False p (Some (bid (nblock (ks ! 100))))
               (?w1, (l @ [ListCall p cursor]) @ cs1) =
               Some (converted conv p ?pre1 ?b [] ?w1, ((l @ [ListCall p cursor]) @ cs1) @ cs2)"
          "writes cs2 = 2 * countConv conv ?b"
        by blast
      have "childLoop n conv False p cursor (w, l) =
          Some (converted conv p pre ks [] w, l @ ([ListCall p cursor] @ cs1 @ cs2))"
        using la s1(1) s2(1) True e by (simp add: n'(1))
      moreover have "writes ([ListCall p cursor] @ cs1 @ cs2) = 2 * countConv conv ks"
        using s1(2) s2(2) cc by (simp add: writes_def isListCall_def)
      ultimately show ?thesis by blast
    qed
    then show ?thesis by blast
  qed
qed

lemma childLoop_live_height:
  assumes tf: "toType conv \<noteq> fromType conv"
  shows "height ks \<le> h \<Longrightarrow> wellFormed w \<Longrightarrow> convertible conv (forest w) \<Longrightarrow>
     find_kids p (forest w) = Some ks \<Longrightarrow>
     \<exists>k. \<forall>n\<ge>k. \<forall>l. \<exists>cs. childLoop n conv False p None (w, l) =
            Some (converted conv p [] ks [] w, l @ cs) \<and>
          writes cs = 2 * countConv conv ks"
proof (induction h arbitrary: ks w p rule: less_induct)
  case (less h)
  have IH: "\<exists>k. \<forall>n\<ge>k. \<forall>l. \<exists>cs. childLoop n conv False q None (w, l) =
               Some (converted conv q [] cks [] w, l @ cs) \<and>
             writes cs = 2 * countConv conv cks"
    if "height cks < h" "wellFormed w" "convertible conv (forest w)" "find_kids q (forest w) = Some cks"
    for cks w q
    using less.IH [OF that(1) order_refl that(2,3,4)] .
  have f: "find_kids p (forest w) = Some ([] @ ks)" using less.prems(4) by simp
  have c: "cursorAt [] ks None" by (simp add: cursorAt_def)
  show ?case
    by (rule childLoop_live_pages [OF tf childResults_live [OF tf IH] order_refl
          less.prems(1,2,3) f c])
qed

lemma childLoop_live:
  assumes "toType conv \<noteq> fromType conv" and "wellFormed w" and "convertible conv (forest w)"
    and "find_kids p (forest w) = Some ks"
  shows "\<exists>k. \<forall>n\<ge>k. \<forall>l. \<exists>cs. childLoop n conv False p None (w, l) =
            Some (converted conv p [] ks [] w, l @ cs) \<and>
          writes cs = 2 * countConv conv ks"
  by (rule childLoop_live_height [OF assms(1) order_refl assms(2,3,4)])

text \<open>
  Claim C4.  In a well-formed workspace, converting a to_do block that has a span list
  succeeds: the append call puts the new block directly after the to_do among its
  siblings, the delete call then removes the to_do, whose identifier no longer resolves
  (it is gone from the workspace and listing it throws).  The new block is a
  bulleted_list_item with exactly the spans of the to_do, in the same order, and with
  the to_do's color when it has one.
\<close>

theorem todo_converted_in_place:
  assumes "wellFormed w" and "find_kids parentId (forest w) = Some (pre @ Node b cks # post)"
    and "btype b = ''to_do''" and "rich_text b = Some spans"
  shows "\<exists>child new w1 w2.
     newChild checkboxConverter (listed (Node b cks)) = Inr child \<and>
     created w child = Node new [] \<and>
     blocks_children_append w parentId child (bid b) = Inr w1 \<and>
     find_kids parentId (forest w1) = Some (pre @ Node b cks # Node new [] # post) \<and>
     convertBlock checkboxConverter w parentId (listed (Node b cks)) =
       (None, w2, [AppendCall parentId (bid b) child, DeleteCall (bid b)]) \<and>
     find_kids parentId (forest w2) = Some (pre @ Node new [] # post) \<and>
     bid b \<notin> set (ids (forest w2)) \<and>
     blocks_children_list w2 (bid b) None = Inl ''Could not find block'' \<and>
     btype new = ''bulleted_list_item'' \<and> rich_text new = Some spans \<and>
     (\<forall>c. color b = Some c \<and> c \<noteq> [] \<longrightarrow> color new = color b)"
proof -
  define child where "child = \<lparr>bid = 0, btype = ''bulleted_list_item'', has_children = False,
      rich_text = Some spans,
      color = Some (case color b of None \<Rightarrow> ''default''
                    | Some c \<Rightarrow> if c = [] then ''default'' else c),
      checked = None, language = None, cells = None\<rparr>"
  define new where "new = child\<lparr>bid := next_id w, has_children := False\<rparr>"
  define w1 where "w1 = \<lparr>forest = update_kids parentId
      (\<lambda>_. pre @ Node b cks # created w child # post) (forest w), next_id = Suc (next_id w)\<rparr>"
  define w2 where "w2 = \<lparr>forest = update_kids parentId
      (\<lambda>_. pre @ created w child # post) (forest w), next_id = Suc (next_id w)\<rparr>"
  have c: "newChild checkboxConverter (listed (Node b cks)) = Inr child"
    using assms(4) by (simp add: newChild_def checkboxConverter_def listed_def child_def)
  have cr: "created w child = Node new []" by (simp add: created_def new_def)
  have i: "bid (listed (Node b cks)) = bid b" by (simp add: listed_def)
  note cb = convertBlock_in_place [OF assms(1,2) c i]
  have a: "blocks_children_append w parentId child (bid b) = Inr w1"
    using append_in_place(1) [OF assms(1,2)] by (simp add: w1_def)
  have f1: "find_kids parentId (forest w1) = Some (pre @ Node b cks # Node new [] # post)"
    using assms(2) cr by (simp add: w1_def update_kids_find)
  have f2: "find_kids parentId (forest w2) = Some (pre @ Node new [] # post)"
    using assms(2) cr by (simp add: w2_def update_kids_find)
  have gone: "bid b \<notin> set (ids (forest w2))" using cb(3) by (simp add: w2_def)
  then have "find_kids (bid b) (forest w2) = None" by (simp add: find_kids_None)
  then have l: "blocks_children_list w2 (bid b) None = Inl ''Could not find block''"
    by (simp add: blocks_children_list_def)
  have "btype new = ''bulleted_list_item''" "rich_text new = Some spans"
    "\<forall>c. color b = Some c \<and> c \<noteq> [] \<longrightarrow> color new = color b"
    by (simp_all add: new_def child_def)
  with c cr a f1 cb(1) f2 gone l show ?thesis
    unfolding w2_def by blast
qed

theorem todo_converted_in_place_witness:
  "wellFormed milkWs \<and>
   find_kids 1 (forest milkWs) =
     Some ([paraNode 2 ''Shopping'' []] @
           Node ((textBlock 4 ''to_do'' [''Buy milk''])\<lparr>checked := Some True\<rparr>)
             [paraNode 5 ''two litres'' []] # [paraNode 6 ''Done'' []]) \<and>
   (\<exists>child new w2.
      convertBlock checkboxConverter milkWs 1
        (listed (todoNode 4 ''Buy milk'' [paraNode 5 ''two litres'' []])) =
        (None, w2, [AppendCall 1 4 child, DeleteCall 4]) \<and>
      find_kids 1 (forest w2) =
        Some ([paraNode 2 ''Shopping'' []] @ Node new [] # [paraNode 6 ''Done'' []]) \<and>
      4 \<notin> set (ids (forest w2)) \<and>
      btype new = ''bulleted_list_item'' \<and>
      map (\<lambda>item. map_option content (rt_text item)) (the (rich_text new)) = [Some ''Buy milk''] \<and>
      color new = Some ''default'')"
proof -
  have w: "wellFormed milkWs"
    by (simp add: wellFormed_def milkWs_def pageNode_def paraNode_def todoNode_def textBlock_def
        plainBlock_def)
  have f: "find_kids 1 (forest milkWs) =
     Some ([paraNode 2 ''Shopping'' []] @
           Node ((textBlock 4 ''to_do'' [''Buy milk''])\<lparr>checked := Some True\<rparr>)
             [paraNode 5 ''two litres'' []] # [paraNode 6 ''Done'' []])"
    by (simp add: milkWs_def pageNode_def paraNode_def todoNode_def textBlock_def plainBlock_def)
  have t: "btype ((textBlock 4 ''to_do'' [''Buy milk''])\<lparr>checked := Some True\<rparr>) = ''to_do''"
    and r: "rich_text ((textBlock 4 ''to_do'' [''Buy milk''])\<lparr>checked := Some True\<rparr>) =
      Some [textSpan ''Buy milk'']"
    and c: "color ((textBlock 4 ''to_do'' [''Buy milk''])\<lparr>checked := Some True\<rparr>) = Some ''default''"
    and i: "bid ((textBlock 4 ''to_do'' [''Buy milk''])\<lparr>checked := Some True\<rparr>) = 4"
    by (simp_all add: textBlock_def)
  from todo_converted_in_place [OF w f t r] c i w f show ?thesis
    by (auto simp: todoNode_def textSpan_def)
qed

text \<open>
  Claim C9.  The converter is to leave the children of a matching to_do alone.  The
  loop over the blocks of a page does: its test of \<^verbatim>\<open>has_children\<close> is the \<^verbatim>\<open>else\<close> branch
  of the test for a to_do.  In \<^verbatim>\<open>processChildBlocks\<close> the \<^verbatim>\<open>else\<close> is missing, so for the
  to_do 4 below the paragraph 2 the function calls itself on block 4: the dry run lists
  the children of the to_do, and the live run lists them after it has deleted the
  to_do.
\<close>

theorem nested_todo_children_listed:
  "map_option plog (convertCheckboxesToBullets 3 True nestedWs) =
     Some [ListCall 1 None, ListCall 2 None, ListCall 4 None] \<and>
   map_option (\<lambda>p. filter isListCall (plog p)) (convertCheckboxesToBullets 3 False nestedWs) =
     Some [ListCall 1 None, ListCall 2 None, ListCall 4 None]"
  by code_simp

lemma pageResults_match:
  assumes "wellFormed w" and f: "find_kids pg (forest w) = Some (pre @ Node b cks # post)"
    and t: "btype b = fromType conv" and r: "rich_text b \<noteq> None"
  shows "\<exists>child. newChild conv b = Inr child \<and> (\<forall>n bs p cnt.
     pageResults n conv False pg (listed (Node b cks) # bs) (p\<lparr>pws := w\<rparr>, cnt) =
       pageResults n conv False pg bs
         (p\<lparr>pws := converted conv pg pre [Node b cks] post w,
            plog := plog p @ [AppendCall pg (bid b) child, DeleteCall (bid b)],
            totalCheckboxes := Suc (totalCheckboxes p),
            convertedCheckboxes := Suc (convertedCheckboxes p)\<rparr>, Suc cnt))"
proof -
  from convertBlock_converted [OF assms] obtain child
    where c: "newChild conv b = Inr child"
      and cb: "convertBlock conv w pg (listed (Node b cks)) =
           (None, converted conv pg pre [Node b cks] post w,
            [AppendCall pg (bid b) child, DeleteCall (bid b)])"
    by blast
  have "pageResults n conv False pg (listed (Node b cks) # bs) (p\<lparr>pws := w\<rparr>, cnt) =
       pageResults n conv False pg bs
         (p\<lparr>pws := converted conv pg pre [Node b cks] post w,
            plog := plog p @ [AppendCall pg (bid b) child, DeleteCall (bid b)],
            totalCheckboxes := Suc (totalCheckboxes p),
            convertedCheckboxes := Suc (convertedCheckboxes p)\<rparr>, Suc cnt)" for n bs p cnt
    using t cb by (cases p) (simp add: Let_def)
  with c show ?thesis by blast
qed

text \<open>
  What a conversion keeps and what it drops.  The block that replaces a converted to_do
  has no checked state and no children, and the to_do is removed with everything below
  it.  The loop over the blocks of a page goes on with the next block after the two
  calls of the conversion; \<^verbatim>\<open>processChildBlocks\<close> makes the same two calls and then, when
  the to_do had children, the listing call on the removed to_do.
\<close>

theorem todo_replacement_drops_checked_and_children:
  assumes "wellFormed w" and "find_kids parentId (forest w) = Some (pre @ Node b cks # post)"
    and "btype b = ''to_do''" and "rich_text b = Some spans"
  shows "\<exists>child w2.
     convertBlock checkboxConverter w parentId (listed (Node b cks)) =
       (None, w2, [AppendCall parentId (bid b) child, DeleteCall (bid b)]) \<and>
     find_kids parentId (forest w2) = Some (pre @ created w child # post) \<and>
     checked (nblock (created w child)) = None \<and> nkids (created w child) = [] \<and>
     rich_text (nblock (created w child)) = Some spans \<and>
     set (ids [Node b cks]) \<inter> set (ids (forest w2)) = {} \<and>
     (\<forall>n bs p cnt.
        pageResults n checkboxConverter False parentId (listed (Node b cks) # bs)
            (p\<lparr>pws := w\<rparr>, cnt) =
          pageResults n checkboxConverter False parentId bs
            (p\<lparr>pws := w2,
               plog := plog p @ [AppendCall parentId (bid b) child, DeleteCall (bid b)],
               totalCheckboxes := Suc (totalCheckboxes p),
               convertedCheckboxes := Suc (convertedCheckboxes p)\<rparr>, Suc cnt)) \<and>
     (\<forall>n bs l.
        childResults (Suc n) checkboxConverter False parentId (listed (Node b cks) # bs) (w, l) =
          childResults (Suc n) checkboxConverter False parentId bs
            (w2, l @ [AppendCall parentId (bid b) child, DeleteCall (bid b)] @
                   (if cks = [] then [] else [ListCall (bid b) None])))"
proof -
  let ?w2 = "converted checkboxConverter parentId pre [Node b cks] post w"
  have t: "btype b = fromType checkboxConverter"
    using assms(3) by (simp add: checkboxConverter_def)
  have r: "rich_text b \<noteq> None" using assms(4) by simp
  from convertBlock_converted [OF assms(1,2) t r] obtain child
    where c: "newChild checkboxConverter b = Inr child"
      and cb: "convertBlock checkboxConverter w parentId (listed (Node b cks)) =
           (None, ?w2, [AppendCall parentId (bid b) child, DeleteCall (bid b)])"
      and g: "bid b \<notin> set (ids (forest ?w2))"
      and k: "set (ids cks) \<inter> set (ids (forest ?w2)) = {}"
      and f: "find_kids parentId (forest ?w2) = Some (pre @ created w child # post)"
    by blast
  from c assms(4) have ch: "checked (nblock (created w child)) = None"
    "nkids (created w child) = []" "rich_text (nblock (created w child)) = Some spans"
    by (auto simp: newChild_def created_def checkboxConverter_def)
  from g k have gone: "set (ids [Node b cks]) \<inter> set (ids (forest ?w2)) = {}" by simp
  from pageResults_match [OF assms(1,2) t r] c
  have pg: "\<forall>n bs p cnt.
        pageResults n checkboxConverter False parentId (listed (Node b cks) # bs)
            (p\<lparr>pws := w\<rparr>, cnt) =
          pageResults n checkboxConverter False parentId bs
            (p\<lparr>pws := ?w2,
               plog := plog p @ [AppendCall parentId (bid b) child, DeleteCall (bid b)],
               totalCheckboxes := Suc (totalCheckboxes p),
               convertedCheckboxes := Suc (convertedCheckboxes p)\<rparr>, Suc cnt)"
    by auto
  from childResults_match [OF assms(1,2) t r] c
  have cl: "\<forall>n bs l.
        childResults (Suc n) checkboxConverter False parentId (listed (Node b cks) # bs) (w, l) =
          childResults (Suc n) checkboxConverter False parentId bs
            (?w2, l @ [AppendCall parentId (bid b) child, DeleteCall (bid b)] @
                   (if cks = [] then [] else [ListCall (bid b) None]))"
    by auto
  from cb f ch gone pg cl show ?thesis by blast
qed

theorem todo_replacement_drops_checked_and_children_witness:
  "wellFormed nestedWs \<and>
   find_kids 2 (forest nestedWs) =
     Some ([] @ Node ((textBlock 4 ''to_do'' [''Buy milk''])\<lparr>checked := Some True\<rparr>)
                  [paraNode 5 ''two litres'' []] # []) \<and>
   (\<exists>child w2.
      convertBlock checkboxConverter nestedWs 2
        (listed (todoNode 4 ''Buy milk'' [paraNode 5 ''two litres'' []])) =
        (None, w2, [AppendCall 2 4 child, DeleteCall 4]) \<and>
      find_kids 2 (forest w2) = Some [created nestedWs child] \<and>
      checked (nblock (created nestedWs child)) = None \<and>
      nkids (created nestedWs child) = [] \<and>
      4 \<notin> set (ids (forest w2)) \<and> 5 \<notin> set (ids (forest w2)) \<and>
      childResults 1 checkboxConverter False 2
        [listed (todoNode 4 ''Buy milk'' [paraNode 5 ''two litres'' []])] (nestedWs, []) =
        Some (w2, [AppendCall 2 4 child, DeleteCall 4, ListCall 4 None]))"
proof -
  have w: "wellFormed nestedWs"
    by (simp add: wellFormed_def nestedWs_def pageNode_def paraNode_def todoNode_def textBlock_def
        plainBlock_def)
  have f: "find_kids 2 (forest nestedWs) =
     Some ([] @ Node ((textBlock 4 ''to_do'' [''Buy milk''])\<lparr>checked := Some True\<rparr>)
                  [paraNode 5 ''two litres'' []] # [])"
    by (simp add: nestedWs_def pageNode_def paraNode_def todoNode_def textBlock_def
        plainBlock_def)
  have t: "btype ((textBlock 4 ''to_do'' [''Buy milk''])\<lparr>checked := Some True\<rparr>) = ''to_do''"
    and r: "rich_text ((textBlock 4 ''to_do'' [''Buy milk''])\<lparr>checked := Some True\<rparr>) =
      Some [textSpan ''Buy milk'']"
    and i: "bid ((textBlock 4 ''to_do'' [''Buy milk''])\<lparr>checked := Some True\<rparr>) = 4"
    by (simp_all add: textBlock_def)
  have p: "paraNode 5 ''two litres'' [] = Node (textBlock 5 ''paragraph'' [''two litres'']) []"
    by (simp add: paraNode_def)
  from todo_replacement_drops_checked_and_children [OF w f t r] obtain child w2 where
    a: "convertBlock checkboxConverter nestedWs 2
        (listed (Node ((textBlock 4 ''to_do'' [''Buy milk''])\<lparr>checked := Some True\<rparr>)
           [paraNode 5 ''two litres'' []])) =
        (None, w2, [AppendCall 2 4 child, DeleteCall 4])"
    and b: "find_kids 2 (forest w2) = Some [created nestedWs child]"
      "checked (nblock (created nestedWs child)) = None"
      "nkids (created nestedWs child) = []"
    and g: "set (ids [Node ((textBlock 4 ''to_do'' [''Buy milk''])\<lparr>checked := Some True\<rparr>)
           [paraNode 5 ''two litres'' []]]) \<inter> set (ids (forest w2)) = {}"
    and c: "\<forall>n bs l.
        childResults (Suc n) checkboxConverter False 2
          (listed (Node ((textBlock 4 ''to_do'' [''Buy milk''])\<lparr>checked := Some True\<rparr>)
             [paraNode 5 ''two litres'' []]) # bs) (nestedWs, l) =
          childResults (Suc n) checkboxConverter False 2 bs
            (w2, l @ [AppendCall 2 4 child, DeleteCall 4] @
                   (if [paraNode 5 ''two litres'' []] = [] then [] else [ListCall 4 None]))"
    unfolding i by (elim exE conjE) simp
  from g have g': "4 \<notin> set (ids (forest w2))" "5 \<notin> set (ids (forest w2))"
    by (auto simp: p textBlock_def)
  from c [rule_format, of 0 "[]" "[]"]
  have c': "childResults 1 checkboxConverter False 2
      [listed (Node ((textBlock 4 ''to_do'' [''Buy milk''])\<lparr>checked := Some True\<rparr>)
             [paraNode 5 ''two litres'' []])] (nestedWs, []) =
      Some (w2, [AppendCall 2 4 child, DeleteCall 4, ListCall 4 None])"
    by simp
  from w f a b g' c' show ?thesis
    unfolding todoNode_def by blast
qed

section \<open>The live run over a page\<close>

lemma advance_advance:
  "advance (advance p w1 cs1 k1) w2 cs2 k2 = advance p w2 (cs1 @ cs2) (k1 + k2)"
  by (simp add: advance_def add.assoc)

lemma advance_fields [simp]:
  "pws (advance p w cs k) = w" "plog (advance p w cs k) = plog p @ cs"
  "totalCheckboxes (advance p w cs k) = totalCheckboxes p + k"
  "convertedCheckboxes (advance p w cs k) = convertedCheckboxes p + k"
  "pagesWithCheckboxes (advance p w cs k) = pagesWithCheckboxes p"
  "errors (advance p w cs k) = errors p"
  by (simp_all add: advance_def)

lemma advance_nothing: "pws p = w \<Longrightarrow> advance p w [] 0 = p"
  by (auto simp: advance_def)

lemma topCount_append: "topCount conv (a @ b) = topCount conv a + topCount conv b"
  by (simp add: topCount_def)

lemma topCount_Cons:
  "topCount conv (Node b cks # rest) =
     (if btype b = fromType conv then 1 else 0) + topCount conv rest"
  by (simp add: topCount_def)

lemma pageResults_other:
  assumes t: "btype b \<noteq> fromType conv"
  shows "pageResults n conv dryRun pg (listed (Node b cks) # bs) (p, cnt) =
     (if cks = [] then pageResults n conv dryRun pg bs (p, cnt)
      else (case childLoop n conv dryRun (bid b) None (pws p, plog p) of
              None \<Rightarrow> None
            | Some (w, l) \<Rightarrow> pageResults n conv dryRun pg bs (p\<lparr>pws := w, plog := l\<rparr>, cnt)))"
  using t by (simp split: option.splits)

lemma pageResults_head_live:
  assumes tf: "toType conv \<noteq> fromType conv"
    and w: "wellFormed w" and c: "convertible conv (forest w)"
    and f: "find_kids pg (forest w) = Some (pre @ Node b cks # post)"
  shows "\<exists>k. \<forall>n\<ge>k. \<forall>bs p cnt. pws p = w \<longrightarrow> (\<exists>cs.
           pageResults n conv False pg (listed (Node b cks) # bs) (p, cnt) =
             pageResults n conv False pg bs
               (advance p (converted conv pg pre [Node b cks] post w) cs
                  (topCount conv [Node b cks]), cnt + topCount conv [Node b cks]) \<and>
           writes cs = 2 * countConv conv [Node b cks])"
proof (cases "btype b = fromType conv")
  case True
  from convertible_find [OF c f] True have r: "rich_text b \<noteq> None"
    by (simp add: convertible_append)
  from pageResults_match [OF w f True r] obtain child where
    s: "\<And>n bs q cnt. pageResults n conv False pg (listed (Node b cks) # bs)
          (q\<lparr>pws := w\<rparr>, cnt) =
       pageResults n conv False pg bs
         (q\<lparr>pws := converted conv pg pre [Node b cks] post w,
            plog := plog q @ [AppendCall pg (bid b) child, DeleteCall (bid b)],
            totalCheckboxes := Suc (totalCheckboxes q),
            convertedCheckboxes := Suc (convertedCheckboxes q)\<rparr>, Suc cnt)"
    by blast
  have "pageResults n conv False pg (listed (Node b cks) # bs) (p, cnt) =
             pageResults n conv False pg bs
               (advance p (converted conv pg pre [Node b cks] post w)
                  [AppendCall pg (bid b) child, DeleteCall (bid b)]
                  (topCount conv [Node b cks]), cnt + topCount conv [Node b cks]) \<and>
           writes [AppendCall pg (bid b) child, DeleteCall (bid b)] =
             2 * countConv conv [Node b cks]" if "pws p = w" for n bs p cnt
  proof -
    from that have "p\<lparr>pws := w\<rparr> = p" by simp
    with s [of n bs p cnt] True show ?thesis
      by (simp add: advance_def topCount_def writes_def isListCall_def)
  qed
  then show ?thesis by blast
next
  case False
  show ?thesis
  proof (cases "cks = []")
    case True
    have "pageResults n conv False pg (listed (Node b cks) # bs) (p, cnt) =
             pageResults n conv False pg bs
               (advance p (converted conv pg pre [Node b cks] post w) []
                  (topCount conv [Node b cks]), cnt + topCount conv [Node b cks]) \<and>
           writes [] = 2 * countConv conv [Node b cks]" if "pws p = w" for n bs p cnt
      using False True converted_leaf [of pg w pre b post conv] f advance_nothing [OF that]
      by (simp add: pageResults_other topCount_def writes_def)
    then show ?thesis by blast
  next
    case ne: False
    from childLoop_live [OF tf w c find_kids_child [OF w f]] obtain k where
      k: "\<And>n l. n \<ge> k \<Longrightarrow> \<exists>cs. childLoop n conv False (bid b) None (w, l) =
               Some (converted conv (bid b) [] cks [] w, l @ cs) \<and>
             writes cs = 2 * countConv conv cks"
      by blast
    have "\<exists>cs. pageResults n conv False pg (listed (Node b cks) # bs) (p, cnt) =
             pageResults n conv False pg bs
               (advance p (converted conv pg pre [Node b cks] post w) cs
                  (topCount conv [Node b cks]), cnt + topCount conv [Node b cks]) \<and>
           writes cs = 2 * countConv conv [Node b cks]" if "n \<ge> k" "pws p = w" for n bs p cnt
    proof -
      from k [OF that(1), of "plog p"] obtain cs where
        cs: "childLoop n conv False (bid b) None (w, plog p) =
               Some (converted conv (bid b) [] cks [] w, plog p @ cs)"
          "writes cs = 2 * countConv conv cks"
        by blast
      have "pageResults n conv False pg (listed (Node b cks) # bs) (p, cnt) =
             pageResults n conv False pg bs
               (advance p (converted conv pg pre [Node b cks] post w) cs
                  (topCount conv [Node b cks]), cnt + topCount conv [Node b cks])"
        using cs(1) ne False converted_descend [OF w f False] that(2)
        by (simp add: pageResults_other [OF False] advance_def topCount_def)
      with cs(2) False show ?thesis by auto
    qed
    then show ?thesis by blast
  qed
qed

lemma pageResults_live:
  assumes tf: "toType conv \<noteq> fromType conv"
  shows "wellFormed w \<Longrightarrow> convertible conv (forest w) \<Longrightarrow>
     find_kids pg (forest w) = Some (pre @ ks @ post) \<Longrightarrow>
     \<exists>k. \<forall>n\<ge>k. \<forall>p cnt. pws p = w \<longrightarrow> (\<exists>cs.
            pageResults n conv False pg (map listed ks) (p, cnt) =
              Some (advance p (converted conv pg pre ks post w) cs (topCount conv ks),
                    cnt + topCount conv ks) \<and>
            writes cs = 2 * countConv conv ks)"
proof (induction ks arbitrary: w pre)
  case Nil
  then have "converted conv pg pre [] post w = w"
    by (intro converted_nothing) simp_all
  then have "pageResults n conv False pg (map listed []) (p, cnt) =
      Some (advance p (converted conv pg pre [] post w) [] (topCount conv []),
            cnt + topCount conv []) \<and> writes [] = 2 * countConv conv []"
    if "pws p = w" for n p cnt
    using advance_nothing [OF that] by (simp add: writes_def topCount_def)
  then show ?case by blast
next
  case (Cons k rest)
  obtain b cks where k: "k = Node b cks" by (cases k)
  let ?w1 = "converted conv pg pre [Node b cks] (rest @ post) w"
  let ?pre1 = "pre @ fst (convKids conv (next_id w) [Node b cks])"
  let ?t1 = "topCount conv [Node b cks]"
  from Cons.prems(3) k
  have f: "find_kids pg (forest w) = Some (pre @ Node b cks # (rest @ post))"
    and f': "find_kids pg (forest w) = Some (pre @ [Node b cks] @ (rest @ post))" by simp_all
  from pageResults_head_live [OF tf Cons.prems(1,2) f] obtain k1 where
    k1: "\<And>n bs p cnt. n \<ge> k1 \<Longrightarrow> pws p = w \<Longrightarrow> \<exists>cs.
           pageResults n conv False pg (listed (Node b cks) # bs) (p, cnt) =
             pageResults n conv False pg bs (advance p ?w1 cs ?t1, cnt + ?t1) \<and>
           writes cs = 2 * countConv conv [Node b cks]"
    by blast
  have w1: "wellFormed ?w1" by (rule converted_wf [OF Cons.prems(1,2) f'])
  have c1: "convertible conv (forest ?w1)"
    by (rule converted_convertible [OF tf Cons.prems(2) f'])
  have f1: "find_kids pg (forest ?w1) = Some (?pre1 @ rest @ post)"
    using converted_find [OF f] by simp
  from Cons.IH [OF w1 c1 f1] obtain k2 where
    k2: "\<And>n p cnt. n \<ge> k2 \<Longrightarrow> pws p = ?w1 \<Longrightarrow> \<exists>cs.
          pageResults n conv False pg (map listed rest) (p, cnt) =
            Some (advance p (converted conv pg ?pre1 rest post ?w1) cs (topCount conv rest),
                  cnt + topCount conv rest) \<and>
          writes cs = 2 * countConv conv rest"
    by blast
  have e: "converted conv pg ?pre1 rest post ?w1 = converted conv pg pre (Node b cks # rest) post w"
    using converted_step [of conv pg pre w "[Node b cks]" rest post] by simp
  have cc: "countConv conv (Node b cks # rest) = countConv conv [Node b cks] + countConv conv rest"
    using countConv_append [of conv "[Node b cks]" rest] by simp
  have tc: "topCount conv (Node b cks # rest) = ?t1 + topCount conv rest"
    using topCount_append [of conv "[Node b cks]" rest] by simp
  have "\<exists>cs. pageResults n conv False pg (map listed (Node b cks # rest)) (p, cnt) =
            Some (advance p (converted conv pg pre (Node b cks # rest) post w) cs
                    (topCount conv (Node b cks # rest)), cnt + topCount conv (Node b cks # rest)) \<and>
          writes cs = 2 * countConv conv (Node b cks # rest)"
    if n: "n \<ge> max k1 k2" and p: "pws p = w" for n p cnt
  proof -
    from n have n1: "n \<ge> k1" and n2: "n \<ge> k2" by simp_all
    from k1 [OF n1 p, of "map listed rest" cnt] obtain cs1 where
      s1: "pageResults n conv False pg (listed (Node b cks) # map listed rest) (p, cnt) =
             pageResults n conv False pg (map listed rest) (advance p ?w1 cs1 ?t1, cnt + ?t1)"
        "writes cs1 = 2 * countConv conv [Node b cks]"
      by blast
    have "pws (advance p ?w1 cs1 ?t1) = ?w1" by simp
    from k2 [OF n2 this, of "cnt + ?t1"] obtain cs2 where
      s2: "pageResults n conv False pg (map listed rest) (advance p ?w1 cs1 ?t1, cnt + ?t1) =
            Some (advance (advance p ?w1 cs1 ?t1) (converted conv pg ?pre1 rest post ?w1) cs2
                    (topCount conv rest), cnt + ?t1 + topCount conv rest)"
        "writes cs2 = 2 * countConv conv rest"
      by blast
    have "pageResults n conv False pg (map listed (Node b cks # rest)) (p, cnt) =
        Some (advance p (converted conv pg pre (Node b cks # rest) post w) (cs1 @ cs2)
                (topCount conv (Node b cks # rest)), cnt + topCount conv (Node b cks # rest))"
      using s1(1) s2(1)
      by (simp only: list.map e tc advance_advance add.assoc)
    moreover have "writes (cs1 @ cs2) = 2 * countConv conv (Node b cks # rest)"
      using s1(2) s2(2) cc by (simp only: writes_append) simp
    ultimately show ?thesis by blast
  qed
  then show ?case unfolding k by blast
qed

lemma pageLoop_step:
  assumes "blocks_children_list w pg cursor = Inr resp" and "pws p = w"
  shows "pageLoop (Suc n) conv dryRun pg cursor (p, cnt) =
     (case pageResults n conv dryRun pg (results resp)
             (advance p w [ListCall pg cursor] 0, cnt) of
        None \<Rightarrow> None
      | Some st' \<Rightarrow>
          if has_more resp then pageLoop n conv dryRun pg (next_cursor resp) st'
          else Some (fst st', Some (snd st')))"
  using assms by (cases p) (simp add: advance_def)

lemma pageLoop_live_pages:
  assumes tf: "toType conv \<noteq> fromType conv"
  shows "length ks \<le> m \<Longrightarrow> wellFormed w \<Longrightarrow> convertible conv (forest w) \<Longrightarrow>
     find_kids pg (forest w) = Some (pre @ ks) \<Longrightarrow> cursorAt pre ks cursor \<Longrightarrow>
     \<exists>k. \<forall>n\<ge>k. \<forall>p cnt. pws p = w \<longrightarrow> (\<exists>cs.
            pageLoop n conv False pg cursor (p, cnt) =
              Some (advance p (converted conv pg pre ks [] w) cs (topCount conv ks),
                    Some (cnt + topCount conv ks)) \<and>
            writes cs = 2 * countConv conv ks)"
proof (induction m arbitrary: ks w pre cursor rule: less_induct)
  case (less m)
  let ?a = "take 100 ks" and ?b = "drop 100 ks"
  let ?w1 = "converted conv pg pre ?a ?b w"
  let ?pre1 = "pre @ fst (convKids conv (next_id w) ?a)"
  let ?resp = "\<lparr>results = map listed ?a, has_more = (length ks > 100),
                next_cursor = (if length ks > 100 then Some (bid (nblock (ks ! 100))) else None)\<rparr>"
  have d: "distinct (kidIds (pre @ ks))"
    using wf_kids_distinct [OF less.prems(2,4)] by (rule kidIds_distinct)
  have la: "blocks_children_list w pg cursor = Inr ?resp"
    by (rule list_at [OF less.prems(4,5) d])
  have f': "find_kids pg (forest w) = Some (pre @ ?a @ ?b)" using less.prems(4) by simp
  from pageResults_live [OF tf less.prems(2,3) f'] obtain k1 where
    k1: "\<And>n p cnt. n \<ge> k1 \<Longrightarrow> pws p = w \<Longrightarrow> \<exists>cs.
            pageResults n conv False pg (map listed ?a) (p, cnt) =
              Some (advance p ?w1 cs (topCount conv ?a), cnt + topCount conv ?a) \<and>
            writes cs = 2 * countConv conv ?a"
    by blast
  have e: "converted conv pg ?pre1 ?b [] ?w1 = converted conv pg pre ks [] w"
    using converted_step [of conv pg pre w ?a ?b "[]"] by simp
  have cc: "countConv conv ks = countConv conv ?a + countConv conv ?b"
    using countConv_append [of conv ?a ?b] by simp
  have tc: "topCount conv ks = topCount conv ?a + topCount conv ?b"
    using topCount_append [of conv ?a ?b] by simp
  show ?case
  proof (cases "length ks > 100")
    case False
    then have ab: "?a = ks" "?b = []" by simp_all
    have "\<exists>cs. pageLoop n conv False pg cursor (p, cnt) =
              Some (advance p (converted conv pg pre ks [] w) cs (topCount conv ks),
                    Some (cnt + topCount conv ks)) \<and>
            writes cs = 2 * countConv conv ks" if n: "n \<ge> Suc k1" and p: "pws p = w" for n p cnt
    proof -
      from n obtain n' where n': "n = Suc n'" "n' \<ge> k1" by (cases n) auto
      let ?p0 = "advance p w [ListCall pg cursor] 0"
      have "pws ?p0 = w" by simp
      from k1 [OF n'(2) this, of cnt] obtain cs where
        s: "pageResults n' conv False pg (map listed ?a) (?p0, cnt) =
              Some (advance ?p0 ?w1 cs (topCount conv ?a), cnt + topCount conv ?a)"
          "writes cs = 2 * countConv conv ?a"
        by blast
      have "pageLoop n conv False pg cursor (p, cnt) =
          Some (advance p (converted conv pg pre ks [] w) ([ListCall pg cursor] @ cs)
                  (topCount conv ks), Some (cnt + topCount conv ks))"
        using s(1) False ab
        by (simp add: n'(1) pageLoop_step [OF la p] advance_advance del: pageLoop.simps)
      moreover have "writes ([ListCall pg cursor] @ cs) = 2 * countConv conv ks"
        using s(2) ab by (simp add: writes_def isListCall_def)
      ultimately show ?thesis by blast
    qed
    then show ?thesis by blast
  next
    case True
    have w1: "wellFormed ?w1" by (rule converted_wf [OF less.prems(2,3) f'])
    have c1: "convertible conv (forest ?w1)"
      by (rule converted_convertible [OF tf less.prems(3) f'])
    have f1: "find_kids pg (forest ?w1) = Some (?pre1 @ ?b)"
      by (simp add: converted_find [OF f'])
    have lb: "length ?b \<le> length ?b" by simp
    have lt: "length ?b < m" using True less.prems(1) by simp
    have cu: "cursorAt ?pre1 ?b (Some (bid (nblock (ks ! 100))))"
      by (rule cursorAt_drop [OF True])
    from less.IH [OF lt lb w1 c1 f1 cu] obtain k2 where
      k2: "\<And>n p cnt. n \<ge> k2 \<Longrightarrow> pws p = ?w1 \<Longrightarrow> \<exists>cs.
             pageLoop n conv False pg (Some (bid (nblock (ks ! 100)))) (p, cnt) =
               Some (advance p (converted conv pg ?pre1 ?b [] ?w1) cs (topCount conv ?b),
                     Some (cnt + topCount conv ?b)) \<and>
             writes cs = 2 * countConv conv ?b"
      by blast
    have "\<exists>cs. pageLoop n conv False pg cursor (p, cnt) =
              Some (advance p (converted conv pg pre ks [] w) cs (topCount conv ks),
                    Some (cnt + topCount conv ks)) \<and>
            writes cs = 2 * countConv conv ks"
      if n: "n \<ge> Suc (max k1 k2)" and p: "pws p = w" for n p cnt
    proof -
      from n obtain n' where n': "n = Suc n'" "n' \<ge> k1" "n' \<ge> k2" by (cases n) auto
      let ?p0 = "advance p w [ListCall pg cursor] 0"
      have "pws ?p0 = w" by simp
      from k1 [OF n'(2) this, of cnt] obtain cs1 where
        s1: "pageResults n' conv False pg (map listed ?a) (?p0, cnt) =
              Some (advance ?p0 ?w1 cs1 (topCount conv ?a), cnt + topCount conv ?a)"
          "writes cs1 = 2 * countConv conv ?a"
        by blast
      let ?p1 = "advance ?p0 ?w1 cs1 (topCount conv ?a)"
      have "pws ?p1 = ?w1" by simp
      from k2 [OF n'(3) this, of "cnt + topCount conv ?a"] obtain cs2 where
        s2: "pageLoop n' conv False pg (Some (bid (nblock (ks ! 100))))
               (?p1, cnt + topCount conv ?a) =
               Some (advance ?p1 (converted conv pg ?pre1 ?b [] ?w1) cs2 (topCount conv ?b),
                     Some (cnt + topCount conv ?a + topCount conv ?b))"
          "writes cs2 = 2 * countConv conv ?b"
        by blast
      have "pageLoop n conv False pg cursor (p, cnt) =
          Some (advance p (converted conv pg pre ks [] w) ([ListCall pg cursor] @ cs1 @ cs2)
                  (topCount conv ks), Some (cnt + topCount conv ks))"
        using s1(1) s2(1) True
        by (simp add: n'(1) pageLoop_step [OF la p] advance_advance e tc [symmetric] add.assoc
            del: pageLoop.simps)
      moreover have "writes ([ListCall pg cursor] @ cs1 @ cs2) = 2 * countConv conv ks"
        using s1(2) s2(2) cc by (simp add: writes_def isListCall_def)
      ultimately show ?thesis by blast
    qed
    then show ?thesis by blast
  qed
qed

lemma pageLoop_live:
  assumes "toType conv \<noteq> fromType conv" and "wellFormed w" and "convertible conv (forest w)"
    and f: "find_kids pg (forest w) = Some ks"
  shows "\<exists>k. \<forall>n\<ge>k. \<forall>p cnt. pws p = w \<longrightarrow> (\<exists>cs.
            pageLoop n conv False pg None (p, cnt) =
              Some (advance p (converted conv pg [] ks [] w) cs (topCount conv ks),
                    Some (cnt + topCount conv ks)) \<and>
            writes cs = 2 * countConv conv ks)"
proof -
  have f': "find_kids pg (forest w) = Some ([] @ ks)" using f by simp
  have c: "cursorAt [] ks None" by (simp add: cursorAt_def)
  show ?thesis
    by (rule pageLoop_live_pages [OF assms(1) order_refl assms(2,3) f' c])
qed

lemma pageLoop_absent:
  assumes "find_kids pg (forest (pws p)) = None"
  shows "pageLoop (Suc n) conv dryRun pg None (p, cnt) =
     Some (p\<lparr>plog := plog p @ [ListCall pg None],
             errors := errors p @ [''Could not find block'']\<rparr>, None)"
  using assms by (simp add: blocks_children_list_def)

section \<open>The live run over the workspace\<close>

lemma converted_page_wf:
  assumes "wellFormed w" and "convertible conv (forest w)" and "find_kids q (forest w) = Some ks"
  shows "wellFormed (converted conv q [] ks [] w)"
  using converted_wf [OF assms(1,2), of q "[]" ks "[]"] assms(3) by simp

lemma converted_page_convertible:
  assumes "toType conv \<noteq> fromType conv" and "convertible conv (forest w)"
    and "find_kids q (forest w) = Some ks"
  shows "convertible conv (forest (converted conv q [] ks [] w))"
  using converted_convertible [OF assms(1,2), of q "[]" ks "[]"] assms(3) by simp

lemma converted_next: "next_id (converted conv q pre ks post w) = next_id w + countConv conv ks"
  by (simp add: converted_def convKids_next)

lemma pagesLoop_live:
  assumes tf: "toType conv \<noteq> fromType conv"
  shows "wellFormed w \<Longrightarrow> convertible conv (forest w) \<Longrightarrow>
     \<exists>k. \<forall>n\<ge>k. \<forall>p. pws p = w \<longrightarrow> (\<exists>p'.
        pagesLoop n conv False ps p = Some p' \<and> pws p' = convPages conv ps w \<and>
        totalCheckboxes p' = totalCheckboxes p + liveCount conv ps w \<and>
        convertedCheckboxes p' = convertedCheckboxes p + liveCount conv ps w \<and>
        writes (plog p') + 2 * next_id w =
          writes (plog p) + 2 * next_id (convPages conv ps w))"
proof (induction ps arbitrary: w)
  case Nil
  show ?case by simp
next
  case (Cons q qs)
  show ?case
  proof (cases "find_kids q (forest w)")
    case None
    from Cons.IH [OF Cons.prems] obtain k2 where
      k2: "\<And>n p. n \<ge> k2 \<Longrightarrow> pws p = w \<Longrightarrow> \<exists>p'.
        pagesLoop n conv False qs p = Some p' \<and> pws p' = convPages conv qs w \<and>
        totalCheckboxes p' = totalCheckboxes p + liveCount conv qs w \<and>
        convertedCheckboxes p' = convertedCheckboxes p + liveCount conv qs w \<and>
        writes (plog p') + 2 * next_id w =
          writes (plog p) + 2 * next_id (convPages conv qs w)"
      by blast
    have "\<exists>p'. pagesLoop n conv False (q # qs) p = Some p' \<and>
        pws p' = convPages conv (q # qs) w \<and>
        totalCheckboxes p' = totalCheckboxes p + liveCount conv (q # qs) w \<and>
        convertedCheckboxes p' = convertedCheckboxes p + liveCount conv (q # qs) w \<and>
        writes (plog p') + 2 * next_id w =
          writes (plog p) + 2 * next_id (convPages conv (q # qs) w)"
      if n: "n \<ge> Suc k2" and p: "pws p = w" for n p
    proof -
      from n obtain n' where n': "n = Suc n'" and n2: "n \<ge> k2" by (cases n) auto
      let ?p1 = "p\<lparr>plog := plog p @ [ListCall q None],
                    errors := errors p @ [''Could not find block'']\<rparr>"
      from None p have a: "pageLoop n conv False q None (p, 0) = Some (?p1, None)"
        unfolding n' by (intro pageLoop_absent) simp
      have "pws ?p1 = w" using p by simp
      from k2 [OF n2 this] obtain p' where
        r: "pagesLoop n conv False qs ?p1 = Some p'" "pws p' = convPages conv qs w"
          "totalCheckboxes p' = totalCheckboxes ?p1 + liveCount conv qs w"
          "convertedCheckboxes p' = convertedCheckboxes ?p1 + liveCount conv qs w"
          "writes (plog p') + 2 * next_id w =
             writes (plog ?p1) + 2 * next_id (convPages conv qs w)"
        by blast
      have "pagesLoop n conv False (q # qs) p = Some p'" using a r(1) by simp
      moreover have "writes (plog ?p1) = writes (plog p)"
        by (simp add: writes_def isListCall_def)
      ultimately show ?thesis using r None by simp
    qed
    then show ?thesis by blast
  next
    case (Some ks)
    let ?w1 = "converted conv q [] ks [] w"
    from pageLoop_live [OF tf Cons.prems Some] obtain k1 where
      k1: "\<And>n p cnt. n \<ge> k1 \<Longrightarrow> pws p = w \<Longrightarrow> \<exists>cs.
            pageLoop n conv False q None (p, cnt) =
              Some (advance p ?w1 cs (topCount conv ks), Some (cnt + topCount conv ks)) \<and>
            writes cs = 2 * countConv conv ks"
      by blast
    have w1: "wellFormed ?w1" by (rule converted_page_wf [OF Cons.prems Some])
    have c1: "convertible conv (forest ?w1)"
      by (rule converted_page_convertible [OF tf Cons.prems(2) Some])
    from Cons.IH [OF w1 c1] obtain k2 where
      k2: "\<And>n p. n \<ge> k2 \<Longrightarrow> pws p = ?w1 \<Longrightarrow> \<exists>p'.
        pagesLoop n conv False qs p = Some p' \<and> pws p' = convPages conv qs ?w1 \<and>
        totalCheckboxes p' = totalCheckboxes p + liveCount conv qs ?w1 \<and>
        convertedCheckboxes p' = convertedCheckboxes p + liveCount conv qs ?w1 \<and>
        writes (plog p') + 2 * next_id ?w1 =
          writes (plog p) + 2 * next_id (convPages conv qs ?w1)"
      by blast
    have "\<exists>p'. pagesLoop n conv False (q # qs) p = Some p' \<and>
        pws p' = convPages conv (q # qs) w \<and>
        totalCheckboxes p' = totalCheckboxes p + liveCount conv (q # qs) w \<and>
        convertedCheckboxes p' = convertedCheckboxes p + liveCount conv (q # qs) w \<and>
        writes (plog p') + 2 * next_id w =
          writes (plog p) + 2 * next_id (convPages conv (q # qs) w)"
      if n: "n \<ge> max k1 k2" and p: "pws p = w" for n p
    proof -
      from n have n1: "n \<ge> k1" and n2: "n \<ge> k2" by simp_all
      from k1 [OF n1 p, of 0] obtain cs where
        a: "pageLoop n conv False q None (p, 0) =
              Some (advance p ?w1 cs (topCount conv ks), Some (0 + topCount conv ks))"
          and wc: "writes cs = 2 * countConv conv ks"
        by blast
      let ?p1 = "advance p ?w1 cs (topCount conv ks)"
      let ?p2 = "if 0 + topCount conv ks > 0
                 then ?p1\<lparr>pagesWithCheckboxes := pagesWithCheckboxes ?p1 + 1\<rparr> else ?p1"
      have p2: "pws ?p2 = ?w1" "totalCheckboxes ?p2 = totalCheckboxes p + topCount conv ks"
        "convertedCheckboxes ?p2 = convertedCheckboxes p + topCount conv ks"
        "plog ?p2 = plog p @ cs"
        by simp_all
      from k2 [OF n2 p2(1)] obtain p' where
        r: "pagesLoop n conv False qs ?p2 = Some p'" "pws p' = convPages conv qs ?w1"
          "totalCheckboxes p' = totalCheckboxes ?p2 + liveCount conv qs ?w1"
          "convertedCheckboxes p' = convertedCheckboxes ?p2 + liveCount conv qs ?w1"
          "writes (plog p') + 2 * next_id ?w1 =
             writes (plog ?p2) + 2 * next_id (convPages conv qs ?w1)"
        by blast
      have "pagesLoop n conv False (q # qs) p = Some p'"
        using a r(1) by (simp only: pagesLoop.simps option.case prod.case)
      moreover have "writes (plog p') + 2 * next_id w =
          writes (plog p) + 2 * next_id (convPages conv (q # qs) w)"
        using r(5) wc Some
        by (simp only: p2(4) writes_append converted_next convPages.simps option.case) simp
      ultimately show ?thesis
        using r(2,3,4) Some by (simp only: p2 convPages.simps liveCount.simps option.case) simp
    qed
    then show ?thesis by blast
  qed
qed

lemma convPages_wf:
  assumes tf: "toType conv \<noteq> fromType conv"
  shows "wellFormed w \<Longrightarrow> convertible conv (forest w) \<Longrightarrow>
     wellFormed (convPages conv ps w) \<and> convertible conv (forest (convPages conv ps w))"
proof (induction ps arbitrary: w)
  case Nil
  then show ?case by simp
next
  case (Cons q qs)
  show ?case
  proof (cases "find_kids q (forest w)")
    case None
    with Cons show ?thesis by simp
  next
    case (Some ks)
    from Cons.IH [OF converted_page_wf [OF Cons.prems Some]
        converted_page_convertible [OF tf Cons.prems(2) Some]] Some
    show ?thesis by simp
  qed
qed

lemma sourceFree_update:
  "sourceFree conv ns \<Longrightarrow> sourceFree conv ks' \<Longrightarrow>
     sourceFree conv (update_kids p (\<lambda>_. ks') ns)"
  by (induction p "\<lambda>_ :: node list. ks'" ns rule: update_kids.induct) auto

lemma find_kids_Some_id: "find_kids q ns = Some r \<Longrightarrow> q \<in> set (ids ns)"
  using find_kids_None [of q ns] by auto

lemma sourceFree_after_update:
  "distinct (ids ns) \<Longrightarrow> sourceFree conv new \<Longrightarrow>
     find_kids q (update_kids p (\<lambda>_. new) ns) = Some r \<Longrightarrow>
     (\<And>r0. find_kids q ns = Some r0 \<Longrightarrow> sourceFree conv r0) \<Longrightarrow> sourceFree conv r"
proof (induction p "\<lambda>_ :: node list. new" ns rule: update_kids.induct)
  case (1 i)
  then show ?case by simp
next
  case (2 i b ks rest)
  from "2.prems"(1) have d: "distinct (ids ks)" "distinct (ids rest)"
    "set (ids ks) \<inter> set (ids rest) = {}"
    by auto
  have inrest: "find_kids q ks = None" if "find_kids q rest = Some r'" for r'
    using find_kids_Some_id [OF that] d(3) by (auto simp: find_kids_None)
  show ?case
  proof (cases "bid b = q")
    case True
    with "2.prems"(4) [of ks] have sk: "sourceFree conv ks" by simp
    from True "2.prems"(3) have "r = (if bid b = i then new
        else if i \<in> set (ids ks) then update_kids i (\<lambda>_. new) ks else ks)"
      by (auto split: if_splits)
    with sk "2.prems"(2) show ?thesis by (auto simp: sourceFree_update)
  next
    case q: False
    consider (here) "bid b = i" | (inside) "bid b \<noteq> i" "i \<in> set (ids ks)"
      | (after) "bid b \<noteq> i" "i \<notin> set (ids ks)"
      by blast
    then show ?thesis
    proof cases
      case here
      with q "2.prems"(3) have
        f: "(case find_kids q new of Some r' \<Rightarrow> Some r' | None \<Rightarrow> find_kids q rest) = Some r"
        by simp
      show ?thesis
      proof (cases "find_kids q new")
        case None
        with f have fr: "find_kids q rest = Some r" by simp
        with q inrest [OF fr] have "find_kids q (Node b ks # rest) = Some r" by simp
        then show ?thesis by (rule "2.prems"(4))
      next
        case (Some r')
        with f have "r' = r" by simp
        with Some "2.prems"(2) show ?thesis using sourceFree_find by blast
      qed
    next
      case inside
      with q "2.prems"(3) have
        f: "(case find_kids q (update_kids i (\<lambda>_. new) ks) of Some r' \<Rightarrow> Some r'
              | None \<Rightarrow> find_kids q rest) = Some r"
        by simp
      show ?thesis
      proof (cases "find_kids q (update_kids i (\<lambda>_. new) ks)")
        case None
        with f have fr: "find_kids q rest = Some r" by simp
        with q inrest [OF fr] have "find_kids q (Node b ks # rest) = Some r" by simp
        then show ?thesis by (rule "2.prems"(4))
      next
        case (Some r')
        with f have r': "find_kids q (update_kids i (\<lambda>_. new) ks) = Some r" by simp
        have h: "sourceFree conv r0" if "find_kids q ks = Some r0" for r0
          using "2.prems"(4) [of r0] q that by simp
        from "2.hyps"(1) [OF inside d(1) "2.prems"(2) r' h] show ?thesis .
      qed
    next
      case after
      with q "2.prems"(3) have
        f: "(case find_kids q ks of Some r' \<Rightarrow> Some r'
              | None \<Rightarrow> find_kids q (update_kids i (\<lambda>_. new) rest)) = Some r"
        by simp
      show ?thesis
      proof (cases "find_kids q ks")
        case None
        with f have r': "find_kids q (update_kids i (\<lambda>_. new) rest) = Some r" by simp
        have h: "sourceFree conv r0" if "find_kids q rest = Some r0" for r0
          using "2.prems"(4) [of r0] q None that by simp
        from "2.hyps"(2) [OF after d(2) "2.prems"(2) r' h] show ?thesis .
      next
        case (Some r')
        with f have "r' = r" by simp
        with Some q have "find_kids q (Node b ks # rest) = Some r" by simp
        then show ?thesis by (rule "2.prems"(4))
      qed
    qed
  qed
qed

lemma converted_free:
  assumes tf: "toType conv \<noteq> fromType conv" and w: "wellFormed w"
    and c: "convertible conv (forest w)" and f: "find_kids p (forest w) = Some ks"
    and h: "\<And>r0. q \<noteq> p \<Longrightarrow> find_kids q (forest w) = Some r0 \<Longrightarrow> sourceFree conv r0"
    and r: "find_kids q (forest (converted conv p [] ks [] w)) = Some r"
  shows "sourceFree conv r"
proof -
  let ?new = "fst (convKids conv (next_id w) ks)"
  have n: "sourceFree conv ?new"
    by (rule convKids_sourceFree [OF tf convertible_find [OF c f]])
  have e: "forest (converted conv p [] ks [] w) = update_kids p (\<lambda>_. ?new) (forest w)"
    by (simp add: converted_def)
  show ?thesis
  proof (cases "q = p")
    case True
    with r f have "r = ?new" by (simp add: e update_kids_find)
    with n show ?thesis by simp
  next
    case False
    from w have d: "distinct (ids (forest w))" by (simp add: wellFormed_def)
    from r have r': "find_kids q (update_kids p (\<lambda>_. ?new) (forest w)) = Some r"
      by (simp only: e)
    show ?thesis by (rule sourceFree_after_update [OF d n r' h [OF False]])
  qed
qed

lemma convPages_free:
  assumes tf: "toType conv \<noteq> fromType conv"
  shows "wellFormed w \<Longrightarrow> convertible conv (forest w) \<Longrightarrow>
     (\<forall>q\<in>S. \<forall>r. find_kids q (forest w) = Some r \<longrightarrow> sourceFree conv r) \<Longrightarrow>
     \<forall>q\<in>S \<union> set ps. \<forall>r. find_kids q (forest (convPages conv ps w)) = Some r \<longrightarrow>
        sourceFree conv r"
proof (induction ps arbitrary: w S)
  case Nil
  then show ?case by simp
next
  case (Cons q0 qs)
  show ?case
  proof (cases "find_kids q0 (forest w)")
    case None
    with Cons.prems(3)
    have "\<forall>q\<in>insert q0 S. \<forall>r. find_kids q (forest w) = Some r \<longrightarrow> sourceFree conv r"
      by auto
    from Cons.IH [OF Cons.prems(1,2) this] None show ?thesis by simp
  next
    case (Some ks)
    let ?w1 = "converted conv q0 [] ks [] w"
    have "\<forall>q\<in>insert q0 S. \<forall>r. find_kids q (forest ?w1) = Some r \<longrightarrow> sourceFree conv r"
    proof (intro ballI allI impI)
      fix q r
      assume q: "q \<in> insert q0 S" and r: "find_kids q (forest ?w1) = Some r"
      have h: "sourceFree conv r0" if "q \<noteq> q0" "find_kids q (forest w) = Some r0" for r0
        using that q Cons.prems(3) by auto
      show "sourceFree conv r"
        by (rule converted_free [OF tf Cons.prems(1,2) Some h r])
    qed
    from Cons.IH [OF converted_page_wf [OF Cons.prems(1,2) Some]
        converted_page_convertible [OF tf Cons.prems(2) Some] this] Some
    show ?thesis by simp
  qed
qed

lemma convPages_fixed:
  "(\<forall>q\<in>set ps. \<forall>r. find_kids q (forest w) = Some r \<longrightarrow> sourceFree conv r) \<Longrightarrow>
     convPages conv ps w = w \<and> liveCount conv ps w = 0"
proof (induction ps)
  case Nil
  show ?case by simp
next
  case (Cons q qs)
  show ?case
  proof (cases "find_kids q (forest w)")
    case None
    with Cons show ?thesis by simp
  next
    case (Some ks)
    with Cons.prems have s: "sourceFree conv ks" by simp
    from Some have "find_kids q (forest w) = Some ([] @ ks @ [])" by simp
    from converted_nothing [OF this s] have "converted conv q [] ks [] w = w" .
    with Cons Some s show ?thesis by (simp add: sourceFree_topCount)
  qed
qed

lemma pageIds_append: "pageIds (a @ b) = pageIds a @ pageIds b"
  by (induction a rule: pageIds.induct) simp_all

lemma pageIds_find: "find_kids p ns = Some ks \<Longrightarrow> set (pageIds ks) \<subseteq> set (pageIds ns)"
  by (induction p ns rule: find_kids.induct) (auto split: if_splits option.splits)

lemma pageIds_update:
  "set (pageIds (update_kids p (\<lambda>_. new) ns)) \<subseteq> set (pageIds ns) \<union> set (pageIds new)"
  by (induction p "\<lambda>_ :: node list. new" ns rule: update_kids.induct) auto

lemma pageIds_convKids:
  "toType conv \<noteq> ''child_page'' \<Longrightarrow> convertible conv ks \<Longrightarrow>
     set (pageIds (fst (convKids conv n ks))) \<subseteq> set (pageIds ks)"
  by (induction conv n ks rule: convKids.induct) (auto simp: replacement_type)

lemma converted_pages:
  assumes "toType conv \<noteq> ''child_page''" and c: "convertible conv (forest w)"
    and f: "find_kids q (forest w) = Some ks"
  shows "set (getAllPages (converted conv q [] ks [] w)) \<subseteq> set (getAllPages w)"
proof -
  let ?new = "fst (convKids conv (next_id w) ks)"
  have "set (pageIds ?new) \<subseteq> set (pageIds ks)"
    by (rule pageIds_convKids [OF assms(1) convertible_find [OF c f]])
  with pageIds_find [OF f] pageIds_update [of q ?new "forest w"]
  show ?thesis by (auto simp: getAllPages_def converted_def)
qed

lemma convPages_pages:
  assumes tp: "toType conv \<noteq> ''child_page''" and tf: "toType conv \<noteq> fromType conv"
  shows "wellFormed w \<Longrightarrow> convertible conv (forest w) \<Longrightarrow>
     set (getAllPages (convPages conv ps w)) \<subseteq> set (getAllPages w)"
proof (induction ps arbitrary: w)
  case Nil
  show ?case by simp
next
  case (Cons q qs)
  show ?case
  proof (cases "find_kids q (forest w)")
    case None
    with Cons show ?thesis by simp
  next
    case (Some ks)
    from Cons.IH [OF converted_page_wf [OF Cons.prems Some]
        converted_page_convertible [OF tf Cons.prems(2) Some]]
      converted_pages [OF tp Cons.prems(2) Some] Some
    show ?thesis by auto
  qed
qed

lemma convertBlocks_live:
  assumes tf: "toType conv \<noteq> fromType conv" and w: "wellFormed w" and c: "convertible conv (forest w)"
  shows "\<exists>k. \<forall>n\<ge>k. \<exists>p'.
        convertBlocks n conv False w = Some p' \<and>
        pws p' = convPages conv (getAllPages w) w \<and>
        totalCheckboxes p' = liveCount conv (getAllPages w) w \<and>
        convertedCheckboxes p' = liveCount conv (getAllPages w) w \<and>
        writes (plog p') + 2 * next_id w = 2 * next_id (convPages conv (getAllPages w) w)"
proof -
  let ?p0 = "\<lparr>pws = w, plog = [], totalCheckboxes = 0, convertedCheckboxes = 0,
        pagesWithCheckboxes = 0, errors = []\<rparr>"
  from pagesLoop_live [OF tf w c, of "getAllPages w"] obtain k where
    k: "\<And>n p. n \<ge> k \<Longrightarrow> pws p = w \<Longrightarrow> \<exists>p'.
        pagesLoop n conv False (getAllPages w) p = Some p' \<and>
        pws p' = convPages conv (getAllPages w) w \<and>
        totalCheckboxes p' = totalCheckboxes p + liveCount conv (getAllPages w) w \<and>
        convertedCheckboxes p' = convertedCheckboxes p + liveCount conv (getAllPages w) w \<and>
        writes (plog p') + 2 * next_id w =
          writes (plog p) + 2 * next_id (convPages conv (getAllPages w) w)"
    by blast
  have "\<exists>p'. convertBlocks n conv False w = Some p' \<and>
        pws p' = convPages conv (getAllPages w) w \<and>
        totalCheckboxes p' = liveCount conv (getAllPages w) w \<and>
        convertedCheckboxes p' = liveCount conv (getAllPages w) w \<and>
        writes (plog p') + 2 * next_id w = 2 * next_id (convPages conv (getAllPages w) w)"
    if "n \<ge> k" for n
  proof -
    have "pws ?p0 = w" by simp
    from k [OF that this] show ?thesis
      by (simp add: convertBlocks_def writes_def)
  qed
  then show ?thesis by blast
qed

text \<open>
  Claim C3.  In a well-formed workspace in which every block of the source type has a
  span list, a live run of either converter returns, given enough fuel, with every
  block it counted converted, and leaves no block of the source type below any page;
  a second live run on the workspace the first one left counts and converts no block,
  issues no append or delete call and leaves the workspace as it is.
\<close>

theorem second_run_converts_nothing:
  assumes "conv = checkboxConverter \<or> conv = quoteConverter"
    and "wellFormed w" and "convertible conv (forest w)"
  shows "\<exists>k. \<forall>n\<ge>k. \<exists>p1 p2.
     convertBlocks n conv False w = Some p1 \<and>
     convertedCheckboxes p1 = totalCheckboxes p1 \<and>
     (\<forall>q\<in>set (getAllPages w) \<union> set (getAllPages (pws p1)). \<forall>ks.
        find_kids q (forest (pws p1)) = Some ks \<longrightarrow> sourceFree conv ks) \<and>
     convertBlocks n conv False (pws p1) = Some p2 \<and>
     totalCheckboxes p2 = 0 \<and> convertedCheckboxes p2 = 0 \<and>
     writes (plog p2) = 0 \<and> pws p2 = pws p1"
proof -
  from assms(1) have tf: "toType conv \<noteq> fromType conv" and tp: "toType conv \<noteq> ''child_page''"
    by (auto simp: checkboxConverter_def quoteConverter_def)
  let ?ps = "getAllPages w"
  let ?w1 = "convPages conv ?ps w"
  let ?qs = "getAllPages ?w1"
  from convPages_wf [OF tf assms(2,3), of ?ps]
  have w1: "wellFormed ?w1" and c1: "convertible conv (forest ?w1)" by simp_all
  have "\<forall>q\<in>{} \<union> set ?ps. \<forall>r. find_kids q (forest ?w1) = Some r \<longrightarrow> sourceFree conv r"
    by (rule convPages_free [OF tf assms(2,3)]) simp
  moreover have sub: "set ?qs \<subseteq> set ?ps" by (rule convPages_pages [OF tp tf assms(2,3)])
  ultimately have free: "\<forall>q\<in>set ?ps \<union> set ?qs. \<forall>r.
      find_kids q (forest ?w1) = Some r \<longrightarrow> sourceFree conv r"
    by auto
  then have "\<forall>q\<in>set ?qs. \<forall>r. find_kids q (forest ?w1) = Some r \<longrightarrow> sourceFree conv r"
    by blast
  from convPages_fixed [OF this]
  have fixed: "convPages conv ?qs ?w1 = ?w1" "liveCount conv ?qs ?w1 = 0" by simp_all
  from convertBlocks_live [OF tf assms(2,3)] obtain k1 where
    k1: "\<And>n. n \<ge> k1 \<Longrightarrow> \<exists>p'.
        convertBlocks n conv False w = Some p' \<and> pws p' = ?w1 \<and>
        totalCheckboxes p' = liveCount conv ?ps w \<and>
        convertedCheckboxes p' = liveCount conv ?ps w \<and>
        writes (plog p') + 2 * next_id w = 2 * next_id ?w1"
    by blast
  from convertBlocks_live [OF tf w1 c1] obtain k2 where
    k2: "\<And>n. n \<ge> k2 \<Longrightarrow> \<exists>p'.
        convertBlocks n conv False ?w1 = Some p' \<and> pws p' = convPages conv ?qs ?w1 \<and>
        totalCheckboxes p' = liveCount conv ?qs ?w1 \<and>
        convertedCheckboxes p' = liveCount conv ?qs ?w1 \<and>
        writes (plog p') + 2 * next_id ?w1 = 2 * next_id (convPages conv ?qs ?w1)"
    by blast
  have "\<exists>p1 p2.
     convertBlocks n conv False w = Some p1 \<and>
     convertedCheckboxes p1 = totalCheckboxes p1 \<and>
     (\<forall>q\<in>set (getAllPages w) \<union> set (getAllPages (pws p1)). \<forall>ks.
        find_kids q (forest (pws p1)) = Some ks \<longrightarrow> sourceFree conv ks) \<and>
     convertBlocks n conv False (pws p1) = Some p2 \<and>
     totalCheckboxes p2 = 0 \<and> convertedCheckboxes p2 = 0 \<and>
     writes (plog p2) = 0 \<and> pws p2 = pws p1" if n: "n \<ge> max k1 k2" for n
  proof -
    from n have n1: "n \<ge> k1" and n2: "n \<ge> k2" by simp_all
    from k1 [OF n1] obtain p1 where
      p1: "convertBlocks n conv False w = Some p1" "pws p1 = ?w1"
        "totalCheckboxes p1 = liveCount conv ?ps w"
        "convertedCheckboxes p1 = liveCount conv ?ps w"
      by blast
    from k2 [OF n2] obtain p2 where
      p2: "convertBlocks n conv False ?w1 = Some p2" "pws p2 = convPages conv ?qs ?w1"
        "totalCheckboxes p2 = liveCount conv ?qs ?w1"
        "convertedCheckboxes p2 = liveCount conv ?qs ?w1"
        "writes (plog p2) + 2 * next_id ?w1 = 2 * next_id (convPages conv ?qs ?w1)"
      by blast
    from p2(5) have "writes (plog p2) = 0" by (simp add: fixed)
    with p1 p2(1,2,3,4) free fixed show ?thesis by simp
  qed
  then show ?thesis by blast
qed

theorem second_run_converts_nothing_witness:
  "wellFormed nestedWs \<and> convertible checkboxConverter (forest nestedWs) \<and>
   (\<exists>n p1 p2.
      convertBlocks n checkboxConverter False nestedWs = Some p1 \<and>
      convertBlocks n checkboxConverter False (pws p1) = Some p2 \<and>
      totalCheckboxes p2 = 0 \<and> convertedCheckboxes p2 = 0 \<and>
      writes (plog p2) = 0 \<and> pws p2 = pws p1) \<and>
   map_option (\<lambda>p. writes (plog p)) (convertBlocks 3 checkboxConverter False nestedWs) = Some 2 \<and>
   map_option (\<lambda>p. ids (forest (pws p))) (convertBlocks 3 checkboxConverter False nestedWs) =
     Some [1, 2, 10]"
proof -
  have w: "wellFormed nestedWs"
    by (simp add: wellFormed_def nestedWs_def pageNode_def paraNode_def todoNode_def textBlock_def
        plainBlock_def)
  have c: "convertible checkboxConverter (forest nestedWs)"
    by (simp add: nestedWs_def pageNode_def paraNode_def todoNode_def textBlock_def
        plainBlock_def checkboxConverter_def)
  have "checkboxConverter = checkboxConverter \<or> checkboxConverter = quoteConverter" by simp
  from second_run_converts_nothing [OF this w c] obtain k where
    k: "\<forall>n\<ge>k. \<exists>p1 p2.
     convertBlocks n checkboxConverter False nestedWs = Some p1 \<and>
     convertedCheckboxes p1 = totalCheckboxes p1 \<and>
     (\<forall>q\<in>set (getAllPages nestedWs) \<union> set (getAllPages (pws p1)). \<forall>ks.
        find_kids q (forest (pws p1)) = Some ks \<longrightarrow> sourceFree checkboxConverter ks) \<and>
     convertBlocks n checkboxConverter False (pws p1) = Some p2 \<and>
     totalCheckboxes p2 = 0 \<and> convertedCheckboxes p2 = 0 \<and>
     writes (plog p2) = 0 \<and> pws p2 = pws p1"
    by blast
  then have "\<exists>n p1 p2.
      convertBlocks n checkboxConverter False nestedWs = Some p1 \<and>
      convertBlocks n checkboxConverter False (pws p1) = Some p2 \<and>
      totalCheckboxes p2 = 0 \<and> convertedCheckboxes p2 = 0 \<and>
      writes (plog p2) = 0 \<and> pws p2 = pws p1"
    by (meson order_refl)
  moreover have
    "map_option (\<lambda>p. writes (plog p)) (convertBlocks 3 checkboxConverter False nestedWs) = Some 2"
    "map_option (\<lambda>p. ids (forest (pws p))) (convertBlocks 3 checkboxConverter False nestedWs) =
       Some [1, 2, 10]"
    by code_simp+
  ultimately show ?thesis using w c by blast
qed

section \<open>The dry run\<close>

lemma childResults_dry_head:
  "childResults n conv True p (listed (Node b cks) # bs) st =
     (if cks = [] then childResults n conv True p bs st
      else (case childLoop n conv True (bid b) None st of
              None \<Rightarrow> None
            | Some st2 \<Rightarrow> childResults n conv True p bs st2))"
  by simp

lemma childResults_dry:
  assumes w: "wellFormed w"
    and IH: "\<And>cks q. height cks < h \<Longrightarrow> find_kids q (forest w) = Some cks \<Longrightarrow>
        \<exists>k. \<forall>n\<ge>k. \<forall>l. \<exists>cs. childLoop n conv True q None (w, l) = Some (w, l @ cs) \<and>
             writes cs = 0"
  shows "height ks \<le> h \<Longrightarrow> find_kids p (forest w) = Some (pre @ ks @ post) \<Longrightarrow>
     \<exists>k. \<forall>n\<ge>k. \<forall>l. \<exists>cs. childResults n conv True p (map listed ks) (w, l) =
            Some (w, l @ cs) \<and> writes cs = 0"
proof (induction ks arbitrary: pre)
  case Nil
  have "childResults n conv True p (map listed []) (w, l) = Some (w, l @ []) \<and> writes [] = 0"
    for n l
    by (simp add: writes_def)
  then show ?case by blast
next
  case (Cons k rest)
  obtain b cks where k: "k = Node b cks" by (cases k)
  from Cons.prems(1) k have hc: "height cks < h" and hr: "height rest \<le> h" by auto
  from Cons.prems(2) k
  have f: "find_kids p (forest w) = Some (pre @ Node b cks # (rest @ post))"
    and f1: "find_kids p (forest w) = Some ((pre @ [Node b cks]) @ rest @ post)" by simp_all
  from IH [OF hc find_kids_child [OF w f]] obtain k1 where
    k1: "\<And>n l. n \<ge> k1 \<Longrightarrow> \<exists>cs. childLoop n conv True (bid b) None (w, l) =
            Some (w, l @ cs) \<and> writes cs = 0"
    by blast
  from Cons.IH [OF hr f1] obtain k2 where
    k2: "\<And>n l. n \<ge> k2 \<Longrightarrow> \<exists>cs. childResults n conv True p (map listed rest) (w, l) =
            Some (w, l @ cs) \<and> writes cs = 0"
    by blast
  have "\<exists>cs. childResults n conv True p (map listed (Node b cks # rest)) (w, l) =
            Some (w, l @ cs) \<and> writes cs = 0" if n: "n \<ge> max k1 k2" for n l
  proof -
    from n have n1: "n \<ge> k1" and n2: "n \<ge> k2" by simp_all
    show ?thesis
    proof (cases "cks = []")
      case True
      with k2 [OF n2, of l] show ?thesis
        by (simp add: childResults_dry_head del: childResults.simps)
    next
      case False
      from k1 [OF n1, of l] obtain cs1 where
        s1: "childLoop n conv True (bid b) None (w, l) = Some (w, l @ cs1)" "writes cs1 = 0"
        by blast
      from k2 [OF n2, of "l @ cs1"] obtain cs2 where
        s2: "childResults n conv True p (map listed rest) (w, l @ cs1) =
               Some (w, (l @ cs1) @ cs2)" "writes cs2 = 0"
        by blast
      have "childResults n conv True p (map listed (Node b cks # rest)) (w, l) =
          Some (w, l @ (cs1 @ cs2))"
        using s1(1) s2(1) False
        by (simp only: list.map childResults_dry_head if_False option.case append_assoc)
      moreover have "writes (cs1 @ cs2) = 0" using s1(2) s2(2) by (simp add: writes_append)
      ultimately show ?thesis by blast
    qed
  qed
  then show ?case unfolding k by blast
qed

lemma childLoop_step:
  assumes "blocks_children_list w p cursor = Inr resp"
  shows "childLoop (Suc n) conv dryRun p cursor (w, l) =
     (case childResults n conv dryRun p (results resp) (w, l @ [ListCall p cursor]) of
        None \<Rightarrow> None
      | Some st' \<Rightarrow>
          if has_more resp then childLoop n conv dryRun p (next_cursor resp) st'
          else Some st')"
  using assms by simp

lemma childLoop_dry_pages:
  assumes w: "wellFormed w"
    and R: "\<And>ks pre post. height ks \<le> h \<Longrightarrow>
        find_kids p (forest w) = Some (pre @ ks @ post) \<Longrightarrow>
        \<exists>k. \<forall>n\<ge>k. \<forall>l. \<exists>cs. childResults n conv True p (map listed ks) (w, l) =
               Some (w, l @ cs) \<and> writes cs = 0"
  shows "length ks \<le> m \<Longrightarrow> height ks \<le> h \<Longrightarrow>
     find_kids p (forest w) = Some (pre @ ks) \<Longrightarrow> cursorAt pre ks cursor \<Longrightarrow>
     \<exists>k. \<forall>n\<ge>k. \<forall>l. \<exists>cs. childLoop n conv True p cursor (w, l) = Some (w, l @ cs) \<and>
          writes cs = 0"
proof (induction m arbitrary: ks pre cursor rule: less_induct)
  case (less m)
  let ?a = "take 100 ks" and ?b = "drop 100 ks"
  let ?resp = "\<lparr>results = map listed ?a, has_more = (length ks > 100),
                next_cursor = (if length ks > 100 then Some (bid (nblock (ks ! 100))) else None)\<rparr>"
  have d: "distinct (kidIds (pre @ ks))"
    using wf_kids_distinct [OF w less.prems(3)] by (rule kidIds_distinct)
  have la: "blocks_children_list w p cursor = Inr ?resp"
    by (rule list_at [OF less.prems(3,4) d])
  have ha: "height ?a \<le> h" using height_take [of 100 ks] less.prems(2) by simp
  have f': "find_kids p (forest w) = Some (pre @ ?a @ ?b)" using less.prems(3) by simp
  from R [OF ha f'] obtain k1 where
    k1: "\<And>n l. n \<ge> k1 \<Longrightarrow> \<exists>cs. childResults n conv True p (map listed ?a) (w, l) =
               Some (w, l @ cs) \<and> writes cs = 0"
    by blast
  show ?case
  proof (cases "length ks > 100")
    case False
    have "\<exists>cs. childLoop n conv True p cursor (w, l) = Some (w, l @ cs) \<and> writes cs = 0"
      if n: "n \<ge> Suc k1" for n l
    proof -
      from n obtain n' where n': "n = Suc n'" "n' \<ge> k1" by (cases n) auto
      from k1 [OF n'(2), of "l @ [ListCall p cursor]"] obtain cs where
        s: "childResults n' conv True p (map listed ?a) (w, l @ [ListCall p cursor]) =
               Some (w, (l @ [ListCall p cursor]) @ cs)" "writes cs = 0"
        by blast
      have "childLoop n conv True p cursor (w, l) = Some (w, l @ ([ListCall p cursor] @ cs))"
        using s(1) False by (simp add: n'(1) childLoop_step [OF la] del: childLoop.simps)
      moreover have "writes ([ListCall p cursor] @ cs) = 0"
        using s(2) by (simp add: writes_def isListCall_def)
      ultimately show ?thesis by blast
    qed
    then show ?thesis by blast
  next
    case True
    have f1: "find_kids p (forest w) = Some ((pre @ ?a) @ ?b)" using less.prems(3) by simp
    have lb: "length ?b \<le> length ?b" by simp
    have lt: "length ?b < m" using True less.prems(1) by simp
    have hb: "height ?b \<le> h" using height_drop [of 100 ks] less.prems(2) by simp
    have cu: "cursorAt (pre @ ?a) ?b (Some (bid (nblock (ks ! 100))))"
      by (rule cursorAt_drop [OF True])
    from less.IH [OF lt lb hb f1 cu] obtain k2 where
      k2: "\<And>n l. n \<ge> k2 \<Longrightarrow> \<exists>cs.
             childLoop n conv True p (Some (bid (nblock (ks ! 100)))) (w, l) =
               Some (w, l @ cs) \<and> writes cs = 0"
      by blast
    have "\<exists>cs. childLoop n conv True p cursor (w, l) = Some (w, l @ cs) \<and> writes cs = 0"
      if n: "n \<ge> Suc (max k1 k2)" for n l
    proof -
      from n obtain n' where n': "n = Suc n'" "n' \<ge> k1" "n' \<ge> k2" by (cases n) auto
      from k1 [OF n'(2), of "l @ [ListCall p cursor]"] obtain cs1 where
        s1: "childResults n' conv True p (map listed ?a) (w, l @ [ListCall p cursor]) =
               Some (w, (l @ [ListCall p cursor]) @ cs1)" "writes cs1 = 0"
        by blast
      from k2 [OF n'(3), of "(l @ [ListCall p cursor]) @ cs1"] obtain cs2 where
        s2: "childLoop n' conv True p (Some (bid (nblock (ks ! 100))))
               (w, (l @ [ListCall p cursor]) @ cs1) =
               Some (w, ((l @ [ListCall p cursor]) @ cs1) @ cs2)" "writes cs2 = 0"
        by blast
      have "childLoop n conv True p cursor (w, l) =
          Some (w, l @ ([ListCall p cursor] @ cs1 @ cs2))"
        using s1(1) s2(1) True by (simp add: n'(1) childLoop_step [OF la] del: childLoop.simps)
      moreover have "writes ([ListCall p cursor] @ cs1 @ cs2) = 0"
        using s1(2) s2(2) by (simp add: writes_def isListCall_def)
      ultimately show ?thesis by blast
    qed
    then show ?thesis by blast
  qed
qed

lemma childLoop_dry_height:
  assumes w: "wellFormed w"
  shows "height ks \<le> h \<Longrightarrow> find_kids p (forest w) = Some ks \<Longrightarrow>
     \<exists>k. \<forall>n\<ge>k. \<forall>l. \<exists>cs. childLoop n conv True p None (w, l) = Some (w, l @ cs) \<and>
          writes cs = 0"
proof (induction h arbitrary: ks p rule: less_induct)
  case (less h)
  have IH: "\<exists>k. \<forall>n\<ge>k. \<forall>l. \<exists>cs. childLoop n conv True q None (w, l) = Some (w, l @ cs) \<and>
             writes cs = 0"
    if "height cks < h" "find_kids q (forest w) = Some cks" for cks q
    using less.IH [OF that(1) order_refl that(2)] .
  have f: "find_kids p (forest w) = Some ([] @ ks)" using less.prems(2) by simp
  have c: "cursorAt [] ks None" by (simp add: cursorAt_def)
  show ?case
    by (rule childLoop_dry_pages [OF w childResults_dry [OF w IH] order_refl less.prems(1) f c])
qed

lemma childLoop_dry:
  assumes "wellFormed w" and "find_kids p (forest w) = Some ks"
  shows "\<exists>k. \<forall>n\<ge>k. \<forall>l. \<exists>cs. childLoop n conv True p None (w, l) = Some (w, l @ cs) \<and>
          writes cs = 0"
  by (rule childLoop_dry_height [OF assms(1) order_refl assms(2)])

lemma pageResults_dry_match:
  assumes "btype b = fromType conv" and "pws p = w"
  shows "pageResults n conv True pg (listed (Node b cks) # bs) (p, cnt) =
     pageResults n conv True pg bs (advance p w [] 1, cnt + 1)"
  using assms by (cases p) (simp add: advance_def Let_def)

lemma pageResults_dry:
  assumes w: "wellFormed w"
  shows "find_kids pg (forest w) = Some (pre @ ks @ post) \<Longrightarrow>
     \<exists>k. \<forall>n\<ge>k. \<forall>p cnt. pws p = w \<longrightarrow> (\<exists>cs.
            pageResults n conv True pg (map listed ks) (p, cnt) =
              Some (advance p w cs (topCount conv ks), cnt + topCount conv ks) \<and>
            writes cs = 0)"
proof (induction ks arbitrary: pre)
  case Nil
  have "pageResults n conv True pg (map listed []) (p, cnt) =
      Some (advance p w [] (topCount conv []), cnt + topCount conv []) \<and> writes [] = 0"
    if "pws p = w" for n p cnt
    using advance_nothing [OF that] by (simp add: writes_def topCount_def)
  then show ?case by blast
next
  case (Cons k rest)
  obtain b cks where k: "k = Node b cks" by (cases k)
  let ?t1 = "topCount conv [Node b cks]"
  from Cons.prems k
  have f: "find_kids pg (forest w) = Some (pre @ Node b cks # (rest @ post))"
    and f1: "find_kids pg (forest w) = Some ((pre @ [Node b cks]) @ rest @ post)" by simp_all
  from childLoop_dry [OF w find_kids_child [OF w f]] obtain k1 where
    k1: "\<And>n l. n \<ge> k1 \<Longrightarrow> \<exists>cs. childLoop n conv True (bid b) None (w, l) =
            Some (w, l @ cs) \<and> writes cs = 0"
    by blast
  from Cons.IH [OF f1] obtain k2 where
    k2: "\<And>n p cnt. n \<ge> k2 \<Longrightarrow> pws p = w \<Longrightarrow> \<exists>cs.
            pageResults n conv True pg (map listed rest) (p, cnt) =
              Some (advance p w cs (topCount conv rest), cnt + topCount conv rest) \<and>
            writes cs = 0"
    by blast
  have tc: "topCount conv (Node b cks # rest) = ?t1 + topCount conv rest"
    using topCount_append [of conv "[Node b cks]" rest] by simp
  have "\<exists>cs. pageResults n conv True pg (map listed (Node b cks # rest)) (p, cnt) =
              Some (advance p w cs (topCount conv (Node b cks # rest)),
                    cnt + topCount conv (Node b cks # rest)) \<and>
            writes cs = 0"
    if n: "n \<ge> max k1 k2" and p: "pws p = w" for n p cnt
  proof -
    from n have n1: "n \<ge> k1" and n2: "n \<ge> k2" by simp_all
    have "\<exists>cs1. pageResults n conv True pg (listed (Node b cks) # map listed rest) (p, cnt) =
        pageResults n conv True pg (map listed rest) (advance p w cs1 ?t1, cnt + ?t1) \<and>
        writes cs1 = 0"
    proof (cases "btype b = fromType conv")
      case True
      then have "?t1 = 1" by (simp add: topCount_def)
      with pageResults_dry_match [OF True p, of n pg cks "map listed rest" cnt]
      have "pageResults n conv True pg (listed (Node b cks) # map listed rest) (p, cnt) =
        pageResults n conv True pg (map listed rest) (advance p w [] ?t1, cnt + ?t1) \<and>
        writes [] = 0"
        by (simp add: writes_def)
      then show ?thesis by blast
    next
      case False
      then have t0: "?t1 = 0" by (simp add: topCount_def)
      show ?thesis
      proof (cases "cks = []")
        case True
        have "pageResults n conv True pg (listed (Node b cks) # map listed rest) (p, cnt) =
            pageResults n conv True pg (map listed rest) (advance p w [] ?t1, cnt + ?t1) \<and>
            writes [] = 0"
          using False True advance_nothing [OF p] t0
          by (simp add: pageResults_other writes_def del: pageResults.simps)
        then show ?thesis by blast
      next
        case ne: False
        from k1 [OF n1, of "plog p"] obtain cs1 where
          s1: "childLoop n conv True (bid b) None (w, plog p) = Some (w, plog p @ cs1)"
            "writes cs1 = 0"
          by blast
        have eq: "p\<lparr>pws := w, plog := plog p @ cs1\<rparr> = advance p w cs1 0"
          by (simp add: advance_def)
        from s1(1) ne p t0
        have "pageResults n conv True pg (listed (Node b cks) # map listed rest) (p, cnt) =
            pageResults n conv True pg (map listed rest) (advance p w cs1 ?t1, cnt + ?t1)"
          by (simp add: pageResults_other [OF False] eq del: pageResults.simps)
        with s1(2) show ?thesis by blast
      qed
    qed
    then obtain cs1 where
      s1: "pageResults n conv True pg (listed (Node b cks) # map listed rest) (p, cnt) =
        pageResults n conv True pg (map listed rest) (advance p w cs1 ?t1, cnt + ?t1)"
        "writes cs1 = 0"
      by blast
    have "pws (advance p w cs1 ?t1) = w" by simp
    from k2 [OF n2 this, of "cnt + ?t1"] obtain cs2 where
      s2: "pageResults n conv True pg (map listed rest) (advance p w cs1 ?t1, cnt + ?t1) =
              Some (advance (advance p w cs1 ?t1) w cs2 (topCount conv rest),
                    cnt + ?t1 + topCount conv rest)"
        "writes cs2 = 0"
      by blast
    have "pageResults n conv True pg (map listed (Node b cks # rest)) (p, cnt) =
        Some (advance p w (cs1 @ cs2) (topCount conv (Node b cks # rest)),
              cnt + topCount conv (Node b cks # rest))"
      using s1(1) s2(1) by (simp only: list.map tc advance_advance add.assoc)
    moreover have "writes (cs1 @ cs2) = 0" using s1(2) s2(2) by (simp add: writes_append)
    ultimately show ?thesis by blast
  qed
  then show ?case unfolding k by blast
qed

lemma pageLoop_dry_pages:
  assumes w: "wellFormed w"
  shows "length ks \<le> m \<Longrightarrow> find_kids pg (forest w) = Some (pre @ ks) \<Longrightarrow>
     cursorAt pre ks cursor \<Longrightarrow>
     \<exists>k. \<forall>n\<ge>k. \<forall>p cnt. pws p = w \<longrightarrow> (\<exists>cs.
            pageLoop n conv True pg cursor (p, cnt) =
              Some (advance p w cs (topCount conv ks), Some (cnt + topCount conv ks)) \<and>
            writes cs = 0)"
proof (induction m arbitrary: ks pre cursor rule: less_induct)
  case (less m)
  let ?a = "take 100 ks" and ?b = "drop 100 ks"
  let ?resp = "\<lparr>results = map listed ?a, has_more = (length ks > 100),
                next_cursor = (if length ks > 100 then Some (bid (nblock (ks ! 100))) else None)\<rparr>"
  have d: "distinct (kidIds (pre @ ks))"
    using wf_kids_distinct [OF w less.prems(2)] by (rule kidIds_distinct)
  have la: "blocks_children_list w pg cursor = Inr ?resp"
    by (rule list_at [OF less.prems(2,3) d])
  have f': "find_kids pg (forest w) = Some (pre @ ?a @ ?b)" using less.prems(2) by simp
  from pageResults_dry [OF w f'] obtain k1 where
    k1: "\<And>n p cnt. n \<ge> k1 \<Longrightarrow> pws p = w \<Longrightarrow> \<exists>cs.
            pageResults n conv True pg (map listed ?a) (p, cnt) =
              Some (advance p w cs (topCount conv ?a), cnt + topCount conv ?a) \<and>
            writes cs = 0"
    by blast
  have tc: "topCount conv ks = topCount conv ?a + topCount conv ?b"
    using topCount_append [of conv ?a ?b] by simp
  show ?case
  proof (cases "length ks > 100")
    case False
    then have ab: "?a = ks" by simp
    have "\<exists>cs. pageLoop n conv True pg cursor (p, cnt) =
              Some (advance p w cs (topCount conv ks), Some (cnt + topCount conv ks)) \<and>
            writes cs = 0" if n: "n \<ge> Suc k1" and p: "pws p = w" for n p cnt
    proof -
      from n obtain n' where n': "n = Suc n'" "n' \<ge> k1" by (cases n) auto
      let ?p0 = "advance p w [ListCall pg cursor] 0"
      have "pws ?p0 = w" by simp
      from k1 [OF n'(2) this, of cnt] obtain cs where
        s: "pageResults n' conv True pg (map listed ?a) (?p0, cnt) =
              Some (advance ?p0 w cs (topCount conv ?a), cnt + topCount conv ?a)"
          "writes cs = 0"
        by blast
      have "pageLoop n conv True pg cursor (p, cnt) =
          Some (advance p w ([ListCall pg cursor] @ cs) (topCount conv ks),
                Some (cnt + topCount conv ks))"
        using s(1) False ab
        by (simp add: n'(1) pageLoop_step [OF la p] advance_advance del: pageLoop.simps)
      moreover have "writes ([ListCall pg cursor] @ cs) = 0"
        using s(2) by (simp add: writes_def isListCall_def)
      ultimately show ?thesis by blast
    qed
    then show ?thesis by blast
  next
    case True
    have f1: "find_kids pg (forest w) = Some ((pre @ ?a) @ ?b)" using less.prems(2) by simp
    have lb: "length ?b \<le> length ?b" by simp
    have lt: "length ?b < m" using True less.prems(1) by simp
    have cu: "cursorAt (pre @ ?a) ?b (Some (bid (nblock (ks ! 100))))"
      by (rule cursorAt_drop [OF True])
    from less.IH [OF lt lb f1 cu] obtain k2 where
      k2: "\<And>n p cnt. n \<ge> k2 \<Longrightarrow> pws p = w \<Longrightarrow> \<exists>cs.
             pageLoop n conv True pg (Some (bid (nblock (ks ! 100)))) (p, cnt) =
               Some (advance p w cs (topCount conv ?b), Some (cnt + topCount conv ?b)) \<and>
             writes cs = 0"
      by blast
    have "\<exists>cs. pageLoop n conv True pg cursor (p, cnt) =
              Some (advance p w cs (topCount conv ks), Some (cnt + topCount conv ks)) \<and>
            writes cs = 0"
      if n: "n \<ge> Suc (max k1 k2)" and p: "pws p = w" for n p cnt
    proof -
      from n obtain n' where n': "n = Suc n'" "n' \<ge> k1" "n' \<ge> k2" by (cases n) auto
      let ?p0 = "advance p w [ListCall pg cursor] 0"
      have "pws ?p0 = w" by simp
      from k1 [OF n'(2) this, of cnt] obtain cs1 where
        s1: "pageResults n' conv True pg (map listed ?a) (?p0, cnt) =
              Some (advance ?p0 w cs1 (topCount conv ?a), cnt + topCount conv ?a)"
          "writes cs1 = 0"
        by blast
      let ?p1 = "advance ?p0 w cs1 (topCount conv ?a)"
      have "pws ?p1 = w" by simp
      from k2 [OF n'(3) this, of "cnt + topCount conv ?a"] obtain cs2 where
        s2: "pageLoop n' conv True pg (Some (bid (nblock (ks ! 100))))
               (?p1, cnt + topCount conv ?a) =
               Some (advance ?p1 w cs2 (topCount conv ?b),
                     Some (cnt + topCount conv ?a + topCount conv ?b))"
          "writes cs2 = 0"
        by blast
      have "pageLoop n conv True pg cursor (p, cnt) =
          Some (advance p w ([ListCall pg cursor] @ cs1 @ cs2) (topCount conv ks),
                Some (cnt + topCount conv ks))"
        using s1(1) s2(1) True
        by (simp add: n'(1) pageLoop_step [OF la p] advance_advance tc [symmetric] add.assoc
            del: pageLoop.simps)
      moreover have "writes ([ListCall pg cursor] @ cs1 @ cs2) = 0"
        using s1(2) s2(2) by (simp add: writes_def isListCall_def)
      ultimately show ?thesis by blast
    qed
    then show ?thesis by blast
  qed
qed

lemma pageLoop_dry:
  assumes "wellFormed w" and f: "find_kids pg (forest w) = Some ks"
  shows "\<exists>k. \<forall>n\<ge>k. \<forall>p cnt. pws p = w \<longrightarrow> (\<exists>cs.
            pageLoop n conv True pg None (p, cnt) =
              Some (advance p w cs (topCount conv ks), Some (cnt + topCount conv ks)) \<and>
            writes cs = 0)"
proof -
  have f': "find_kids pg (forest w) = Some ([] @ ks)" using f by simp
  have c: "cursorAt [] ks None" by (simp add: cursorAt_def)
  show ?thesis by (rule pageLoop_dry_pages [OF assms(1) order_refl f' c])
qed

lemma pagesLoop_dry:
  assumes w: "wellFormed w"
  shows "\<exists>k. \<forall>n\<ge>k. \<forall>p. pws p = w \<longrightarrow> (\<exists>p'.
        pagesLoop n conv True ps p = Some p' \<and> pws p' = w \<and>
        totalCheckboxes p' = totalCheckboxes p + dryCount conv ps w \<and>
        convertedCheckboxes p' = convertedCheckboxes p + dryCount conv ps w \<and>
        writes (plog p') = writes (plog p))"
proof (induction ps)
  case Nil
  show ?case by simp
next
  case (Cons q qs)
  from Cons.IH obtain k2 where
    k2: "\<And>n p. n \<ge> k2 \<Longrightarrow> pws p = w \<Longrightarrow> \<exists>p'.
        pagesLoop n conv True qs p = Some p' \<and> pws p' = w \<and>
        totalCheckboxes p' = totalCheckboxes p + dryCount conv qs w \<and>
        convertedCheckboxes p' = convertedCheckboxes p + dryCount conv qs w \<and>
        writes (plog p') = writes (plog p)"
    by blast
  show ?case
  proof (cases "find_kids q (forest w)")
    case None
    have "\<exists>p'. pagesLoop n conv True (q # qs) p = Some p' \<and> pws p' = w \<and>
        totalCheckboxes p' = totalCheckboxes p + dryCount conv (q # qs) w \<and>
        convertedCheckboxes p' = convertedCheckboxes p + dryCount conv (q # qs) w \<and>
        writes (plog p') = writes (plog p)"
      if n: "n \<ge> Suc k2" and p: "pws p = w" for n p
    proof -
      from n obtain n' where n': "n = Suc n'" and n2: "n \<ge> k2" by (cases n) auto
      let ?p1 = "p\<lparr>plog := plog p @ [ListCall q None],
                    errors := errors p @ [''Could not find block'']\<rparr>"
      from None p have a: "pageLoop n conv True q None (p, 0) = Some (?p1, None)"
        unfolding n' by (intro pageLoop_absent) simp
      have "pws ?p1 = w" using p by simp
      from k2 [OF n2 this] obtain p' where
        r: "pagesLoop n conv True qs ?p1 = Some p'" "pws p' = w"
          "totalCheckboxes p' = totalCheckboxes ?p1 + dryCount conv qs w"
          "convertedCheckboxes p' = convertedCheckboxes ?p1 + dryCount conv qs w"
          "writes (plog p') = writes (plog ?p1)"
        by blast
      have "pagesLoop n conv True (q # qs) p = Some p'" using a r(1) by simp
      moreover have "writes (plog ?p1) = writes (plog p)"
        by (simp add: writes_def isListCall_def)
      ultimately show ?thesis using r None by simp
    qed
    then show ?thesis by blast
  next
    case (Some ks)
    from pageLoop_dry [OF w Some] obtain k1 where
      k1: "\<And>n p cnt. n \<ge> k1 \<Longrightarrow> pws p = w \<Longrightarrow> \<exists>cs.
            pageLoop n conv True q None (p, cnt) =
              Some (advance p w cs (topCount conv ks), Some (cnt + topCount conv ks)) \<and>
            writes cs = 0"
      by blast
    have "\<exists>p'. pagesLoop n conv True (q # qs) p = Some p' \<and> pws p' = w \<and>
        totalCheckboxes p' = totalCheckboxes p + dryCount conv (q # qs) w \<and>
        convertedCheckboxes p' = convertedCheckboxes p + dryCount conv (q # qs) w \<and>
        writes (plog p') = writes (plog p)"
      if n: "n \<ge> max k1 k2" and p: "pws p = w" for n p
    proof -
      from n have n1: "n \<ge> k1" and n2: "n \<ge> k2" by simp_all
      from k1 [OF n1 p, of 0] obtain cs where
        a: "pageLoop n conv True q None (p, 0) =
              Some (advance p w cs (topCount conv ks), Some (0 + topCount conv ks))"
          and wc: "writes cs = 0"
        by blast
      let ?p1 = "advance p w cs (topCount conv ks)"
      let ?p2 = "if 0 + topCount conv ks > 0
                 then ?p1\<lparr>pagesWithCheckboxes := pagesWithCheckboxes ?p1 + 1\<rparr> else ?p1"
      have p2: "pws ?p2 = w" "totalCheckboxes ?p2 = totalCheckboxes p + topCount conv ks"
        "convertedCheckboxes ?p2 = convertedCheckboxes p + topCount conv ks"
        "plog ?p2 = plog p @ cs"
        by simp_all
      from k2 [OF n2 p2(1)] obtain p' where
        r: "pagesLoop n conv True qs ?p2 = Some p'" "pws p' = w"
          "totalCheckboxes p' = totalCheckboxes ?p2 + dryCount conv qs w"
          "convertedCheckboxes p' = convertedCheckboxes ?p2 + dryCount conv qs w"
          "writes (plog p') = writes (plog ?p2)"
        by blast
      have "pagesLoop n conv True (q # qs) p = Some p'"
        using a r(1) by (simp only: pagesLoop.simps option.case prod.case)
      moreover have "writes (plog p') = writes (plog p)"
        using r(5) wc by (simp add: writes_append)
      ultimately show ?thesis
        using r(2,3,4) Some by (simp only: p2 dryCount.simps option.case) simp
    qed
    then show ?thesis by blast
  qed
qed

lemma convertBlocks_dry:
  assumes w: "wellFormed w"
  shows "\<exists>k. \<forall>n\<ge>k. \<exists>p'.
        convertBlocks n conv True w = Some p' \<and> pws p' = w \<and>
        totalCheckboxes p' = dryCount conv (getAllPages w) w \<and>
        convertedCheckboxes p' = dryCount conv (getAllPages w) w \<and>
        writes (plog p') = 0"
proof -
  let ?p0 = "\<lparr>pws = w, plog = [], totalCheckboxes = 0, convertedCheckboxes = 0,
        pagesWithCheckboxes = 0, errors = []\<rparr>"
  from pagesLoop_dry [OF w, of conv "getAllPages w"] obtain k where
    k: "\<And>n p. n \<ge> k \<Longrightarrow> pws p = w \<Longrightarrow> \<exists>p'.
        pagesLoop n conv True (getAllPages w) p = Some p' \<and> pws p' = w \<and>
        totalCheckboxes p' = totalCheckboxes p + dryCount conv (getAllPages w) w \<and>
        convertedCheckboxes p' = convertedCheckboxes p + dryCount conv (getAllPages w) w \<and>
        writes (plog p') = writes (plog p)"
    by blast
  have "\<exists>p'. convertBlocks n conv True w = Some p' \<and> pws p' = w \<and>
        totalCheckboxes p' = dryCount conv (getAllPages w) w \<and>
        convertedCheckboxes p' = dryCount conv (getAllPages w) w \<and>
        writes (plog p') = 0" if "n \<ge> k" for n
  proof -
    have "pws ?p0 = w" by simp
    from k [OF that this] show ?thesis
      by (simp add: convertBlocks_def writes_def)
  qed
  then show ?thesis by blast
qed

section \<open>Dry run against live run\<close>

lemma root_ids: "Node b ks \<in> set ns \<Longrightarrow> bid b \<in> set (ids ns)"
  by (induction ns rule: ids.induct) auto

lemma find_root:
  "distinct (ids ns) \<Longrightarrow> Node b ks \<in> set ns \<Longrightarrow> find_kids (bid b) ns = Some ks"
proof (induction ns rule: ids.induct)
  case 1
  then show ?case by simp
next
  case (2 b' ks' rest)
  show ?case
  proof (cases "Node b ks = Node b' ks'")
    case True
    then show ?thesis by simp
  next
    case False
    with "2.prems"(2) have m: "Node b ks \<in> set rest" by auto
    from root_ids [OF m] "2.prems"(1) have "bid b \<noteq> bid b'" "bid b \<notin> set (ids ks')"
      by auto
    moreover from "2.IH"(2) "2.prems"(1) m have "find_kids (bid b) rest = Some ks" by simp
    ultimately show ?thesis by (simp add: find_kids_None [THEN iffD2])
  qed
qed

lemma update_root:
  "distinct (ids ns) \<Longrightarrow> p \<in> set (kidIds ns) \<Longrightarrow>
     update_kids p f ns =
       map (\<lambda>k. if bid (nblock k) = p then Node (nblock k) (f (nkids k)) else k) ns"
proof (induction ns rule: ids.induct)
  case 1
  then show ?case by simp
next
  case (2 b ks rest)
  show ?case
  proof (cases "bid b = p")
    case True
    with "2.prems"(1) have "p \<notin> set (ids rest)" by auto
    with kidIds_subset [of rest] have "p \<notin> set (kidIds rest)" by blast
    then have "map (\<lambda>k. if bid (nblock k) = p then Node (nblock k) (f (nkids k)) else k) rest =
        rest"
      by (intro map_idI) (auto simp: kidIds_def)
    with True show ?thesis by simp
  next
    case False
    with "2.prems"(2) have r: "p \<in> set (kidIds rest)" by (simp add: kidIds_def)
    with kidIds_subset [of rest] have "p \<in> set (ids rest)" by blast
    with "2.prems"(1) have "p \<notin> set (ids ks)" by auto
    moreover from "2.IH"(2) "2.prems"(1) r have "update_kids p f rest =
        map (\<lambda>k. if bid (nblock k) = p then Node (nblock k) (f (nkids k)) else k) rest"
      by simp
    ultimately show ?thesis using False by simp
  qed
qed

lemma root_node: "q \<in> set (kidIds ns) \<Longrightarrow> \<exists>b ks. Node b ks \<in> set ns \<and> bid b = q"
proof -
  assume "q \<in> set (kidIds ns)"
  then obtain k where k: "k \<in> set ns" "bid (nblock k) = q" by (auto simp: kidIds_def)
  obtain b ks where "k = Node b ks" by (cases k)
  with k have "Node b ks \<in> set ns \<and> bid b = q" by simp
  then show ?thesis by blast
qed

lemma find_other_root:
  assumes d: "distinct (ids ns)" and d': "distinct (ids (update_kids p f ns))"
    and p: "p \<in> set (kidIds ns)" and q: "q \<in> set (kidIds ns)" and n: "q \<noteq> p"
  shows "find_kids q (update_kids p f ns) = find_kids q ns"
proof -
  from root_node [OF q] obtain b ks where b: "Node b ks \<in> set ns" "bid b = q" by blast
  let ?g = "\<lambda>k. if bid (nblock k) = p then Node (nblock k) (f (nkids k)) else k"
  have u: "update_kids p f ns = map ?g ns" by (rule update_root [OF d p])
  from b n have g: "?g (Node b ks) = Node b ks" by simp
  have "?g (Node b ks) \<in> ?g ` set ns" using b(1) by (rule imageI)
  then have "Node b ks \<in> ?g ` set ns" by (simp only: g)
  then have "Node b ks \<in> set (map ?g ns)" by (simp only: set_map)
  with u have "Node b ks \<in> set (update_kids p f ns)" by simp
  from find_root [OF d' this] find_root [OF d b(1)] show ?thesis by (simp add: b(2))
qed

lemma kidIds_update_root:
  assumes "distinct (ids ns)" and "p \<in> set (kidIds ns)"
  shows "kidIds (update_kids p f ns) = kidIds ns"
  unfolding update_root [OF assms] kidIds_def by (induction ns) simp_all

lemma dryCount_cong:
  "(\<forall>q\<in>set qs. find_kids q (forest w') = find_kids q (forest w)) \<Longrightarrow>
     dryCount conv qs w' = dryCount conv qs w"
  by (induction qs) (simp_all split: option.splits)

lemma liveCount_roots:
  assumes tf: "toType conv \<noteq> fromType conv"
  shows "wellFormed w \<Longrightarrow> convertible conv (forest w) \<Longrightarrow> distinct ps \<Longrightarrow>
     set ps \<subseteq> set (kidIds (forest w)) \<Longrightarrow> liveCount conv ps w = dryCount conv ps w"
proof (induction ps arbitrary: w)
  case Nil
  show ?case by simp
next
  case (Cons q qs)
  from Cons.prems(1) have d: "distinct (ids (forest w))" by (simp add: wellFormed_def)
  from Cons.prems(4) have qr: "q \<in> set (kidIds (forest w))" by simp
  from root_node [OF qr] obtain b ks where b: "Node b ks \<in> set (forest w)" "bid b = q"
    by blast
  from find_root [OF d b(1)] b(2) have f: "find_kids q (forest w) = Some ks" by simp
  let ?w1 = "converted conv q [] ks [] w"
  let ?new = "fst (convKids conv (next_id w) ks)"
  have e: "forest ?w1 = update_kids q (\<lambda>_. ?new) (forest w)" by (simp add: converted_def)
  have w1: "wellFormed ?w1" by (rule converted_page_wf [OF Cons.prems(1,2) f])
  then have d1: "distinct (ids (update_kids q (\<lambda>_. ?new) (forest w)))"
    by (simp add: wellFormed_def e)
  have c1: "convertible conv (forest ?w1)"
    by (rule converted_page_convertible [OF tf Cons.prems(2) f])
  have k1: "kidIds (forest ?w1) = kidIds (forest w)"
    by (simp only: e kidIds_update_root [OF d qr])
  from Cons.prems(3) have dq: "distinct qs" and nq: "q \<notin> set qs" by simp_all
  from Cons.prems(4) have sq: "set qs \<subseteq> set (kidIds (forest ?w1))" by (simp add: k1)
  have same: "\<forall>q'\<in>set qs. find_kids q' (forest ?w1) = find_kids q' (forest w)"
  proof
    fix q'
    assume q': "q' \<in> set qs"
    with Cons.prems(4) have r: "q' \<in> set (kidIds (forest w))" by auto
    from q' nq have "q' \<noteq> q" by auto
    from find_other_root [OF d d1 qr r this]
    show "find_kids q' (forest ?w1) = find_kids q' (forest w)" by (simp only: e)
  qed
  from Cons.IH [OF w1 c1 dq sq] dryCount_cong [OF same] f show ?case by simp
qed

lemma pageIds_subset: "set (pageIds ns) \<subseteq> set (ids ns)"
  by (induction ns rule: pageIds.induct) auto

lemma pageIds_distinct: "distinct (ids ns) \<Longrightarrow> distinct (pageIds ns)"
proof (induction ns rule: pageIds.induct)
  case 1
  show ?case by simp
next
  case (2 b ks rest)
  from "2.prems" have d: "distinct (ids ks)" "distinct (ids rest)"
    "bid b \<notin> set (ids ks)" "bid b \<notin> set (ids rest)" "set (ids ks) \<inter> set (ids rest) = {}"
    by auto
  with "2.IH" have "distinct (pageIds ks)" "distinct (pageIds rest)" by simp_all
  moreover from d pageIds_subset [of ks] pageIds_subset [of rest]
  have "bid b \<notin> set (pageIds ks)" "bid b \<notin> set (pageIds rest)"
    "set (pageIds ks) \<inter> set (pageIds rest) = {}"
    by blast+
  ultimately show ?case by simp
qed

text \<open>
  Claim C6.  The dry run is to report the number of conversions that the live run then
  reports, after the same walk.  On a page with a sub-page that holds one to_do the dry
  run reports one block to convert; the live run converts that block while it walks
  the parent page, in \<^verbatim>\<open>processChildBlocks\<close>, which does not count and does not stop at
  child_page blocks, finds nothing left on the sub-page and reports zero conversions,
  without any error.  The walks differ as well: below a nested to_do the dry run lists
  the children of block 5, the live run stops at the listing of the deleted block 4.
\<close>

theorem dry_run_count_exceeds_live_count:
  "map_option convertedCheckboxes (convertCheckboxesToBullets 3 True subPageWs) = Some 1 \<and>
   map_option convertedCheckboxes (convertCheckboxesToBullets 3 False subPageWs) = Some 0 \<and>
   map_option errors (convertCheckboxesToBullets 3 False subPageWs) = Some [] \<and>
   map_option plog (convertCheckboxesToBullets 4 True deepWs) =
     Some [ListCall 1 None, ListCall 2 None, ListCall 4 None, ListCall 5 None] \<and>
   map_option (\<lambda>p. filter isListCall (plog p)) (convertCheckboxesToBullets 4 False deepWs) =
     Some [ListCall 1 None, ListCall 2 None, ListCall 4 None]"
  by code_simp

text \<open>
  Where the dry run and the live run do agree.  In a well-formed workspace a dry run
  returns, given enough fuel, with the workspace unchanged and no append or delete call
  made; it reports, as found and as to be converted, the blocks of the source type that
  stand directly on the pages.  When in addition every block of the source type has a
  span list and no page lies inside another page, a live run on the same workspace
  reports that number of conversions.
\<close>

theorem dry_run_frame_and_parity:
  assumes "wellFormed w"
  shows "(\<exists>k. \<forall>n\<ge>k. \<exists>pd.
            convertBlocks n conv True w = Some pd \<and> pws pd = w \<and> writes (plog pd) = 0 \<and>
            totalCheckboxes pd = dryCount conv (getAllPages w) w \<and>
            convertedCheckboxes pd = dryCount conv (getAllPages w) w) \<and>
         ((conv = checkboxConverter \<or> conv = quoteConverter) \<and>
          convertible conv (forest w) \<and> set (getAllPages w) \<subseteq> set (kidIds (forest w)) \<longrightarrow>
          (\<exists>k. \<forall>n\<ge>k. \<exists>pd pl.
             convertBlocks n conv True w = Some pd \<and> convertBlocks n conv False w = Some pl \<and>
             convertedCheckboxes pl = convertedCheckboxes pd \<and>
             totalCheckboxes pl = totalCheckboxes pd))"
proof (intro conjI impI)
  from convertBlocks_dry [OF assms, of conv] obtain k1 where
    k1: "\<And>n. n \<ge> k1 \<Longrightarrow> \<exists>pd.
        convertBlocks n conv True w = Some pd \<and> pws pd = w \<and>
        totalCheckboxes pd = dryCount conv (getAllPages w) w \<and>
        convertedCheckboxes pd = dryCount conv (getAllPages w) w \<and>
        writes (plog pd) = 0"
    by blast
  then show "\<exists>k. \<forall>n\<ge>k. \<exists>pd.
            convertBlocks n conv True w = Some pd \<and> pws pd = w \<and> writes (plog pd) = 0 \<and>
            totalCheckboxes pd = dryCount conv (getAllPages w) w \<and>
            convertedCheckboxes pd = dryCount conv (getAllPages w) w"
    by blast
  assume h: "(conv = checkboxConverter \<or> conv = quoteConverter) \<and>
          convertible conv (forest w) \<and> set (getAllPages w) \<subseteq> set (kidIds (forest w))"
  then have tf: "toType conv \<noteq> fromType conv"
    by (auto simp: checkboxConverter_def quoteConverter_def)
  from h have c: "convertible conv (forest w)"
    and r: "set (getAllPages w) \<subseteq> set (kidIds (forest w))" by simp_all
  from assms have "distinct (getAllPages w)"
    by (simp add: getAllPages_def wellFormed_def pageIds_distinct)
  from liveCount_roots [OF tf assms c this r]
  have eq: "liveCount conv (getAllPages w) w = dryCount conv (getAllPages w) w" .
  from convertBlocks_live [OF tf assms c] obtain k2 where
    k2: "\<And>n. n \<ge> k2 \<Longrightarrow> \<exists>pl.
        convertBlocks n conv False w = Some pl \<and>
        pws pl = convPages conv (getAllPages w) w \<and>
        totalCheckboxes pl = liveCount conv (getAllPages w) w \<and>
        convertedCheckboxes pl = liveCount conv (getAllPages w) w \<and>
        writes (plog pl) + 2 * next_id w = 2 * next_id (convPages conv (getAllPages w) w)"
    by blast
  have "\<exists>pd pl.
             convertBlocks n conv True w = Some pd \<and> convertBlocks n conv False w = Some pl \<and>
             convertedCheckboxes pl = convertedCheckboxes pd \<and>
             totalCheckboxes pl = totalCheckboxes pd" if n: "n \<ge> max k1 k2" for n
  proof -
    from n have n1: "n \<ge> k1" and n2: "n \<ge> k2" by simp_all
    from k1 [OF n1] obtain pd where
      pd: "convertBlocks n conv True w = Some pd"
        "totalCheckboxes pd = dryCount conv (getAllPages w) w"
        "convertedCheckboxes pd = dryCount conv (getAllPages w) w"
      by blast
    from k2 [OF n2] obtain pl where
      pl: "convertBlocks n conv False w = Some pl"
        "totalCheckboxes pl = liveCount conv (getAllPages w) w"
        "convertedCheckboxes pl = liveCount conv (getAllPages w) w"
      by blast
    from pd pl eq show ?thesis by simp
  qed
  then show "\<exists>k. \<forall>n\<ge>k. \<exists>pd pl.
             convertBlocks n conv True w = Some pd \<and> convertBlocks n conv False w = Some pl \<and>
             convertedCheckboxes pl = convertedCheckboxes pd \<and>
             totalCheckboxes pl = totalCheckboxes pd"
    by blast
qed

theorem dry_run_frame_and_parity_witness:
  "wellFormed milkWs \<and> convertible checkboxConverter (forest milkWs) \<and>
   getAllPages milkWs = [1] \<and> kidIds (forest milkWs) = [1] \<and>
   (\<exists>n pd pl.
      convertBlocks n checkboxConverter True milkWs = Some pd \<and> pws pd = milkWs \<and>
      writes (plog pd) = 0 \<and>
      convertBlocks n checkboxConverter False milkWs = Some pl \<and>
      convertedCheckboxes pl = convertedCheckboxes pd) \<and>
   map_option convertedCheckboxes (convertBlocks 3 checkboxConverter True milkWs) = Some 1 \<and>
   map_option convertedCheckboxes (convertBlocks 3 checkboxConverter False milkWs) = Some 1"
proof -
  have w: "wellFormed milkWs"
    by (simp add: wellFormed_def milkWs_def pageNode_def paraNode_def todoNode_def textBlock_def
        plainBlock_def)
  have c: "convertible checkboxConverter (forest milkWs)"
    by (simp add: milkWs_def pageNode_def paraNode_def todoNode_def textBlock_def
        plainBlock_def checkboxConverter_def)
  have g: "getAllPages milkWs = [1]" "kidIds (forest milkWs) = [1]"
    by (simp_all add: getAllPages_def kidIds_def milkWs_def pageNode_def paraNode_def
        todoNode_def textBlock_def plainBlock_def)
  have h: "(checkboxConverter = checkboxConverter \<or> checkboxConverter = quoteConverter) \<and>
      convertible checkboxConverter (forest milkWs) \<and>
      set (getAllPages milkWs) \<subseteq> set (kidIds (forest milkWs))"
    using c g by simp
  from dry_run_frame_and_parity [OF w, of checkboxConverter] h obtain k1 k2 where
    k1: "\<forall>n\<ge>k1. \<exists>pd.
            convertBlocks n checkboxConverter True milkWs = Some pd \<and> pws pd = milkWs \<and>
            writes (plog pd) = 0 \<and>
            totalCheckboxes pd = dryCount checkboxConverter (getAllPages milkWs) milkWs \<and>
            convertedCheckboxes pd = dryCount checkboxConverter (getAllPages milkWs) milkWs"
    and k2: "\<forall>n\<ge>k2. \<exists>pd pl.
             convertBlocks n checkboxConverter True milkWs = Some pd \<and>
             convertBlocks n checkboxConverter False milkWs = Some pl \<and>
             convertedCheckboxes pl = convertedCheckboxes pd \<and>
             totalCheckboxes pl = totalCheckboxes pd"
    by blast
  let ?n = "max k1 k2"
  from k1 obtain pd where pd: "convertBlocks ?n checkboxConverter True milkWs = Some pd"
    "pws pd = milkWs" "writes (plog pd) = 0"
    by (meson max.cobounded1)
  from k2 obtain pd' pl where pl: "convertBlocks ?n checkboxConverter True milkWs = Some pd'"
    "convertBlocks ?n checkboxConverter False milkWs = Some pl"
    "convertedCheckboxes pl = convertedCheckboxes pd'"
    by (meson max.cobounded2)
  from pd(1) pl(1) have "pd' = pd" by simp
  with pd pl have "\<exists>n pd pl.
      convertBlocks n checkboxConverter True milkWs = Some pd \<and> pws pd = milkWs \<and>
      writes (plog pd) = 0 \<and>
      convertBlocks n checkboxConverter False milkWs = Some pl \<and>
      convertedCheckboxes pl = convertedCheckboxes pd"
    by blast
  moreover have
    "map_option convertedCheckboxes (convertBlocks 3 checkboxConverter True milkWs) = Some 1"
    "map_option convertedCheckboxes (convertBlocks 3 checkboxConverter False milkWs) = Some 1"
    by code_simp+
  ultimately show ?thesis using w c g by blast
qed

end
